(* ===== verification/Prelude.thy ===== *)
theory Prelude
  imports Main "HOL-Library.Word"
begin

text \<open>
  Shared ground of the development: the machine types, the model of blocking file
  descriptors (what read(2) and write(2) do with a buffer), bounds-checked stores into a
  buffer, and the small error monad in which the daemon's C++ exceptions are values.

  A descriptor that is read is the script of what its peer will do: each entry is one
  delivery of bytes or one failing call, and the empty script is end of file.  A descriptor
  that is written remembers what the kernel accepted, call by call, next to the script of
  short writes and failures still to come.  Quantifying over scripts is quantifying over
  every way the kernel may cut up, interrupt or end a transfer.
\<close>

named_theorems io_simps \<open>evaluation of the descriptor model\<close>
named_theorems exn_simps \<open>evaluation of the error monad\<close>

type_synonym byte = "8 word"
type_synonym u16 = "16 word"
type_synonym i32 = "32 word"

section \<open>Reading\<close>

datatype 'b rev = Data "'b list" | Fail

type_synonym 'b rstream = "'b rev list"

text \<open>
  read(fd, buf, n): end of file is 0, an error is -1, otherwise at most n bytes of the next
  delivery, the rest of which stays for the next call.  A delivery of no bytes is a read that
  returns 0.
\<close>

fun sys_read :: "nat \<Rightarrow> 'b rstream \<Rightarrow> int \<times> 'b list \<times> 'b rstream" where
  "sys_read n [] = (0, [], [])"
| "sys_read n (Fail # s) = (- 1, [], s)"
| "sys_read n (Data bs # s) =
     (if length bs \<le> n then (int (length bs), bs, s)
      else (int n, take n bs, Data (drop n bs) # s))"

text \<open>The bytes a reader can get before the descriptor first reports 0 or an error.\<close>

fun avail :: "'b rstream \<Rightarrow> 'b list" where
  "avail [] = []"
| "avail (Fail # s) = []"
| "avail (Data bs # s) = (if bs = [] then [] else bs @ avail s)"

text \<open>What a script still holds: it bounds the number of successful reads.\<close>

fun rsize :: "'b rstream \<Rightarrow> nat" where
  "rsize [] = 0"
| "rsize (Fail # s) = Suc (rsize s)"
| "rsize (Data bs # s) = Suc (length bs) + rsize s"

lemma sys_read_len:
  assumes "sys_read n s = (k, bs, s')"
  shows "k = int (length bs) \<and> length bs \<le> n \<or> k = - 1 \<and> bs = []"
  using assms by (cases "(n, s)" rule: sys_read.cases) (auto split: if_splits)

lemma sys_read_avail:
  assumes "sys_read n s = (k, bs, s')" "0 < k"
  shows "avail s = bs @ avail s' \<and> bs \<noteq> [] \<and> k = int (length bs) \<and> length bs \<le> n"
  using assms by (cases "(n, s)" rule: sys_read.cases) (auto split: if_splits)

lemma sys_read_stop:
  assumes "sys_read n s = (k, bs, s')" "k \<le> 0" "0 < n"
  shows "avail s = [] \<and> bs = []"
  using assms by (cases "(n, s)" rule: sys_read.cases) (auto split: if_splits)

lemma sys_read_rsize:
  assumes "sys_read n s = (k, bs, s')" "0 < k"
  shows "rsize s' + length bs \<le> rsize s"
  using assms by (cases "(n, s)" rule: sys_read.cases) (auto split: if_splits)

lemma sys_read_rsize_le: "sys_read n s = (k, bs, s') \<Longrightarrow> rsize s' \<le> rsize s"
  by (cases "(n, s)" rule: sys_read.cases) (auto split: if_splits)

lemma sys_read_rsize_less: "sys_read n s = (k, bs, s') \<Longrightarrow> 0 < k \<Longrightarrow> rsize s' < rsize s"
  using sys_read_rsize [of n s k bs s'] sys_read_avail [of n s k bs s'] by (cases bs) auto

lemma sys_read_progress:
  assumes "0 < n" "avail s \<noteq> []"
  shows "\<exists>bs s'. sys_read n s = (int (length bs), bs, s') \<and> bs \<noteq> []"
  using assms by (cases "(n, s)" rule: sys_read.cases) (auto split: if_splits)

section \<open>Writing\<close>

datatype wev = Accept nat | WFail

record 'b sink =
  wscript :: "wev list"
  wlog :: "'b list list"

text \<open>
  write(fd, buf, n): the kernel may fail the call or take only the first bytes; with no event
  left in the script it takes the whole buffer.
\<close>

fun sys_write :: "'b list \<Rightarrow> 'b sink \<Rightarrow> int \<times> 'b sink" where
  "sys_write bs w = (case wscript w of
       [] \<Rightarrow> (int (length bs), w\<lparr>wlog := wlog w @ [bs]\<rparr>)
     | WFail # es \<Rightarrow> (- 1, w\<lparr>wscript := es\<rparr>)
     | Accept k # es \<Rightarrow>
         (int (min k (length bs)), w\<lparr>wscript := es, wlog := wlog w @ [take k bs]\<rparr>))"

definition fresh_sink :: "'b sink" where
  "fresh_sink = \<lparr>wscript = [], wlog = []\<rparr>"

lemma sys_write_reliable [io_simps]:
  "wscript w = [] \<Longrightarrow> sys_write bs w = (int (length bs), w\<lparr>wlog := wlog w @ [bs]\<rparr>)"
  by simp

lemma fresh_sink_simps [simp]: "wscript fresh_sink = []" "wlog fresh_sink = []"
  by (simp_all add: fresh_sink_def)

lemma sys_write_cases:
  assumes "sys_write bs w = (k, w')"
  shows "k = - 1 \<and> wlog w' = wlog w
    \<or> (\<exists>j. k = int (length (take j bs)) \<and> wlog w' = wlog w @ [take j bs])"
proof (cases "wscript w")
  case Nil
  with assms show ?thesis by (auto intro!: exI [of _ "length bs"])
next
  case (Cons e es)
  with assms show ?thesis by (cases e) (auto simp: min.commute)
qed

declare sys_write.simps [simp del]

section \<open>Buffers\<close>

text \<open>
  A store of bytes at an offset of a C array.  None is the out-of-bounds store, undefined
  behaviour in the source.
\<close>

definition put_bytes :: "nat \<Rightarrow> 'b list \<Rightarrow> 'b list \<Rightarrow> 'b list option" where
  "put_bytes off bs buf =
     (if off + length bs \<le> length buf
      then Some (take off buf @ bs @ drop (off + length bs) buf) else None)"

lemma put_bytes_length: "put_bytes off bs buf = Some buf' \<Longrightarrow> length buf' = length buf"
  by (auto simp: put_bytes_def split: if_splits)

lemma put_bytes_defined:
  "off + length bs \<le> length buf \<Longrightarrow> \<exists>buf'. put_bytes off bs buf = Some buf'"
  by (simp add: put_bytes_def)

lemma put_bytes_nil [io_simps]: "off \<le> length buf \<Longrightarrow> put_bytes off [] buf = Some buf"
  by (simp add: put_bytes_def)

lemma put_bytes_take:
  assumes "put_bytes off bs buf = Some buf'"
  shows "take (off + length bs) buf' = take off buf @ bs"
  using assms by (auto simp: put_bytes_def split: if_splits)

section \<open>Exceptions as values\<close>

text \<open>
  A C++ operation on a state, which either throws (Inl) or returns (Inr).  The state changes
  made before the throw persist, as they do in the source.
\<close>

text \<open>
  The ways an operation of the daemons can fail to return: a stdio call on the NULL that a
  failed fopen gave, an increment of a past-the-end list iterator, set_value on a promise that
  is already satisfied (std::future_error), a member call through a null promise pointer, an
  uncaught DBus::Error, and a store outside a buffer.
\<close>

datatype fault = Null_FILE | Past_end_iterator | Promise_already_satisfied | Null_promise
  | DBus_Error | Buffer_overflow

type_synonym ('s, 'e, 'a) eff = "'s \<Rightarrow> ('e + 'a) \<times> 's"

definition ret :: "'a \<Rightarrow> ('s, 'e, 'a) eff" where
  "ret x = (\<lambda>s. (Inr x, s))"

definition throw :: "'e \<Rightarrow> ('s, 'e, 'a) eff" where
  "throw e = (\<lambda>s. (Inl e, s))"

definition andthen :: "('s, 'e, 'a) eff \<Rightarrow> ('a \<Rightarrow> ('s, 'e, 'b) eff) \<Rightarrow> ('s, 'e, 'b) eff" where
  "andthen f g = (\<lambda>s. case f s of (Inl e, s') \<Rightarrow> (Inl e, s') | (Inr x, s') \<Rightarrow> g x s')"

definition catch :: "('s, 'e, 'a) eff \<Rightarrow> ('s, 'e, 'a) eff \<Rightarrow> ('s, 'e, 'a) eff" where
  "catch f h = (\<lambda>s. case f s of (Inl e, s') \<Rightarrow> h s' | (Inr x, s') \<Rightarrow> (Inr x, s'))"

lemma ret_eff [exn_simps, simp]: "ret x s = (Inr x, s)"
  by (simp add: ret_def)

lemma throw_eff [exn_simps, simp]: "throw e s = (Inl e, s)"
  by (simp add: throw_def)

lemma andthen_Inl [exn_simps, simp]: "f s = (Inl e, s') \<Longrightarrow> andthen f g s = (Inl e, s')"
  by (simp add: andthen_def)

lemma andthen_Inr [exn_simps, simp]: "f s = (Inr x, s') \<Longrightarrow> andthen f g s = g x s'"
  by (simp add: andthen_def)

lemma catch_Inl [exn_simps, simp]: "f s = (Inl e, s') \<Longrightarrow> catch f h s = h s'"
  by (simp add: catch_def)

lemma catch_Inr [exn_simps, simp]: "f s = (Inr x, s') \<Longrightarrow> catch f h s = (Inr x, s')"
  by (simp add: catch_def)

lemma andthen_ret [simp]: "andthen (ret x) g = g x" "andthen f ret = f" "andthen f (\<lambda>_. ret ()) = f"
  by (auto simp: andthen_def ret_def fun_eq_iff split: prod.split sum.split)

lemma andthen_assoc: "andthen (andthen f g) h = andthen f (\<lambda>x. andthen (g x) h)"
  by (auto simp: andthen_def fun_eq_iff split: prod.split sum.split)

section \<open>Words and lists\<close>

lemma unat_byte_bound [simp]: "unat (b :: byte) < 256"
  using unsigned_less [of b, where ?'a = nat] by simp

lemma find_some_in: "find P xs = Some x \<Longrightarrow> x \<in> set xs \<and> P x"
  by (induction xs) (auto split: if_splits)

lemma take_eq_prefix:
  assumes "take n xs = ys @ zs"
  shows "take (length ys) xs = ys"
proof -
  have "take (length ys) (take n xs) = ys" by (simp add: assms)
  moreover have "length ys \<le> n" using assms by (metis length_append length_take le_add1 min.bounded_iff order_trans)
  ultimately show ?thesis by (simp add: min_absorb1)
qed

end
