(* ===== verification/Reader.thy ===== *)
theory Reader
  imports Prelude
begin

text \<open>
  The contract the two readFully routines of the daemon share (AAWProxy::readFully in
  proxyHandler.cpp, the static readFully of bluetoothProfiles.cpp), and what a client that
  reads a fixed header and then a body of known length gets from it.  A reader is given a
  script, a buffer, an offset into it and a count; it returns the C return value, the buffer
  and the rest of the script, or None for a store outside the buffer.
\<close>

locale exact_reader =
  fixes rd :: "'b rstream \<Rightarrow> 'b list \<Rightarrow> nat \<Rightarrow> nat \<Rightarrow> (int \<times> 'b list \<times> 'b rstream) option"
  assumes rd_full: "off + n \<le> length buf \<Longrightarrow> n \<le> length (avail s) \<Longrightarrow>
      \<exists>s'. rd s buf off n =
             Some (int n, take off buf @ take n (avail s) @ drop (off + n) buf, s')
           \<and> avail s' = drop n (avail s) \<and> rsize s' + n \<le> rsize s"
    and rd_short: "off + n \<le> length buf \<Longrightarrow> length (avail s) < n \<Longrightarrow>
      \<exists>k buf' s'. rd s buf off n = Some (k, buf', s') \<and> k < int n \<and> length buf' = length buf"
begin

lemma rd_defined: "off + n \<le> length buf \<Longrightarrow> \<exists>k buf' s'. rd s buf off n = Some (k, buf', s')"
  using rd_full [of off n buf s] rd_short [of off n buf s] by (cases "n \<le> length (avail s)") auto

lemma rd_length:
  assumes "off + n \<le> length buf" "rd s buf off n = Some (k, buf', s')"
  shows "length buf' = length buf"
proof (cases "n \<le> length (avail s)")
  case True
  from rd_full [OF assms(1) True] assms(2) have
    "buf' = take off buf @ take n (avail s) @ drop (off + n) buf" by auto
  with assms(1) True show ?thesis by simp
next
  case False
  with rd_short [OF assms(1), of s] assms(2) show ?thesis by auto
qed

lemma rd_complete_iff:
  assumes "off + n \<le> length buf" "rd s buf off n = Some (k, buf', s')"
  shows "k = int n \<longleftrightarrow> n \<le> length (avail s)"
proof (cases "n \<le> length (avail s)")
  case True
  with rd_full [OF assms(1) True] assms(2) show ?thesis by auto
next
  case False
  with rd_short [OF assms(1), of s] assms(2) show ?thesis by auto
qed

lemma rd_got:
  assumes "off + n \<le> length buf" "rd s buf off n = Some (int n, buf', s')"
  shows "n \<le> length (avail s)" "buf' = take off buf @ take n (avail s) @ drop (off + n) buf"
    "avail s' = drop n (avail s)" "rsize s' + n \<le> rsize s"
proof -
  show n: "n \<le> length (avail s)" using rd_complete_iff [OF assms] by simp
  show "buf' = take off buf @ take n (avail s) @ drop (off + n) buf"
    "avail s' = drop n (avail s)" "rsize s' + n \<le> rsize s"
    using rd_full [OF assms(1) n] assms(2) by auto
qed

text \<open>A header of h bytes at the start of the buffer and then a body of m bytes behind it.\<close>

lemma header_then_body:
  assumes "h + m \<le> length buf" "h + m \<le> length (avail s)"
  shows "\<exists>s1 s2. rd s buf 0 h = Some (int h, take h (avail s) @ drop h buf, s1)
    \<and> rd s1 (take h (avail s) @ drop h buf) h m
        = Some (int m, take (h + m) (avail s) @ drop (h + m) buf, s2)
    \<and> avail s2 = drop (h + m) (avail s) \<and> rsize s2 + h + m \<le> rsize s"
proof -
  let ?b = "take h (avail s) @ drop h buf"
  obtain s1 where 1: "rd s buf 0 h = Some (int h, ?b, s1)"
    "avail s1 = drop h (avail s)" "rsize s1 + h \<le> rsize s"
    using rd_full [of 0 h buf s] assms by auto
  have "h + m \<le> length ?b" "m \<le> length (avail s1)" using assms 1(2) by auto
  from rd_full [OF this] obtain s2 where 2: "rd s1 ?b h m =
      Some (int m, take h ?b @ take m (avail s1) @ drop (h + m) ?b, s2)"
    "avail s2 = drop m (avail s1)" "rsize s2 + m \<le> rsize s1"
    by blast
  have "take h ?b @ take m (avail s1) @ drop (h + m) ?b
      = take (h + m) (avail s) @ drop (h + m) buf"
    using assms 1(2) by (simp add: take_add add.commute [of m h])
  with 2(1) have "rd s1 ?b h m = Some (int m, take (h + m) (avail s) @ drop (h + m) buf, s2)"
    by simp
  moreover have "avail s2 = drop (h + m) (avail s)" using 1(2) 2(2) by (simp add: add.commute)
  moreover have "rsize s2 + h + m \<le> rsize s" using 1(3) 2(3) by simp
  ultimately show ?thesis using 1(1) by blast
qed

end

end
