(* ===== verification/Proxy.thy ===== *)
theory Proxy
  imports Reader "HOL-Library.Sublist"
begin

text \<open>
  AAWProxy (proxyHandler.cpp): the routines that move bytes between the phone's TCP
  connection and the car's USB accessory device.
\<close>

unbundle bit_operations_syntax

section \<open>readFully\<close>

function readFully_loop ::
    "nat \<Rightarrow> byte rstream \<Rightarrow> byte list \<Rightarrow> nat \<Rightarrow> nat \<Rightarrow> (int \<times> byte list \<times> byte rstream) option" where
  "readFully_loop nbyte s buf off remaining_bytes =
     (if remaining_bytes = 0 then Some (int nbyte, buf, s)
      else case sys_read remaining_bytes s of (len, bs, s') \<Rightarrow>
        (case put_bytes off bs buf of
           None \<Rightarrow> None
         | Some buf' \<Rightarrow>
             if len \<le> 0 then Some (len, buf', s')
             else readFully_loop nbyte s' buf' (off + nat len) (remaining_bytes - nat len)))"
  by pat_completeness auto
termination
  by (relation "measure (\<lambda>(nbyte, s, buf, off, r). r)") auto

declare readFully_loop.simps [simp del]

definition readFully ::
    "byte rstream \<Rightarrow> byte list \<Rightarrow> nat \<Rightarrow> nat \<Rightarrow> (int \<times> byte list \<times> byte rstream) option" where
  "readFully s buf off nbyte = readFully_loop nbyte s buf off nbyte"

lemma readFully_loop_full:
  assumes "off + r \<le> length buf" "r \<le> length (avail s)"
  shows "\<exists>s'. readFully_loop nb s buf off r =
      Some (int nb, take off buf @ take r (avail s) @ drop (off + r) buf, s')
    \<and> avail s' = drop r (avail s) \<and> rsize s' + r \<le> rsize s"
  using assms
proof (induction nb s buf off r rule: readFully_loop.induct)
  case (1 nb s buf off r)
  show ?case
  proof (cases "r = 0")
    case True
    then show ?thesis by (simp add: readFully_loop.simps [of nb s buf off])
  next
    case False
    with "1.prems" have "avail s \<noteq> []" by auto
    with False obtain bs s' where rd: "sys_read r s = (int (length bs), bs, s')" and ne: "bs \<noteq> []"
      using sys_read_progress by blast
    from sys_read_avail [OF rd] ne have av: "avail s = bs @ avail s'" and le: "length bs \<le> r"
      by auto
    from sys_read_rsize [OF rd] ne have rs: "rsize s' + length bs \<le> rsize s" by simp
    define b1 where "b1 = take off buf @ bs @ drop (off + length bs) buf"
    have put: "put_bytes off bs buf = Some b1" and len1: "length b1 = length buf"
      using "1.prems" le by (auto simp: put_bytes_def b1_def)
    have "\<exists>s''. readFully_loop nb s' b1 (off + nat (int (length bs))) (r - nat (int (length bs))) =
        Some (int nb, take (off + length bs) b1 @ take (r - length bs) (avail s')
              @ drop (off + length bs + (r - length bs)) b1, s'')
      \<and> avail s'' = drop (r - length bs) (avail s') \<and> rsize s'' + (r - length bs) \<le> rsize s'"
      using "1.IH" [OF False rd [symmetric] refl put] ne "1.prems" le len1 av by auto
    moreover have "take (off + length bs) b1 @ take (r - length bs) (avail s')
        @ drop (off + length bs + (r - length bs)) b1
      = take off buf @ take r (avail s) @ drop (off + r) buf"
      using "1.prems" le av by (simp add: b1_def add.commute [of r off])
    ultimately show ?thesis
      using False rd put ne av rs le by (auto simp: readFully_loop.simps [of nb s buf off r])
  qed
qed

lemma readFully_loop_short:
  assumes "off + r \<le> length buf" "length (avail s) < r" "r \<le> nb"
  shows "\<exists>k buf' s'. readFully_loop nb s buf off r = Some (k, buf', s') \<and> k \<le> 0
    \<and> length buf' = length buf"
  using assms
proof (induction nb s buf off r rule: readFully_loop.induct)
  case (1 nb s buf off r)
  from "1.prems" have r: "r \<noteq> 0" by auto
  obtain len bs s' where rd: "sys_read r s = (len, bs, s')" by (metis prod_cases3)
  from sys_read_len [OF rd] have fits: "off + length bs \<le> length buf" using "1.prems" by auto
  then obtain b1 where put: "put_bytes off bs buf = Some b1" using put_bytes_defined by blast
  note len1 = put_bytes_length [OF put]
  show ?case
  proof (cases "len \<le> 0")
    case True
    then show ?thesis using r rd put len1 by (simp add: readFully_loop.simps [of nb s buf off r])
  next
    case False
    then have "0 < len" by simp
    from sys_read_avail [OF rd this] have av: "avail s = bs @ avail s'"
      and len: "len = int (length bs)" "length bs \<le> r" by auto
    have "\<exists>k buf' s''. readFully_loop nb s' b1 (off + nat len) (r - nat len) = Some (k, buf', s'')
        \<and> k \<le> 0 \<and> length buf' = length b1"
      using "1.IH" [OF r rd [symmetric] refl put False] "1.prems" len av len1 by auto
    with r rd put False len1 show ?thesis by (simp add: readFully_loop.simps [of nb s buf off r])
  qed
qed

lemma readFully_full:
  assumes "off + n \<le> length buf" "n \<le> length (avail s)"
  shows "\<exists>s'. readFully s buf off n =
      Some (int n, take off buf @ take n (avail s) @ drop (off + n) buf, s')
    \<and> avail s' = drop n (avail s) \<and> rsize s' + n \<le> rsize s"
  unfolding readFully_def using assms by (rule readFully_loop_full)

lemma readFully_short:
  assumes "off + n \<le> length buf" "length (avail s) < n"
  shows "\<exists>k buf' s'. readFully s buf off n = Some (k, buf', s') \<and> k \<le> 0 \<and> length buf' = length buf"
  unfolding readFully_def using assms by (rule readFully_loop_short) simp

interpretation tcp_reader: exact_reader readFully
proof
  fix off n :: nat and buf :: "byte list" and s :: "byte rstream"
  assume "off + n \<le> length buf" "length (avail s) < n"
  from readFully_short [OF this] this(2)
  show "\<exists>k buf' s'. readFully s buf off n = Some (k, buf', s') \<and> k < int n \<and> length buf' = length buf"
    by force
qed (rule readFully_full)

section \<open>readMessage\<close>

definition FRAME_TYPE_FIRST :: byte where "FRAME_TYPE_FIRST = 1"
definition FRAME_TYPE_LAST :: byte where "FRAME_TYPE_LAST = 2"
definition FRAME_TYPE_MASK :: byte where "FRAME_TYPE_MASK = FRAME_TYPE_FIRST OR FRAME_TYPE_LAST"

definition header_length :: nat where "header_length = 4"

text \<open>The body length announced by the four header bytes in the buffer.\<close>

definition message_length :: "byte list \<Rightarrow> nat" where
  "message_length buffer =
     push_bit 8 (unat (buffer ! 2)) + unat (buffer ! 3)
     + (if buffer ! 1 AND FRAME_TYPE_MASK = FRAME_TYPE_FIRST then 4 else 0)"

definition readMessage ::
    "byte rstream \<Rightarrow> byte list \<Rightarrow> nat \<Rightarrow> (int \<times> byte list \<times> byte rstream) option" where
  "readMessage s buffer buffer_len =
     (case readFully s buffer 0 header_length of
        None \<Rightarrow> None
      | Some (len, buffer, s) \<Rightarrow>
          if len \<le> 0 then Some (len, buffer, s)
          else if header_length + message_length buffer > buffer_len then Some (- 1, buffer, s)
          else (case readFully s buffer header_length (message_length buffer) of
                  None \<Rightarrow> None
                | Some (len, buffer', s) \<Rightarrow>
                    if len \<le> 0 then Some (len, buffer', s)
                    else Some (int (header_length + message_length buffer), buffer', s)))"

text \<open>
  The frame at the head of a byte sequence, as the protocol has it: four bytes of header, of
  which the second holds the flags and the last two the length, four more bytes of header in the
  first of several fragments (flags 01), and the body; present when all of it has arrived, the
  body is not empty and the frame fits the proxy's buffer.
\<close>

definition BUFFER_LEN :: nat where "BUFFER_LEN = 16384"

definition frame_length :: "byte list \<Rightarrow> nat" where
  "frame_length bs = 4 + 256 * unat (bs ! 2) + unat (bs ! 3) + (if unat (bs ! 1) mod 4 = 1 then 4 else 0)"

definition whole_frame :: "nat \<Rightarrow> byte list \<Rightarrow> bool" where
  "whole_frame cap bs \<longleftrightarrow> 4 \<le> length bs \<and> 4 < frame_length bs \<and> frame_length bs \<le> cap
     \<and> frame_length bs \<le> length bs"

text \<open>The code's bit operations compute these lengths.\<close>

lemma first_fragment_flags: "b AND FRAME_TYPE_MASK = FRAME_TYPE_FIRST \<longleftrightarrow> unat b mod 4 = 1"
proof -
  have "FRAME_TYPE_MASK = mask 2"
    by (simp add: FRAME_TYPE_MASK_def FRAME_TYPE_FIRST_def FRAME_TYPE_LAST_def mask_eq_exp_minus_1)
  then have "b AND FRAME_TYPE_MASK = take_bit 2 b" by (simp add: take_bit_eq_mask)
  moreover have "take_bit 2 b = 1 \<longleftrightarrow> unat (take_bit 2 b) = 1"
    by (metis unat_1 word_unat_eq_iff)
  moreover have "unat (take_bit 2 b) = unat b mod 4"
    by (simp only: unsigned_take_bit_eq take_bit_eq_mod [of 2 "unat b"]) simp
  ultimately show ?thesis by (simp only: FRAME_TYPE_FIRST_def)
qed

lemma frame_length_eq: "frame_length bs = header_length + message_length bs"
  by (simp add: frame_length_def header_length_def message_length_def first_fragment_flags push_bit_eq_mult)

lemma whole_frame_iff:
  "whole_frame cap bs \<longleftrightarrow> header_length \<le> length bs \<and> 0 < message_length bs
     \<and> header_length + message_length bs \<le> cap
     \<and> header_length + message_length bs \<le> length bs"
  by (auto simp: whole_frame_def frame_length_eq header_length_def)

lemma message_length_bound: "message_length bs \<le> 65539"
proof -
  have "push_bit 8 (unat (bs ! 2)) + unat (bs ! 3) \<le> 65535"
    using unat_byte_bound [of "bs ! 2"] unat_byte_bound [of "bs ! 3"]
    by (simp add: push_bit_eq_mult del: unat_byte_bound)
  then show ?thesis by (simp add: message_length_def)
qed

lemma message_length_take: "4 \<le> n \<Longrightarrow> message_length (take n bs @ xs) = message_length bs"
  if "4 \<le> length bs" for bs xs
  using that by (simp add: message_length_def nth_append)

text \<open>A whole frame is returned as one message, however the stream was cut up.\<close>

lemma readMessage_whole:
  assumes "whole_frame cap (avail s)" "length buf = cap"
  defines "n \<equiv> header_length + message_length (avail s)"
  shows "\<exists>s'. readMessage s buf cap = Some (int n, take n (avail s) @ drop n buf, s')
    \<and> avail s' = drop n (avail s) \<and> rsize s' + n \<le> rsize s"
proof -
  let ?m = "message_length (avail s)" and ?b = "take 4 (avail s) @ drop 4 buf"
  from assms have le: "4 + ?m \<le> length buf" "4 + ?m \<le> length (avail s)" and m0: "0 < ?m"
    by (auto simp: whole_frame_iff header_length_def)
  from tcp_reader.header_then_body [OF le] obtain s1 s2 where
    1: "readFully s buf 0 4 = Some (int 4, ?b, s1)"
    and 2: "readFully s1 ?b 4 ?m =
        Some (int ?m, take (4 + ?m) (avail s) @ drop (4 + ?m) buf, s2)"
    and 3: "avail s2 = drop (4 + ?m) (avail s)" "rsize s2 + 4 + ?m \<le> rsize s"
    by blast
  have "message_length ?b = ?m" using le by (simp add: message_length_take)
  with 1 2 3 le m0 assms(2) show ?thesis
    by (simp add: readMessage_def n_def header_length_def add.assoc)
qed

text \<open>Anything else ends the forwarding: the result is 0 or an error.\<close>

lemma readMessage_not_whole:
  assumes "\<not> whole_frame cap (avail s)" "length buf = cap" "4 \<le> cap"
  shows "\<exists>k buf' s'. readMessage s buf cap = Some (k, buf', s') \<and> k \<le> 0 \<and> length buf' = cap"
proof (cases "4 \<le> length (avail s)")
  case False
  then show ?thesis using readFully_short [of 0 4 buf s] assms
    by (auto simp: readMessage_def header_length_def)
next
  case True
  let ?m = "message_length (avail s)" and ?b = "take 4 (avail s) @ drop 4 buf"
  obtain s1 where 1: "readFully s buf 0 4 = Some (4, ?b, s1)" "avail s1 = drop 4 (avail s)"
    using readFully_full [of 0 4 buf s] True assms by auto
  have mb: "message_length ?b = ?m" using True by (simp add: message_length_take)
  have lb: "length ?b = cap" using True assms by simp
  show ?thesis
  proof (cases "4 + ?m > cap")
    case True
    with 1 mb lb show ?thesis by (simp add: readMessage_def header_length_def)
  next
    case False
    show ?thesis
    proof (cases "?m = 0")
      case True
      then show ?thesis using 1 mb lb assms readFully_full [of 4 0 ?b s1]
        by (auto simp: readMessage_def header_length_def)
    next
      case m0: False
      with assms False \<open>4 \<le> length (avail s)\<close> have "length (avail s1) < ?m"
        by (auto simp: whole_frame_iff header_length_def 1(2))
      moreover have "4 + ?m \<le> length ?b" using False lb by simp
      ultimately obtain k buf' s' where "readFully s1 ?b 4 ?m = Some (k, buf', s')" "k \<le> 0"
        "length buf' = length ?b"
        using readFully_short by blast
      with 1 mb lb False show ?thesis by (simp add: readMessage_def header_length_def)
    qed
  qed
qed

section \<open>forward\<close>

datatype ProxyDirection = TCP_to_USB | USB_to_TCP

text \<open>
  One forwarding thread.  The loads of the atomic should_exit flag, which the other thread may
  set at any time, read successive entries of the schedule exits (False when it is used up), so
  a property for every schedule is a property for every interleaving.
\<close>

record fstate =
  rd_s :: "byte rstream"
  wr_s :: "byte sink"
  buffer :: "byte list"
  log_communication :: bool
  exits :: "bool list"

fun load :: "bool list \<Rightarrow> bool \<times> bool list" where
  "load [] = (False, [])"
| "load (b # bs) = (b, bs)"

definition fwd_read ::
    "ProxyDirection \<Rightarrow> byte rstream \<Rightarrow> byte list \<Rightarrow> (int \<times> byte list \<times> byte rstream) option" where
  "fwd_read dir s buf =
     (case dir of
        TCP_to_USB \<Rightarrow> readMessage s buf BUFFER_LEN
      | USB_to_TCP \<Rightarrow> (case sys_read BUFFER_LEN s of (len, bs, s') \<Rightarrow>
          map_option (\<lambda>buf'. (len, buf', s')) (put_bytes 0 bs buf)))"

lemma readFully_loop_consumes:
  assumes "readFully_loop nb s buf off r = Some (k, buf', s')" "0 < k"
  shows "rsize s' + r \<le> rsize s"
  using assms
proof (induction nb s buf off r rule: readFully_loop.induct)
  case (1 nb s buf off r)
  show ?case
  proof (cases "r = 0")
    case True
    with "1.prems" show ?thesis by (simp add: readFully_loop.simps [of nb s buf off])
  next
    case False
    obtain len bs s1 where rd: "sys_read r s = (len, bs, s1)" by (metis prod_cases3)
    with False "1.prems" obtain b1 where put: "put_bytes off bs buf = Some b1"
      by (auto simp: readFully_loop.simps [of nb s buf off] split: option.splits)
    from False "1.prems" rd put have pos: "\<not> len \<le> 0"
      by (auto simp: readFully_loop.simps [of nb s buf off] split: if_splits)
    from False "1.prems"(1) rd put pos
    have "readFully_loop nb s1 b1 (off + nat len) (r - nat len) = Some (k, buf', s')"
      by (simp add: readFully_loop.simps [of nb s buf off])
    from "1.IH" [OF False rd [symmetric] refl put pos this "1.prems"(2)]
    have "rsize s' + (r - nat len) \<le> rsize s1" .
    moreover have "rsize s1 + length bs \<le> rsize s" "len = int (length bs)" "length bs \<le> r"
      using sys_read_rsize [OF rd] sys_read_avail [OF rd] pos by auto
    ultimately show ?thesis by simp
  qed
qed

lemma readMessage_consumes:
  assumes "readMessage s buf cap = Some (k, buf', s')" "0 < k"
  shows "rsize s' < rsize s"
proof -
  from assms obtain k1 b1 s1 k2 b2 where 1: "readFully s buf 0 4 = Some (k1, b1, s1)" "0 < k1"
    and 2: "readFully s1 b1 4 (message_length b1) = Some (k2, b2, s')" "0 < k2"
    by (auto simp: readMessage_def header_length_def split: option.splits if_splits)
  from readFully_loop_consumes [OF 1 [unfolded readFully_def]]
    readFully_loop_consumes [OF 2 [unfolded readFully_def]]
  show ?thesis by simp
qed

lemma fwd_read_consumes:
  assumes "fwd_read dir s buf = Some (k, buf', s')" "0 < k"
  shows "rsize s' < rsize s"
proof (cases dir)
  case TCP_to_USB
  with assms show ?thesis by (auto simp: fwd_read_def intro: readMessage_consumes)
next
  case USB_to_TCP
  with assms obtain bs where rd: "sys_read BUFFER_LEN s = (k, bs, s')"
    by (auto simp: fwd_read_def split: prod.splits)
  from sys_read_rsize [OF this assms(2)] sys_read_avail [OF this assms(2)] show ?thesis
    by (cases bs) auto
qed

text \<open>
  One round of the loop: the flag is loaded at its head, after the read and after the write.
  True in the result says that the loop goes round again, False that it is left.
\<close>

definition forward_write :: "int \<Rightarrow> fstate \<Rightarrow> bool \<times> fstate" where
  "forward_write len st =
     (case sys_write (take (nat len) (buffer st)) (wr_s st) of (wlen, w) \<Rightarrow>
       let st = st\<lparr>wr_s := w, log_communication := log_communication st \<or> wlen \<le> 0\<rparr>
       in if wlen < 0 then (False, st)
          else (case load (exits st) of (e, ex) \<Rightarrow> (\<not> e, st\<lparr>exits := ex\<rparr>)))"

definition forward_iter :: "ProxyDirection \<Rightarrow> fstate \<Rightarrow> (bool \<times> fstate) option" where
  "forward_iter dir st =
     (case load (exits st) of (e, ex) \<Rightarrow>
       if e then Some (False, st\<lparr>exits := ex\<rparr>)
       else (case fwd_read dir (rd_s st) (buffer st) of
         None \<Rightarrow> None
       | Some (len, buf, s) \<Rightarrow>
          (let st = st\<lparr>rd_s := s, buffer := buf, exits := ex,
                      log_communication := log_communication st \<or> len \<le> 0\<rparr>
           in if len < 0 then Some (False, st)
              else if len = 0 then Some (False, st)
              else (case load (exits st) of (e, ex) \<Rightarrow>
                if e then Some (False, st\<lparr>exits := ex\<rparr>)
                else Some (forward_write len (st\<lparr>exits := ex\<rparr>))))))"

lemma forward_write_rd:
  "forward_write len st = (go, st') \<Longrightarrow> rd_s st' = rd_s st \<and> buffer st' = buffer st"
  by (auto simp: forward_write_def Let_def split: prod.splits if_splits)

lemma forward_iter_consumes:
  assumes "forward_iter dir st = Some (True, st')"
  shows "rsize (rd_s st') < rsize (rd_s st)"
proof -
  from assms obtain k buf s ex where
    rd: "fwd_read dir (rd_s st) (buffer st) = Some (k, buf, s)" "0 < k"
    and w: "forward_write k (st\<lparr>rd_s := s, buffer := buf,
        log_communication := log_communication st \<or> k \<le> 0, exits := ex\<rparr>) = (True, st')"
    by (auto simp: forward_iter_def Let_def split: prod.splits if_splits option.splits)
  from forward_write_rd [OF w] fwd_read_consumes [OF rd] show ?thesis by simp
qed

function forward_loop :: "ProxyDirection \<Rightarrow> fstate \<Rightarrow> fstate option" where
  "forward_loop dir st =
     (case forward_iter dir st of
        None \<Rightarrow> None
      | Some (go, st') \<Rightarrow> if go then forward_loop dir st' else Some st')"
  by pat_completeness auto
termination
  by (relation "measure (\<lambda>(dir, st). rsize (rd_s st))") (auto intro: forward_iter_consumes)

declare forward_loop.simps [simp del]

section \<open>What a forwarding thread delivers\<close>

text \<open>The frames of a byte sequence, up to the first incomplete, empty or oversized one.\<close>

function frames :: "byte list \<Rightarrow> byte list list" where
  "frames bs =
     (if whole_frame BUFFER_LEN bs then take (frame_length bs) bs # frames (drop (frame_length bs) bs)
      else [])"
  by pat_completeness auto
termination
  by (relation "measure length") (auto simp: whole_frame_def)

declare frames.simps [simp del]

lemma frames_unfold:
  "frames bs =
     (if whole_frame BUFFER_LEN bs
      then take (header_length + message_length bs) bs
           # frames (drop (header_length + message_length bs) bs)
      else [])"
  by (simp add: frames.simps [of bs] frame_length_eq)

lemmas frames_induct = frames.induct [unfolded frame_length_eq, case_names 1]

lemma concat_frames: "\<exists>rest. bs = concat (frames bs) @ rest \<and> \<not> whole_frame BUFFER_LEN rest"
proof (induction bs rule: frames_induct)
  case (1 bs)
  show ?case
  proof (cases "whole_frame BUFFER_LEN bs")
    case True
    let ?n = "header_length + message_length bs"
    from "1.IH" [OF True] obtain rest
      where "drop ?n bs = concat (frames (drop ?n bs)) @ rest" "\<not> whole_frame BUFFER_LEN rest"
      by blast
    then have "bs = concat (frames bs) @ rest"
      using True append_take_drop_id [of ?n bs] by (simp add: frames_unfold [of bs])
    with \<open>\<not> whole_frame BUFFER_LEN rest\<close> show ?thesis by blast
  next
    case False
    then show ?thesis by (auto simp: frames_unfold [of bs])
  qed
qed

lemma message_length_append: "4 \<le> length bs \<Longrightarrow> message_length (bs @ xs) = message_length bs"
  by (simp add: message_length_def nth_append)

text \<open>One round towards USB: it stops without writing, or it hands over the next frame.\<close>

lemma forward_iter_TCP_stop:
  assumes "length (buffer st) = BUFFER_LEN" "\<not> whole_frame BUFFER_LEN (avail (rd_s st))"
  shows "\<exists>st'. forward_iter TCP_to_USB st = Some (False, st') \<and> wr_s st' = wr_s st"
proof -
  obtain k buf s where "readMessage (rd_s st) (buffer st) BUFFER_LEN = Some (k, buf, s)" "k \<le> 0"
    using readMessage_not_whole [OF assms(2,1)] by (auto simp: BUFFER_LEN_def)
  then show ?thesis
    by (auto simp: forward_iter_def fwd_read_def Let_def split: prod.split)
qed

lemma load_nil: "load ex = (True, ex') \<Longrightarrow> ex \<noteq> []"
  by (cases ex) auto

lemma forward_writeE:
  assumes "forward_write len st = (go, st')"
  obtains k where "sys_write (take (nat len) (buffer st)) (wr_s st) = (k, wr_s st')"
    "rd_s st' = rd_s st" "buffer st' = buffer st" "k < 0 \<Longrightarrow> \<not> go"
    "exits st = [] \<Longrightarrow> exits st' = [] \<and> (0 \<le> k \<longrightarrow> go)"
proof -
  obtain k w where w: "sys_write (take (nat len) (buffer st)) (wr_s st) = (k, w)" by fastforce
  obtain e ex where e: "load (exits st) = (e, ex)" by fastforce
  define st1 where "st1 = st\<lparr>wr_s := w, log_communication := log_communication st \<or> k \<le> 0\<rparr>"
  have "forward_write len st = (if k < 0 then (False, st1) else (\<not> e, st1\<lparr>exits := ex\<rparr>))"
    by (simp only: forward_write_def w prod.case Let_def st1_def) (simp add: e)
  with assms have go: "go \<longleftrightarrow> \<not> k < 0 \<and> \<not> e"
    and st': "st' = (if k < 0 then st1 else st1\<lparr>exits := ex\<rparr>)"
    by (auto split: if_splits)
  show ?thesis
  proof (rule that [of k])
    show "sys_write (take (nat len) (buffer st)) (wr_s st) = (k, wr_s st')"
      "rd_s st' = rd_s st" "buffer st' = buffer st"
      using w by (simp_all add: st' st1_def)
    show "\<not> go" if "k < 0" using that go by simp
    show "exits st' = [] \<and> (0 \<le> k \<longrightarrow> go)" if "exits st = []"
      using that go st' e by (simp add: st1_def)
  qed
qed

text \<open>
  A round that reads len bytes into buf: it is left at a raised flag, or it writes the bytes.
\<close>

lemma forward_iter_got:
  assumes "fwd_read dir (rd_s st) (buffer st) = Some (len, buf, s)" "0 < len"
    "forward_iter dir st = Some (go, st')"
  shows "\<not> go \<and> wr_s st' = wr_s st \<and> exits st \<noteq> []
    \<or> (\<exists>k. sys_write (take (nat len) buf) (wr_s st) = (k, wr_s st')
         \<and> rd_s st' = s \<and> buffer st' = buf \<and> (k < 0 \<longrightarrow> \<not> go)
         \<and> (exits st = [] \<longrightarrow> exits st' = [] \<and> (0 \<le> k \<longrightarrow> go)))"
proof -
  obtain e1 ex1 where l1: "load (exits st) = (e1, ex1)" by fastforce
  obtain e2 ex2 where l2: "load ex1 = (e2, ex2)" by fastforce
  show ?thesis
  proof (cases e1)
    case True
    with assms l1 load_nil [of "exits st" ex1] show ?thesis by (auto simp: forward_iter_def)
  next
    case e1: False
    show ?thesis
    proof (cases e2)
      case True
      moreover have "exits st \<noteq> []" using l1 l2 True by auto
      ultimately show ?thesis using assms e1 l1 l2 by (auto simp: forward_iter_def Let_def)
    next
      case False
      let ?st = "st\<lparr>rd_s := s, buffer := buf, exits := ex2,
                    log_communication := log_communication st \<or> len \<le> 0\<rparr>"
      from assms e1 False l1 l2 have "forward_write len ?st = (go, st')"
        by (auto simp: forward_iter_def Let_def)
      then obtain k where "sys_write (take (nat len) buf) (wr_s st) = (k, wr_s st')"
        "rd_s st' = s" "buffer st' = buf" "k < 0 \<Longrightarrow> \<not> go"
        "ex2 = [] \<Longrightarrow> exits st' = [] \<and> (0 \<le> k \<longrightarrow> go)"
        by (elim forward_writeE) auto
      moreover have "exits st = [] \<Longrightarrow> ex2 = []" using l1 l2 by auto
      ultimately show ?thesis by blast
    qed
  qed
qed

lemma forward_iter_defined:
  "fwd_read dir (rd_s st) (buffer st) = Some r \<Longrightarrow> \<exists>go st'. forward_iter dir st = Some (go, st')"
  by (cases "load (exits st)"; cases r)
     (auto simp: forward_iter_def Let_def split: prod.splits)

lemma forward_iter_TCP_frame:
  assumes "length (buffer st) = BUFFER_LEN" "whole_frame BUFFER_LEN (avail (rd_s st))"
  defines "n \<equiv> header_length + message_length (avail (rd_s st))"
  obtains (exit) st' where "forward_iter TCP_to_USB st = Some (False, st')" "wr_s st' = wr_s st"
      "exits st \<noteq> []"
    | (frame) go st' k where "forward_iter TCP_to_USB st = Some (go, st')"
      "sys_write (take n (avail (rd_s st))) (wr_s st) = (k, wr_s st')"
      "avail (rd_s st') = drop n (avail (rd_s st))" "length (buffer st') = BUFFER_LEN"
      "k < 0 \<Longrightarrow> \<not> go" "exits st = [] \<Longrightarrow> exits st' = [] \<and> (0 \<le> k \<longrightarrow> go)"
proof -
  from readMessage_whole [OF assms(2,1)] obtain s where
    rd: "fwd_read TCP_to_USB (rd_s st) (buffer st) =
         Some (int n, take n (avail (rd_s st)) @ drop n (buffer st), s)"
    and av: "avail s = drop n (avail (rd_s st))"
    unfolding n_def fwd_read_def by auto
  from assms have n: "0 < int n" "n \<le> length (avail (rd_s st))" "n \<le> BUFFER_LEN"
    by (auto simp: whole_frame_iff header_length_def n_def)
  from forward_iter_defined [OF rd] obtain go st' where
    it: "forward_iter TCP_to_USB st = Some (go, st')" by blast
  from forward_iter_got [OF rd n(1) it] show thesis
  proof (elim disjE exE conjE)
    assume "\<not> go" "wr_s st' = wr_s st" "exits st \<noteq> []"
    with it show thesis by (intro exit [of st']) auto
  next
    fix k assume "sys_write (take (nat (int n)) (take n (avail (rd_s st)) @ drop n (buffer st)))
        (wr_s st) = (k, wr_s st')" "rd_s st' = s"
      "buffer st' = take n (avail (rd_s st)) @ drop n (buffer st)" "k < 0 \<longrightarrow> \<not> go"
      "exits st = [] \<longrightarrow> exits st' = [] \<and> (0 \<le> k \<longrightarrow> go)"
    with it av n assms(1) show thesis by (intro frame [of go st' k]) auto
  qed
qed

lemma forward_TCP_to_USB_frames:
  assumes "length (buffer st) = BUFFER_LEN" "exits st = []" "wscript (wr_s st) = []"
  shows "\<exists>st'. forward_loop TCP_to_USB st = Some st'
    \<and> wlog (wr_s st') = wlog (wr_s st) @ frames (avail (rd_s st))"
  using assms
proof (induction "avail (rd_s st)" arbitrary: st rule: frames_induct)
  case 1
  let ?av = "avail (rd_s st)"
  show ?case
  proof (cases "whole_frame BUFFER_LEN ?av")
    case False
    from forward_iter_TCP_stop [OF "1.prems"(1) False] False show ?thesis
      by (auto simp: forward_loop.simps [of _ st] frames_unfold [of ?av])
  next
    case True
    let ?n = "header_length + message_length ?av"
    obtain st1 where it: "forward_iter TCP_to_USB st = Some (True, st1)"
      and st1: "wr_s st1 = (wr_s st)\<lparr>wlog := wlog (wr_s st) @ [take ?n ?av]\<rparr>"
        "avail (rd_s st1) = drop ?n ?av" "length (buffer st1) = BUFFER_LEN" "exits st1 = []"
    proof (rule forward_iter_TCP_frame [OF "1.prems"(1) True], goal_cases)
      case (1 st1)
      with "1.prems"(2) show thesis by blast
    next
      case (2 go st1 k)
      note io = sys_write_reliable [OF "1.prems"(3)]
      have go using 2 io "1.prems"(2) by simp
      with 2 io "1.prems"(2) show thesis by (intro that [of st1]) simp_all
    qed
    from "1.hyps" [OF True st1(2) [symmetric] st1(3,4)] "1.prems"(3) st1(1)
    obtain st' where "forward_loop TCP_to_USB st1 = Some st'"
      "wlog (wr_s st') = wlog (wr_s st) @ [take ?n ?av] @ frames (drop ?n ?av)"
      by (auto simp: st1(2))
    with it True show ?thesis
      by (simp add: forward_loop.simps [of _ st] frames_unfold [of ?av])
  qed
qed

text \<open>
  Under every schedule of the exit flag and every behaviour of the device the loop returns, and
  what it handed over is an initial run of the frames, each cut at most by a short write.
\<close>

lemma forward_TCP_any:
  assumes "length (buffer st) = BUFFER_LEN"
  shows "\<exists>st' ws fs. forward_loop TCP_to_USB st = Some st'
    \<and> wlog (wr_s st') = wlog (wr_s st) @ ws
    \<and> prefix fs (frames (avail (rd_s st))) \<and> list_all2 prefix ws fs"
  using assms
proof (induction "avail (rd_s st)" arbitrary: st rule: frames_induct)
  case 1
  let ?av = "avail (rd_s st)" and ?n = "header_length + message_length (avail (rd_s st))"
  show ?case
  proof (cases "whole_frame BUFFER_LEN ?av")
    case False
    from forward_iter_TCP_stop [OF "1.prems" False] show ?thesis
      by (auto simp: forward_loop.simps [of _ st] intro!: exI [of _ "[]"])
  next
    case True
    show ?thesis
    proof (rule forward_iter_TCP_frame [OF "1.prems" True], goal_cases)
      case (1 st1)
      then show ?case by (auto simp: forward_loop.simps [of _ st] intro!: exI [of _ "[]"])
    next
      case (2 go st1 k)
      note fr = 2
      have fs: "frames ?av = take ?n ?av # frames (drop ?n ?av)"
        using True by (simp add: frames_unfold [of ?av])
      from sys_write_cases [OF fr(2)] consider
          (failed) "k = - 1" "wlog (wr_s st1) = wlog (wr_s st)"
        | (took) j where "0 \<le> k" "wlog (wr_s st1) = wlog (wr_s st) @ [take j (take ?n ?av)]"
        by auto
      then show ?case
      proof cases
        case failed
        with fr(1,5) show ?thesis
          by (auto simp: forward_loop.simps [of _ st] intro!: exI [of _ "[]"])
      next
        case took
        have pre: "prefix (take j (take ?n ?av)) (take ?n ?av)" by (rule take_is_prefix)
        show ?thesis
        proof (cases go)
          case False
          with fr(1) took pre fs show ?thesis
            by (auto simp: forward_loop.simps [of _ st] simp del: take_take
                intro!: exI [of _ "[take j (take ?n ?av)]"] exI [of _ "[take ?n ?av]"])
        next
          case True
          from "1.hyps" [OF \<open>whole_frame BUFFER_LEN ?av\<close> fr(3) [symmetric] fr(4)]
          obtain st' ws gs where "forward_loop TCP_to_USB st1 = Some st'"
            "wlog (wr_s st') = wlog (wr_s st1) @ ws"
            "prefix gs (frames (drop ?n ?av))" "list_all2 prefix ws gs"
            by (auto simp: fr(3))
          with fr(1) took True pre fs show ?thesis
            by (auto simp: forward_loop.simps [of _ st] simp del: take_take
                intro!: exI [of _ "take j (take ?n ?av) # ws"] exI [of _ "take ?n ?av # gs"])
        qed
      qed
    qed
  qed
qed

text \<open>A single short write: the rest of that frame is never sent, the next frame follows it.\<close>

lemma forward_TCP_short_write:
  assumes "length (buffer st) = BUFFER_LEN" "exits st = []" "wscript (wr_s st) = [Accept j]"
    "frames (avail (rd_s st)) = f # fs"
  shows "\<exists>st'. forward_loop TCP_to_USB st = Some st'
    \<and> wlog (wr_s st') = wlog (wr_s st) @ take j f # fs"
proof -
  let ?av = "avail (rd_s st)" and ?n = "header_length + message_length (avail (rd_s st))"
  have wf: "whole_frame BUFFER_LEN ?av" using assms(4) by (auto simp: frames_unfold [of ?av] split: if_splits)
  then have f: "f = take ?n ?av" "fs = frames (drop ?n ?av)"
    using assms(4) by (auto simp: frames_unfold [of ?av])
  show ?thesis
  proof (rule forward_iter_TCP_frame [OF assms(1) wf], goal_cases)
    case (1 st1)
    with assms(2) show ?case by blast
  next
    case (2 go st1 k)
    then have w: "k \<ge> 0" "wr_s st1 = (wr_s st)\<lparr>wscript := [], wlog := wlog (wr_s st) @ [take j f]\<rparr>"
      using assms(3) f by (auto simp: sys_write.simps)
    with 2 assms(2) have "go" "exits st1 = []" by auto
    from forward_TCP_to_USB_frames [OF 2(4) this(2)] w f 2(3)
    obtain st' where "forward_loop TCP_to_USB st1 = Some st'"
      "wlog (wr_s st') = (wlog (wr_s st) @ [take j f]) @ fs" by auto
    with 2(1) \<open>go\<close> show ?thesis by (simp add: forward_loop.simps [of _ st])
  qed
qed

text \<open>Towards TCP the bytes are passed on as they come.\<close>

lemma fwd_read_USB:
  assumes "length buf = BUFFER_LEN" "sys_read BUFFER_LEN s = (len, bs, s')"
  shows "\<exists>buf'. fwd_read USB_to_TCP s buf = Some (len, buf', s') \<and> length buf' = BUFFER_LEN
    \<and> (0 < len \<longrightarrow> take (nat len) buf' = bs)"
proof -
  from sys_read_len [OF assms(2)] have le: "0 + length bs \<le> length buf" using assms(1) by auto
  from put_bytes_defined [OF this] obtain buf' where put: "put_bytes 0 bs buf = Some buf'" by blast
  from put_bytes_take [OF put] put_bytes_length [OF put] assms sys_read_len [OF assms(2)] put
  show ?thesis by (auto simp: fwd_read_def)
qed

lemma forward_USB_any:
  assumes "length (buffer st) = BUFFER_LEN" "wscript (wr_s st) = []"
  shows "\<exists>st' ws. forward_loop USB_to_TCP st = Some st' \<and> wlog (wr_s st') = wlog (wr_s st) @ ws
    \<and> prefix (concat ws) (avail (rd_s st)) \<and> (\<forall>w \<in> set ws. length w \<le> BUFFER_LEN)
    \<and> (exits st = [] \<longrightarrow> concat ws = avail (rd_s st))"
  using assms
proof (induction "rsize (rd_s st)" arbitrary: st rule: less_induct)
  case less
  obtain len bs s' where rd: "sys_read BUFFER_LEN (rd_s st) = (len, bs, s')" by (metis prod_cases3)
  from fwd_read_USB [OF less.prems(1) rd] obtain buf' where
    fr: "fwd_read USB_to_TCP (rd_s st) (buffer st) = Some (len, buf', s')"
    and buf': "length buf' = BUFFER_LEN" "0 < len \<Longrightarrow> take (nat len) buf' = bs" by blast
  from forward_iter_defined [OF fr] obtain go st1 where
    it: "forward_iter USB_to_TCP st = Some (go, st1)" by blast
  show ?case
  proof (cases "0 < len")
    case False
    then have "avail (rd_s st) = []" using sys_read_stop [OF rd] by (simp add: BUFFER_LEN_def)
    moreover have "\<not> go \<and> wr_s st1 = wr_s st" using it fr False
      by (cases "load (exits st)") (auto simp: forward_iter_def Let_def split: if_splits)
    ultimately show ?thesis using it by (auto simp: forward_loop.simps [of _ st])
  next
    case True
    note av = sys_read_avail [OF rd True]
    from forward_iter_got [OF fr True it] show ?thesis
    proof (elim disjE exE conjE)
      assume "\<not> go" "wr_s st1 = wr_s st" "exits st \<noteq> []"
      with it show ?thesis by (auto simp: forward_loop.simps [of _ st] intro!: exI [of _ "[]"])
    next
      fix k assume k: "sys_write (take (nat len) buf') (wr_s st) = (k, wr_s st1)"
        "rd_s st1 = s'" "buffer st1 = buf'" "k < 0 \<longrightarrow> \<not> go"
        "exits st = [] \<longrightarrow> exits st1 = [] \<and> (0 \<le> k \<longrightarrow> go)"
      then have w: "k = len" "wr_s st1 = (wr_s st)\<lparr>wlog := wlog (wr_s st) @ [bs]\<rparr>"
        using sys_write_reliable [OF less.prems(2), of bs] buf'(2) True av by auto
      show ?thesis
      proof (cases go)
        case False
        with it w av k(5) True show ?thesis
          by (auto simp: forward_loop.simps [of _ st] intro!: exI [of _ "[bs]"])
      next
        case go: True
        have "rsize (rd_s st1) < rsize (rd_s st)" using fwd_read_consumes [OF fr True] k(2) by simp
        from less.hyps [OF this] k(2,3) buf'(1) w(2) less.prems(2)
        obtain st' ws where "forward_loop USB_to_TCP st1 = Some st'"
          "wlog (wr_s st') = wlog (wr_s st1) @ ws" "prefix (concat ws) (avail s')"
          "\<forall>w \<in> set ws. length w \<le> BUFFER_LEN" "exits st1 = [] \<longrightarrow> concat ws = avail s'"
          by auto
        with it go w av k(5) show ?thesis
          by (auto simp: forward_loop.simps [of _ st] intro!: exI [of _ "bs # ws"])
      qed
    qed
  qed
qed

section \<open>The whole of forward\<close>

text \<open>
  The two descriptors of the proxy (m_tcp_fd, m_usb_fd), each with its incoming and outgoing
  side, and the control state the two threads share: the should_exit flag, which of the two
  thread objects exist, and the signals pthread_kill has sent so far.
\<close>

record endpoints =
  tcp_in :: "byte rstream"
  tcp_out :: "byte sink"
  usb_in :: "byte rstream"
  usb_out :: "byte sink"

record proxy_ctl =
  should_exit :: bool
  m_usb_tcp_thread :: bool
  m_tcp_usb_thread :: bool
  m_log_communication :: bool
  sigusr1 :: "ProxyDirection list"

definition stopForwarding :: "proxy_ctl \<Rightarrow> proxy_ctl" where
  "stopForwarding c =
     c\<lparr>should_exit := True,
       sigusr1 := sigusr1 c @ (if m_usb_tcp_thread c then [USB_to_TCP] else [])
                            @ (if m_tcp_usb_thread c then [TCP_to_USB] else [])\<rparr>"

fun read_end :: "ProxyDirection \<Rightarrow> endpoints \<Rightarrow> byte rstream" where
  "read_end TCP_to_USB ep = tcp_in ep"
| "read_end USB_to_TCP ep = usb_in ep"

fun write_end :: "ProxyDirection \<Rightarrow> endpoints \<Rightarrow> byte sink" where
  "write_end TCP_to_USB ep = usb_out ep"
| "write_end USB_to_TCP ep = tcp_out ep"

fun set_ends :: "ProxyDirection \<Rightarrow> byte rstream \<Rightarrow> byte sink \<Rightarrow> endpoints \<Rightarrow> endpoints" where
  "set_ends TCP_to_USB r w ep = ep\<lparr>tcp_in := r, usb_out := w\<rparr>"
| "set_ends USB_to_TCP r w ep = ep\<lparr>usb_in := r, tcp_out := w\<rparr>"

text \<open>buf is whatever the uninitialised stack array holds, ex the schedule of the exit flag.\<close>

definition forward ::
    "ProxyDirection \<Rightarrow> byte list \<Rightarrow> bool list \<Rightarrow> endpoints \<Rightarrow> proxy_ctl \<Rightarrow> (endpoints \<times> proxy_ctl) option" where
  "forward direction buf ex ep c =
     (case forward_loop direction
             \<lparr>rd_s = read_end direction ep, wr_s = write_end direction ep, buffer = buf,
              log_communication = m_log_communication c, exits = ex\<rparr> of
        None \<Rightarrow> None
      | Some st \<Rightarrow> Some (set_ends direction (rd_s st) (wr_s st) ep,
                        stopForwarding (c\<lparr>m_log_communication := log_communication st\<rparr>)))"

lemma forward_result:
  assumes "forward_loop dir \<lparr>rd_s = read_end dir ep, wr_s = write_end dir ep, buffer = buf,
      log_communication = m_log_communication c, exits = ex\<rparr> = Some st"
  shows "\<exists>c'. forward dir buf ex ep c = Some (set_ends dir (rd_s st) (wr_s st) ep, c')
    \<and> should_exit c' \<and> set (sigusr1 c') = set (sigusr1 c)
        \<union> (if m_usb_tcp_thread c then {USB_to_TCP} else {})
        \<union> (if m_tcp_usb_thread c then {TCP_to_USB} else {})"
  using assms by (auto simp: forward_def stopForwarding_def)

text \<open>
  C3. Towards the car, the phone's byte stream is re-framed: while the device takes every write
  and nobody asks the thread to stop, each write to the accessory device is exactly one protocol
  frame, in order, however TCP cut the stream into segments; the loop ends at the first point
  where no whole frame can be read, and the TCP side is not written.
\<close>

theorem forward_reframes:
  assumes "length buf = BUFFER_LEN" "wscript (usb_out ep) = []"
  shows "\<exists>ep' c'. forward TCP_to_USB buf [] ep c = Some (ep', c')
    \<and> wlog (usb_out ep') = wlog (usb_out ep) @ frames (avail (tcp_in ep))
    \<and> tcp_out ep' = tcp_out ep \<and> usb_in ep' = usb_in ep \<and> should_exit c'"
proof -
  obtain st where "forward_loop TCP_to_USB \<lparr>rd_s = read_end TCP_to_USB ep,
      wr_s = write_end TCP_to_USB ep, buffer = buf,
      log_communication = m_log_communication c, exits = []\<rparr> = Some st"
    "wlog (wr_s st) = wlog (usb_out ep) @ frames (avail (tcp_in ep))"
    using forward_TCP_to_USB_frames [of "\<lparr>rd_s = tcp_in ep, wr_s = usb_out ep, buffer = buf,
      log_communication = m_log_communication c, exits = []\<rparr>"] assms by auto
  with forward_result [OF this(1)] show ?thesis by auto
qed

text \<open>
  A concrete stream for the witnesses: two frames of one and two body bytes, cut in the middle
  of the first header, and a buffer of zeros.
\<close>

definition demo_stream :: "byte rstream" where
  "demo_stream = [Data [0, 3], Data [0, 1, 7, 0, 3, 0], Data [2, 8, 9]]"

definition demo_ends :: endpoints where
  "demo_ends = \<lparr>tcp_in = demo_stream, tcp_out = fresh_sink, usb_in = [Data [1, 2, 3]],
                usb_out = fresh_sink\<rparr>"

definition demo_ctl :: proxy_ctl where
  "demo_ctl = \<lparr>should_exit = False, m_usb_tcp_thread = True, m_tcp_usb_thread = True,
               m_log_communication = False, sigusr1 = []\<rparr>"

lemma demo_frames: "frames (avail demo_stream) = [[0, 3, 0, 1, 7], [0, 3, 0, 2, 8, 9]]"
  by (simp add: demo_stream_def frames.simps whole_frame_def frame_length_def BUFFER_LEN_def)

theorem forward_reframes_witness:
  "\<exists>ep' c'. forward TCP_to_USB (replicate BUFFER_LEN 0) [] demo_ends demo_ctl = Some (ep', c')
    \<and> wlog (usb_out ep') = [[0, 3, 0, 1, 7], [0, 3, 0, 2, 8, 9]]"
  using forward_reframes [of "replicate BUFFER_LEN 0" demo_ends demo_ctl] demo_frames
  by (auto simp: demo_ends_def)

text \<open>
  What a loop does that writes the given messages one after the other and stops at the first
  write that fails: the sink afterwards, and whether a write failed.
\<close>

fun hand_over :: "byte list list \<Rightarrow> byte sink \<Rightarrow> byte sink \<times> bool" where
  "hand_over [] w = (w, False)"
| "hand_over (m # ms) w = (case sys_write m w of (k, w') \<Rightarrow>
     if k < 0 then (w', True) else hand_over ms w')"

lemma load_cases: "load ex = (e, ex') \<Longrightarrow> (e \<longrightarrow> True \<in> set ex) \<and> set ex' \<subseteq> set ex"
  by (cases ex) auto

text \<open>Why a round is left, and what it writes.\<close>

lemma forward_iter_reason:
  assumes "fwd_read dir (rd_s st) (buffer st) = Some (len, buf, s)" "0 < len"
    "forward_iter dir st = Some (go, st')"
  shows "set (exits st') \<subseteq> set (exits st)
    \<and> (wr_s st' = wr_s st \<and> \<not> go \<and> True \<in> set (exits st)
     \<or> (\<exists>k. sys_write (take (nat len) buf) (wr_s st) = (k, wr_s st') \<and> rd_s st' = s \<and> buffer st' = buf
          \<and> (go \<longrightarrow> 0 \<le> k) \<and> (\<not> go \<longrightarrow> k < 0 \<or> True \<in> set (exits st))))"
proof -
  obtain e1 ex1 where l1: "load (exits st) = (e1, ex1)" by fastforce
  obtain e2 ex2 where l2: "load ex1 = (e2, ex2)" by fastforce
  obtain e3 ex3 where l3: "load ex2 = (e3, ex3)" by fastforce
  obtain k w where w: "sys_write (take (nat len) buf) (wr_s st) = (k, w)" by fastforce
  have "e1 \<longrightarrow> True \<in> set (exits st)" "e2 \<longrightarrow> True \<in> set (exits st)" "e3 \<longrightarrow> True \<in> set (exits st)"
    and sub: "set ex1 \<subseteq> set (exits st)" "set ex2 \<subseteq> set (exits st)" "set ex3 \<subseteq> set (exits st)"
    using load_cases [OF l1] load_cases [OF l2] load_cases [OF l3] by auto
  with assms l1 l2 l3 w show ?thesis
    by (cases e1; cases e2; cases "k < 0"; cases e3) (auto simp: forward_iter_def forward_write_def Let_def)
qed

lemma forward_TCP_hand_over:
  assumes "length (buffer st) = BUFFER_LEN"
  shows "\<exists>st' fs failed. forward_loop TCP_to_USB st = Some st'
    \<and> prefix fs (frames (avail (rd_s st))) \<and> hand_over fs (wr_s st) = (wr_s st', failed)
    \<and> (fs = frames (avail (rd_s st)) \<or> failed \<or> True \<in> set (exits st))"
  using assms
proof (induction "avail (rd_s st)" arbitrary: st rule: frames_induct)
  case 1
  let ?av = "avail (rd_s st)"
  define n where "n = header_length + message_length (avail (rd_s st))"
  show ?case
  proof (cases "whole_frame BUFFER_LEN ?av")
    case False
    from forward_iter_TCP_stop [OF "1.prems" False] False show ?thesis
      by (auto simp: forward_loop.simps [of _ st] frames_unfold [of ?av])
  next
    case True
    from readMessage_whole [OF True "1.prems"] obtain s where
      rd: "fwd_read TCP_to_USB (rd_s st) (buffer st) = Some (int n, take n ?av @ drop n (buffer st), s)"
      and av: "avail s = drop n ?av" unfolding fwd_read_def n_def by auto
    have n: "0 < int n" "n \<le> length ?av" "n \<le> length (buffer st)"
      using True "1.prems" by (auto simp: whole_frame_iff header_length_def n_def)
    have fs: "frames ?av = take n ?av # frames (drop n ?av)" using True by (simp add: frames_unfold [of ?av] n_def)
    from forward_iter_defined [OF rd] obtain go st1 where it: "forward_iter TCP_to_USB st = Some (go, st1)" by blast
    from forward_iter_reason [OF rd n(1) it] consider
        (exit) "wr_s st1 = wr_s st" "\<not> go" "True \<in> set (exits st)"
      | (wrote) k where "sys_write (take n ?av) (wr_s st) = (k, wr_s st1)" "rd_s st1 = s"
          "buffer st1 = take n ?av @ drop n (buffer st)" "go \<longrightarrow> 0 \<le> k"
          "\<not> go \<longrightarrow> k < 0 \<or> True \<in> set (exits st)" "set (exits st1) \<subseteq> set (exits st)"
      using n by auto
    then show ?thesis
    proof cases
      case exit
      with it show ?thesis
        by (intro exI [of _ st1] exI [of _ "[]"] exI [of _ False]) (simp add: forward_loop.simps [of _ st])
    next
      case (wrote k)
      show ?thesis
      proof (cases go)
        case False
        with it wrote fs show ?thesis
          by (intro exI [of _ st1] exI [of _ "[take n ?av]"] exI [of _ "k < 0"])
             (auto simp: forward_loop.simps [of _ st])
      next
        case go: True
        have b1: "length (buffer st1) = BUFFER_LEN" using wrote(3) n "1.prems" by simp
        have av1: "drop n ?av = avail (rd_s st1)" using wrote(2) av by simp
        from "1.hyps" [OF True av1 [unfolded n_def] b1] obtain st' gs failed where
          "forward_loop TCP_to_USB st1 = Some st'" "prefix gs (frames (avail (rd_s st1)))"
          "hand_over gs (wr_s st1) = (wr_s st', failed)"
          "gs = frames (avail (rd_s st1)) \<or> failed \<or> True \<in> set (exits st1)" by blast
        with it go wrote fs av1 show ?thesis
          by (intro exI [of _ st'] exI [of _ "take n ?av # gs"] exI [of _ failed])
             (auto simp: forward_loop.simps [of _ st])
      qed
    qed
  qed
qed

text \<open>
  C5. Under every schedule of the exit flag (that is, whatever the other thread does) and
  whatever the accessory device does with the writes, forwarding towards the car returns, never
  stores outside its buffer, raises the exit flag and interrupts every forwarding thread that
  exists.  What it did to the accessory device is to write an initial run of the frames of the
  stream, in order, each whole frame in one write, whatever the write took of it, up to the first
  write that failed; and it stopped before the last frame only for a failed write or a raised flag.
\<close>

theorem forward_in_order:
  assumes "length buf = BUFFER_LEN"
  shows "\<exists>ep' c' fs failed. forward TCP_to_USB buf ex ep c = Some (ep', c')
    \<and> prefix fs (frames (avail (tcp_in ep)))
    \<and> hand_over fs (usb_out ep) = (usb_out ep', failed)
    \<and> (fs = frames (avail (tcp_in ep)) \<or> failed \<or> True \<in> set ex)
    \<and> should_exit c' \<and> (m_usb_tcp_thread c \<longrightarrow> USB_to_TCP \<in> set (sigusr1 c'))
    \<and> (m_tcp_usb_thread c \<longrightarrow> TCP_to_USB \<in> set (sigusr1 c'))"
proof -
  obtain st fs failed where st: "forward_loop TCP_to_USB \<lparr>rd_s = read_end TCP_to_USB ep,
      wr_s = write_end TCP_to_USB ep, buffer = buf,
      log_communication = m_log_communication c, exits = ex\<rparr> = Some st"
    "prefix fs (frames (avail (tcp_in ep)))" "hand_over fs (usb_out ep) = (wr_s st, failed)"
    "fs = frames (avail (tcp_in ep)) \<or> failed \<or> True \<in> set ex"
    using forward_TCP_hand_over [of "\<lparr>rd_s = tcp_in ep, wr_s = usb_out ep, buffer = buf,
      log_communication = m_log_communication c, exits = ex\<rparr>"] assms by auto
  from forward_result [OF st(1)] obtain c' where
    "forward TCP_to_USB buf ex ep c = Some (set_ends TCP_to_USB (rd_s st) (wr_s st) ep, c')"
    "should_exit c'" "m_usb_tcp_thread c \<longrightarrow> USB_to_TCP \<in> set (sigusr1 c')"
    "m_tcp_usb_thread c \<longrightarrow> TCP_to_USB \<in> set (sigusr1 c')" by auto
  with st show ?thesis by auto
qed

theorem forward_in_order_witness:
  "\<exists>ep' c'. forward TCP_to_USB (replicate BUFFER_LEN 0) []
        (demo_ends\<lparr>usb_out := \<lparr>wscript = [Accept 2, WFail], wlog = []\<rparr>\<rparr>) demo_ctl = Some (ep', c')
    \<and> wlog (usb_out ep') = [[0, 3]] \<and> USB_to_TCP \<in> set (sigusr1 c')"
proof -
  let ?ep = "demo_ends\<lparr>usb_out := \<lparr>wscript = [Accept 2, WFail], wlog = []\<rparr>\<rparr>"
  obtain ep' c' fs failed where f: "forward TCP_to_USB (replicate BUFFER_LEN 0) [] ?ep demo_ctl = Some (ep', c')"
    "prefix fs [[0, 3, 0, 1, 7], [0, 3, 0, 2, 8, 9]]" "hand_over fs (usb_out ?ep) = (usb_out ep', failed)"
    "fs = [[0, 3, 0, 1, 7], [0, 3, 0, 2, 8, 9]] \<or> failed" "USB_to_TCP \<in> set (sigusr1 c')"
    using forward_in_order [of "replicate BUFFER_LEN 0" "[]" ?ep demo_ctl] demo_frames
    by (auto simp: demo_ends_def demo_ctl_def)
  from f(2) consider "fs = []" | "fs = [[0, 3, 0, 1, 7]]" | "fs = [[0, 3, 0, 1, 7], [0, 3, 0, 2, 8, 9]]"
    by (auto simp: prefix_Cons)
  then have "fs = [[0, 3, 0, 1, 7], [0, 3, 0, 2, 8, 9]]"
    using f(3,4) by cases (auto simp: sys_write.simps)
  moreover have "usb_out ep' = fst (hand_over fs (usb_out ?ep))" using f(3) by simp
  ultimately have "wlog (usb_out ep') = [[0, 3]]" by (simp add: sys_write.simps)
  with f(1,5) show ?thesis by blast
qed

text \<open>
  C6. Towards the phone, the accessory's bytes are passed on unchanged and in order: with a
  TCP side that takes every write, what was written is an initial part of what the accessory
  sent, in pieces of at most one buffer, under every schedule of the exit flag, and all of it
  when no exit is requested.
\<close>

theorem forward_passes_bytes:
  assumes "length buf = BUFFER_LEN" "wscript (tcp_out ep) = []"
  shows "\<exists>ep' c' ws. forward USB_to_TCP buf ex ep c = Some (ep', c')
    \<and> wlog (tcp_out ep') = wlog (tcp_out ep) @ ws
    \<and> prefix (concat ws) (avail (usb_in ep)) \<and> (\<forall>w \<in> set ws. length w \<le> BUFFER_LEN)
    \<and> (ex = [] \<longrightarrow> concat ws = avail (usb_in ep)) \<and> usb_out ep' = usb_out ep"
proof -
  obtain st ws where st: "forward_loop USB_to_TCP \<lparr>rd_s = read_end USB_to_TCP ep,
      wr_s = write_end USB_to_TCP ep, buffer = buf,
      log_communication = m_log_communication c, exits = ex\<rparr> = Some st"
    "wlog (wr_s st) = wlog (tcp_out ep) @ ws" "prefix (concat ws) (avail (usb_in ep))"
    "\<forall>w \<in> set ws. length w \<le> BUFFER_LEN" "ex = [] \<longrightarrow> concat ws = avail (usb_in ep)"
    using forward_USB_any [of "\<lparr>rd_s = usb_in ep, wr_s = tcp_out ep, buffer = buf,
      log_communication = m_log_communication c, exits = ex\<rparr>"] assms by auto
  from forward_result [OF st(1)] st(2-) show ?thesis by auto
qed

theorem forward_passes_bytes_witness:
  "\<exists>ep' c' ws. forward USB_to_TCP (replicate BUFFER_LEN 0) [] demo_ends demo_ctl = Some (ep', c')
    \<and> wlog (tcp_out ep') = ws \<and> concat ws = [1, 2, 3]"
  using forward_passes_bytes [of "replicate BUFFER_LEN 0" demo_ends "[]" demo_ctl]
  by (auto simp: demo_ends_def)

text \<open>
  A short write to the accessory loses data silently: when the device takes only the first
  j bytes of a frame, the remaining bytes of that frame are never sent and the next frame
  follows immediately, so the car sees a corrupted stream.
\<close>

lemma forward_short_write_drops:
  assumes "length buf = BUFFER_LEN" "wscript (usb_out ep) = [Accept j]"
    "frames (avail (tcp_in ep)) = f # fs"
  shows "\<exists>ep' c'. forward TCP_to_USB buf [] ep c = Some (ep', c')
    \<and> wlog (usb_out ep') = wlog (usb_out ep) @ take j f # fs"
proof -
  obtain st where "forward_loop TCP_to_USB \<lparr>rd_s = read_end TCP_to_USB ep,
      wr_s = write_end TCP_to_USB ep, buffer = buf,
      log_communication = m_log_communication c, exits = []\<rparr> = Some st"
    "wlog (wr_s st) = wlog (usb_out ep) @ take j f # fs"
    using forward_TCP_short_write [of "\<lparr>rd_s = tcp_in ep, wr_s = usb_out ep, buffer = buf,
      log_communication = m_log_communication c, exits = []\<rparr>" j f fs] assms by auto
  with forward_result [OF this(1)] show ?thesis by auto
qed

lemma forward_short_write_drops_witness:
  "\<exists>ep' c'. forward TCP_to_USB (replicate BUFFER_LEN 0) []
        (demo_ends\<lparr>usb_out := \<lparr>wscript = [Accept 2], wlog = []\<rparr>\<rparr>) demo_ctl = Some (ep', c')
    \<and> wlog (usb_out ep') = [[0, 3], [0, 3, 0, 2, 8, 9]]"
  using forward_short_write_drops [of "replicate BUFFER_LEN 0"
      "demo_ends\<lparr>usb_out := \<lparr>wscript = [Accept 2], wlog = []\<rparr>\<rparr>" 2 "[0, 3, 0, 1, 7]"
      "[[0, 3, 0, 2, 8, 9]]" demo_ctl] demo_frames
  by (auto simp: demo_ends_def)

text \<open>
  C37. readMessage on every input.  With a buffer of the stated size (at least a header long) it
  never stores outside it; a positive result says that exactly one whole frame was taken from
  the stream and stands at the start of the buffer, and it is positive exactly when a whole
  frame with a non-empty body that fits the buffer is available.  In particular a frame with an
  empty body is reported as 0, which the caller takes for the end of the connection.
\<close>

theorem readMessage_total:
  assumes "length buf = cap" "4 \<le> cap"
  shows "\<exists>k buf' s'. readMessage s buf cap = Some (k, buf', s') \<and> length buf' = cap
    \<and> (0 < k \<longleftrightarrow> whole_frame cap (avail s))
    \<and> (0 < k \<longrightarrow> k = int (frame_length (avail s))
         \<and> take (nat k) buf' = take (nat k) (avail s) \<and> avail s' = drop (nat k) (avail s))"
proof (cases "whole_frame cap (avail s)")
  case True
  define n where "n = header_length + message_length (avail s)"
  from readMessage_whole [OF True assms(1)] obtain s' where
    r: "readMessage s buf cap = Some (int n, take n (avail s) @ drop n buf, s')"
    "avail s' = drop n (avail s)" unfolding n_def by blast
  have "n \<le> length (avail s)" "n \<le> length buf" "0 < int n"
    using True assms(1) by (auto simp: whole_frame_iff header_length_def n_def)
  with r True assms(1) show ?thesis unfolding frame_length_eq n_def [symmetric] by simp
next
  case False
  from readMessage_not_whole [OF this assms] show ?thesis using False by force
qed

theorem readMessage_total_witness:
  "\<exists>k buf' s'. readMessage demo_stream (replicate 8 0) 8 = Some (k, buf', s') \<and> 0 < k
    \<and> take (nat k) buf' = [0, 3, 0, 1, 7]"
proof -
  have w: "whole_frame 8 (avail demo_stream)" "message_length (avail demo_stream) = 1"
    "avail demo_stream = [0, 3, 0, 1, 7, 0, 3, 0, 2, 8, 9]"
    by (simp_all add: demo_stream_def whole_frame_iff header_length_def message_length_def
        FRAME_TYPE_MASK_def FRAME_TYPE_FIRST_def FRAME_TYPE_LAST_def)
  from readMessage_total [of "replicate 8 0" 8 demo_stream] obtain k buf' s' where
    "readMessage demo_stream (replicate 8 0) 8 = Some (k, buf', s')" "0 < k" "k = 5"
    "take (nat k) buf' = take (nat k) (avail demo_stream)"
    using w(1,2) by (auto simp: header_length_def frame_length_eq)
  then show ?thesis by (simp add: w(3))
qed

end
