(* ===== verification/CxxString.thy ===== *)
theory CxxString
  imports Prelude
begin

text \<open>
  What the daemons use of the C++ standard library on strings and sequences: searching and
  prefix tests of std::string, std::getline and stream extraction of words, the character
  classes of the C locale, std::stoi and decimal output of integers, and std::stable_sort.
  A string is a list of 8-bit characters.
\<close>

named_theorems string_simps \<open>evaluation of the string library\<close>

section \<open>Searching\<close>

text \<open>s.rfind(p, 0) == 0 is the prefix test of the sources.\<close>

definition starts_with :: "string \<Rightarrow> string \<Rightarrow> bool" where
  "starts_with p s \<longleftrightarrow> take (length p) s = p"

lemma starts_with_append [simp]: "starts_with p (p @ s)"
  by (simp add: starts_with_def)

lemma starts_with_iff: "starts_with p s \<longleftrightarrow> (\<exists>r. s = p @ r)"
  by (metis starts_with_def starts_with_append append_take_drop_id)

lemma starts_with_Cons [simp]: "starts_with (c # p) (d # s) \<longleftrightarrow> c = d \<and> starts_with p s"
  by (auto simp: starts_with_def)

lemma starts_with_Nil [simp]: "starts_with [] s" "starts_with (c # p) [] = False"
  by (simp_all add: starts_with_def)

text \<open>s.find(p) and s.find(p, pos); None is npos.\<close>

fun find_sub :: "string \<Rightarrow> string \<Rightarrow> nat option" where
  "find_sub p [] = (if p = [] then Some 0 else None)"
| "find_sub p (c # s) =
     (if starts_with p (c # s) then Some 0 else map_option Suc (find_sub p s))"

definition find_from :: "string \<Rightarrow> string \<Rightarrow> nat \<Rightarrow> nat option" where
  "find_from p s pos =
     (if pos \<le> length s then map_option ((+) pos) (find_sub p (drop pos s)) else None)"

definition contains :: "string \<Rightarrow> string \<Rightarrow> bool" where
  "contains p s \<longleftrightarrow> find_sub p s \<noteq> None"

lemma contains_iff: "contains p s \<longleftrightarrow> (\<exists>xs ys. s = xs @ p @ ys)"
proof -
  have "find_sub p s \<noteq> None \<longleftrightarrow> (\<exists>xs ys. s = xs @ p @ ys)"
  proof (induction s)
    case (Cons c s)
    have "(\<exists>xs ys. c # s = xs @ p @ ys)
        \<longleftrightarrow> starts_with p (c # s) \<or> (\<exists>xs ys. s = xs @ p @ ys)"
      by (simp add: starts_with_iff) (metis append_Cons append_Nil append_eq_Cons_conv)
    with Cons show ?case by simp
  qed simp
  then show ?thesis by (simp add: contains_def)
qed

lemma find_sub_bound: "find_sub p s = Some i \<Longrightarrow> i + length p \<le> length s"
proof (induction s arbitrary: i)
  case (Cons c s)
  then show ?case by (fastforce simp: starts_with_iff split: if_splits dest: arg_cong [of _ _ length])
qed (simp split: if_splits)

section \<open>Characters and words\<close>

text \<open>isspace, isdigit and tolower of the C locale.\<close>

definition isspace :: "char \<Rightarrow> bool" where
  "isspace c \<longleftrightarrow> c \<in> set [CHR 0x20, CHR 0x09, CHR 0x0A, CHR 0x0B, CHR 0x0C, CHR 0x0D]"

definition isdigit :: "char \<Rightarrow> bool" where
  "isdigit c \<longleftrightarrow> 48 \<le> (of_char c :: nat) \<and> (of_char c :: nat) \<le> 57"

definition tolower :: "char \<Rightarrow> char" where
  "tolower c = (if 65 \<le> (of_char c :: nat) \<and> (of_char c :: nat) \<le> 90
                then char_of ((of_char c :: nat) + 32) else c)"

text \<open>std::getline reads up to a newline; reading a file that is not there gives no characters.\<close>

definition getline :: "string \<Rightarrow> string" where
  "getline s = takeWhile (\<lambda>c. c \<noteq> CHR 0x0A) s"

text \<open>s.c_str() read as a C string ends at the first NUL.\<close>

definition c_str :: "string \<Rightarrow> string" where
  "c_str s = takeWhile (\<lambda>c. c \<noteq> CHR 0x00) s"

text \<open>The words successive extractions \<open>is >> tok\<close> give.\<close>

function stream_words :: "string \<Rightarrow> string list" where
  "stream_words s =
     (let t = dropWhile isspace s
      in if t = [] then []
         else takeWhile (\<lambda>c. \<not> isspace c) t # stream_words (dropWhile (\<lambda>c. \<not> isspace c) t))"
  by pat_completeness auto
termination
proof (relation "measure length", goal_cases)
  case (2 s t)
  then have "t \<noteq> []" "\<not> isspace (hd t)" "length t \<le> length s"
    using hd_dropWhile [of isspace s] length_dropWhile_le [of isspace s] by auto
  then have "length (dropWhile (\<lambda>c. \<not> isspace c) t) < length t"
    by (cases t) (auto simp: le_imp_less_Suc length_dropWhile_le)
  with \<open>length t \<le> length s\<close> show ?case by simp
qed simp

declare stream_words.simps [simp del]

section \<open>Numbers\<close>

fun digits_value :: "string \<Rightarrow> nat \<Rightarrow> nat" where
  "digits_value [] n = n"
| "digits_value (c # cs) n = digits_value cs (10 * n + (of_char c - 48))"

text \<open>std::stoi: None is the throw of invalid_argument or out_of_range.\<close>

definition stoi :: "string \<Rightarrow> int option" where
  "stoi s =
     (let t = dropWhile isspace s;
          neg = (t \<noteq> [] \<and> hd t = CHR ''-'');
          u = (if t \<noteq> [] \<and> (hd t = CHR ''-'' \<or> hd t = CHR ''+'') then tl t else t);
          ds = takeWhile isdigit u;
          v = (if neg then - int (digits_value ds 0) else int (digits_value ds 0))
      in if ds = [] then None
         else if - (2 ^ 31) \<le> v \<and> v < 2 ^ 31 then Some v else None)"

text \<open>Decimal output of an integer.\<close>

fun dec_nat :: "nat \<Rightarrow> string" where
  "dec_nat n = (if n < 10 then [char_of (48 + n)] else dec_nat (n div 10) @ [char_of (48 + n mod 10)])"

declare dec_nat.simps [simp del]

definition dec_int :: "int \<Rightarrow> string" where
  "dec_int i = (if i < 0 then CHR ''-'' # dec_nat (nat (- i)) else dec_nat (nat i))"

lemma digits_value_append: "digits_value (xs @ ys) n = digits_value ys (digits_value xs n)"
  by (induction xs arbitrary: n) auto

lemma isdigit_char_of: "n < (10::nat) \<Longrightarrow> isdigit (char_of (48 + n))"
  by (simp add: isdigit_def of_char_of)

lemma dec_nat_digits: "list_all isdigit (dec_nat n) \<and> dec_nat n \<noteq> []"
proof (induction n rule: dec_nat.induct)
  case (1 n)
  then show ?case
    by (subst (1 2) dec_nat.simps) (auto simp: isdigit_char_of)
qed

lemma digits_value_dec_nat: "digits_value (dec_nat n) 0 = n"
proof (induction n rule: dec_nat.induct)
  case (1 n)
  show ?case
  proof (cases "n < 10")
    case True
    then show ?thesis by (subst dec_nat.simps) simp
  next
    case False
    with 1 show ?thesis by (subst dec_nat.simps) (simp add: digits_value_append)
  qed
qed

lemma isdigit_not_space: "isdigit c \<Longrightarrow> \<not> isspace c \<and> c \<noteq> CHR ''-'' \<and> c \<noteq> CHR ''+''"
  by (auto simp: isdigit_def isspace_def)

lemma takeWhile_dec: "takeWhile isdigit (dec_nat n) = dec_nat n"
  using dec_nat_digits [of n] by (auto simp: takeWhile_eq_all_conv list_all_iff)

lemma stoi_dec_int:
  assumes "- (2 ^ 31) \<le> i" "i < 2 ^ 31"
  shows "stoi (dec_int i) = Some i"
proof (cases "i < 0")
  case True
  have "\<not> isspace CHR ''-''" by (simp add: isspace_def)
  with True assms dec_nat_digits [of "nat (- i)"] show ?thesis
    by (simp add: stoi_def dec_int_def Let_def takeWhile_dec digits_value_dec_nat)
next
  case False
  obtain d ds where d: "dec_nat (nat i) = d # ds" "isdigit d"
    using dec_nat_digits [of "nat i"] by (cases "dec_nat (nat i)") auto
  from isdigit_not_space [OF d(2)] have "dropWhile isspace (dec_nat (nat i)) = dec_nat (nat i)"
    "hd (dec_nat (nat i)) \<noteq> CHR ''-''" "hd (dec_nat (nat i)) \<noteq> CHR ''+''"
    by (simp_all add: d(1))
  with False assms dec_nat_digits [of "nat i"] show ?thesis
    by (simp add: stoi_def dec_int_def Let_def takeWhile_dec digits_value_dec_nat)
qed

lemma stoi_range: "stoi s = Some v \<Longrightarrow> - (2 ^ 31) \<le> v \<and> v < 2 ^ 31"
  by (auto simp: stoi_def Let_def split: if_splits)

end
