(* ===== verification/Config.thy ===== *)
theory Config
  imports CxxString
begin

text \<open>
  Config and BuildInfo (common.h, common.cpp) and the two enums of proto/WifiInfoResponse.proto:
  everything the daemon reads from its environment.  The process environment, the files it reads
  and the interface list of getifaddrs are the fields of a record; Config's only state is the
  cached connection strategy.
\<close>

section \<open>Data\<close>

datatype AccessPointType = STATIC | DYNAMIC

datatype SecurityMode = UNKNOWN_SECURITY_MODE | OPEN | WEP_64 | WEP_128 | WPA_PERSONAL
  | WPA2_PERSONAL | WPA_WPA2_PERSONAL | WPA_ENTERPRISE | WPA2_ENTERPRISE | WPA_WPA2_ENTERPRISE

fun AccessPointType_value :: "AccessPointType \<Rightarrow> int" where
  "AccessPointType_value STATIC = 0"
| "AccessPointType_value DYNAMIC = 1"

fun SecurityMode_value :: "SecurityMode \<Rightarrow> int" where
  "SecurityMode_value UNKNOWN_SECURITY_MODE = 0"
| "SecurityMode_value OPEN = 1"
| "SecurityMode_value WEP_64 = 2"
| "SecurityMode_value WEP_128 = 3"
| "SecurityMode_value WPA_PERSONAL = 4"
| "SecurityMode_value WPA2_PERSONAL = 8"
| "SecurityMode_value WPA_WPA2_PERSONAL = 12"
| "SecurityMode_value WPA_ENTERPRISE = 20"
| "SecurityMode_value WPA2_ENTERPRISE = 24"
| "SecurityMode_value WPA_WPA2_ENTERPRISE = 28"

record WifiInfo =
  ssid :: string
  key :: string
  bssid :: string
  securityMode :: SecurityMode
  accessPointType :: AccessPointType
  ipAddress :: string
  port :: int

datatype ConnectionStrategy = DONGLE_MODE | PHONE_FIRST | USB_FIRST

record BuildInfo =
  version :: string
  gitSha :: string
  buildTimeUtc :: string

text \<open>An entry of getifaddrs: a name and, when there is one, an address.\<close>

datatype sockaddr = AF_INET byte byte byte byte | AF_OTHER

record ifaddr =
  ifa_name :: string
  ifa_addr :: "sockaddr option"

record host =
  environ :: "string \<Rightarrow> string option"
  files :: "string \<Rightarrow> string option"
  ifaddrs :: "ifaddr list option"

record config =
  connectionStrategy :: "ConnectionStrategy option"

definition fresh_config :: config where
  "fresh_config = \<lparr>connectionStrategy = None\<rparr>"

section \<open>Reading the environment\<close>

definition getenv_int :: "host \<Rightarrow> string \<Rightarrow> int \<Rightarrow> int" where
  "getenv_int h name defaultValue =
     (case environ h name of
        Some envValue \<Rightarrow> (case stoi envValue of Some v \<Rightarrow> v | None \<Rightarrow> defaultValue)
      | None \<Rightarrow> defaultValue)"

definition getenv_string :: "host \<Rightarrow> string \<Rightarrow> string \<Rightarrow> string" where
  "getenv_string h name defaultValue =
     (case environ h name of Some envValue \<Rightarrow> envValue | None \<Rightarrow> defaultValue)"

definition getBluetoothName :: "host \<Rightarrow> string" where
  "getBluetoothName h = getenv_string h ''AAWG_BLUETOOTH_NAME'' []"

text \<open>inet_ntop(AF_INET, ...): the dotted decimal form.\<close>

definition inet_ntop :: "byte \<Rightarrow> byte \<Rightarrow> byte \<Rightarrow> byte \<Rightarrow> string" where
  "inet_ntop a b c d =
     dec_nat (unat a) @ ''.'' @ dec_nat (unat b) @ ''.'' @ dec_nat (unat c) @ ''.'' @ dec_nat (unat d)"

fun first_ipv4 :: "string \<Rightarrow> ifaddr list \<Rightarrow> string" where
  "first_ipv4 interface [] = []"
| "first_ipv4 interface (ifa # rest) =
     (case ifa_addr ifa of
        None \<Rightarrow> first_ipv4 interface rest
      | Some AF_OTHER \<Rightarrow> first_ipv4 interface rest
      | Some (AF_INET a b c d) \<Rightarrow>
          if interface \<noteq> ifa_name ifa then first_ipv4 interface rest
          else inet_ntop a b c d)"

definition getInterfaceIpv4Address :: "host \<Rightarrow> string \<Rightarrow> string" where
  "getInterfaceIpv4Address h interface =
     (case ifaddrs h of
        None \<Rightarrow> []
      | Some l \<Rightarrow> first_ipv4 interface l)"

definition first_line_of :: "host \<Rightarrow> string \<Rightarrow> string" where
  "first_line_of h path = (case files h path of None \<Rightarrow> [] | Some text \<Rightarrow> getline text)"

definition getMacAddress :: "host \<Rightarrow> string \<Rightarrow> string" where
  "getMacAddress h interface = first_line_of h (''/sys/class/net/'' @ interface @ ''/address'')"

definition getUniqueSuffix :: "host \<Rightarrow> string" where
  "getUniqueSuffix h =
     (let uniqueSuffix = getenv_string h ''AAWG_UNIQUE_NAME_SUFFIX'' []
      in if uniqueSuffix \<noteq> [] then uniqueSuffix
         else (let serialNumber = ''00000000''
                 @ c_str (first_line_of h ''/sys/firmware/devicetree/base/serial-number'')
               in drop (length serialNumber - 6) serialNumber))"

definition getWifiInfo :: "host \<Rightarrow> WifiInfo" where
  "getWifiInfo h =
     (let detectedIp = getInterfaceIpv4Address h ''wlan0'';
          defaultProxyIp = (if detectedIp \<noteq> [] then detectedIp else ''10.0.0.1'')
      in \<lparr>ssid = getenv_string h ''AAWG_WIFI_SSID'' ''AAWirelessDongle'',
          key = getenv_string h ''AAWG_WIFI_PASSWORD'' ''ConnectAAWirelessDongle'',
          bssid = getenv_string h ''AAWG_WIFI_BSSID'' (getMacAddress h ''wlan0''),
          securityMode = WPA2_PERSONAL,
          accessPointType = DYNAMIC,
          ipAddress = getenv_string h ''AAWG_PROXY_IP_ADDRESS'' defaultProxyIp,
          port = getenv_int h ''AAWG_PROXY_PORT'' 5288\<rparr>)"

definition strategy_of_int :: "int \<Rightarrow> ConnectionStrategy" where
  "strategy_of_int n =
     (if n = 0 then DONGLE_MODE else if n = 1 then PHONE_FIRST else if n = 2 then USB_FIRST
      else PHONE_FIRST)"

definition getConnectionStrategy :: "host \<Rightarrow> config \<Rightarrow> ConnectionStrategy \<times> config" where
  "getConnectionStrategy h cfg =
     (let cfg' = (if connectionStrategy cfg = None
                  then cfg\<lparr>connectionStrategy :=
                         Some (strategy_of_int (getenv_int h ''AAWG_CONNECTION_STRATEGY'' 1))\<rparr>
                  else cfg)
      in (the (connectionStrategy cfg'), cfg'))"

text \<open>The build macros come from the build system.\<close>

definition getBuildInfo :: "string \<Rightarrow> string \<Rightarrow> string \<Rightarrow> BuildInfo" where
  "getBuildInfo v sha t = \<lparr>version = v, gitSha = sha, buildTimeUtc = t\<rparr>"

section \<open>Facts\<close>

lemma getenv_int_range:
  assumes "- (2 ^ 31) \<le> d" "d < 2 ^ 31"
  shows "- (2 ^ 31) \<le> getenv_int h n d \<and> getenv_int h n d < 2 ^ 31"
  using assms stoi_range by (fastforce simp: getenv_int_def split: option.splits)

lemma getenv_int_set:
  "environ h n = Some (dec_int i) \<Longrightarrow> - (2 ^ 31) \<le> i \<Longrightarrow> i < 2 ^ 31 \<Longrightarrow> getenv_int h n d = i"
  by (simp add: getenv_int_def stoi_dec_int)

lemma getenv_int_default:
  "environ h n = None \<or> (\<exists>v. environ h n = Some v \<and> stoi v = None) \<Longrightarrow> getenv_int h n d = d"
  by (auto simp: getenv_int_def)

lemma getWifiInfo_port: "port (getWifiInfo h) = getenv_int h ''AAWG_PROXY_PORT'' 5288"
  by (simp add: getWifiInfo_def Let_def)

lemma getConnectionStrategy_cached:
  assumes "getConnectionStrategy h cfg = (s, cfg')"
  shows "getConnectionStrategy h' cfg' = (s, cfg')"
  using assms by (auto simp: getConnectionStrategy_def Let_def split: if_splits)

lemma getConnectionStrategy_first:
  "fst (getConnectionStrategy h fresh_config)
     = strategy_of_int (getenv_int h ''AAWG_CONNECTION_STRATEGY'' 1)"
  by (simp add: getConnectionStrategy_def fresh_config_def)

text \<open>
  The connection strategy is decided once and kept: the first call reads
  AAWG_CONNECTION_STRATEGY (0, 1 and 2 are the three strategies, anything else and no number at
  all is phone-first), and every later call returns the same answer and leaves the cache alone,
  even when the environment has changed in between.
\<close>

lemma strategy_decided_once:
  "\<exists>s cfg'. getConnectionStrategy h fresh_config = (s, cfg')
    \<and> s = (case environ h ''AAWG_CONNECTION_STRATEGY'' of
             None \<Rightarrow> PHONE_FIRST
           | Some v \<Rightarrow> if stoi v = Some 0 then DONGLE_MODE else if stoi v = Some 2 then USB_FIRST
                       else PHONE_FIRST)
    \<and> (\<forall>h'. getConnectionStrategy h' cfg' = (s, cfg'))"
proof -
  obtain s cfg' where g: "getConnectionStrategy h fresh_config = (s, cfg')" by fastforce
  then have s: "s = strategy_of_int (getenv_int h ''AAWG_CONNECTION_STRATEGY'' 1)"
    using getConnectionStrategy_first [of h] by simp
  have "\<forall>h'. getConnectionStrategy h' cfg' = (s, cfg')"
    using getConnectionStrategy_cached [OF g] by blast
  moreover have "s = (case environ h ''AAWG_CONNECTION_STRATEGY'' of
      None \<Rightarrow> PHONE_FIRST
    | Some v \<Rightarrow> if stoi v = Some 0 then DONGLE_MODE else if stoi v = Some 2 then USB_FIRST
                else PHONE_FIRST)"
    by (simp add: s getenv_int_def strategy_of_int_def split: option.split)
  ultimately show ?thesis using g by blast
qed

text \<open>
  Unless a suffix is configured, the unique part of the Bluetooth name has exactly six
  characters, whatever the serial number file holds: the last six of the serial number up to its
  first NUL, padded on the left with zeros.
\<close>

lemma unique_suffix_six:
  assumes "getenv_string h ''AAWG_UNIQUE_NAME_SUFFIX'' [] = []"
  defines "serial \<equiv> c_str (first_line_of h ''/sys/firmware/devicetree/base/serial-number'')"
  shows "length (getUniqueSuffix h) = 6
    \<and> (6 \<le> length serial \<longrightarrow> getUniqueSuffix h = drop (length serial - 6) serial)
    \<and> (length serial < 6 \<longrightarrow> getUniqueSuffix h = replicate (6 - length serial) CHR ''0'' @ serial)"
proof -
  have z: "''00000000'' = replicate 8 CHR ''0''" by (simp add: numeral_eq_Suc)
  have "getUniqueSuffix h = drop (2 + length serial) (replicate 8 CHR ''0'' @ serial)"
    using assms(1) by (simp add: getUniqueSuffix_def serial_def z)
  then show ?thesis by (auto simp: drop_replicate)
qed

definition demo_host :: host where
  "demo_host = \<lparr>environ = (\<lambda>_. None),
     files = [''/sys/firmware/devicetree/base/serial-number'' \<mapsto> ''00000000abcd1234'' @ [CHR 0x00]],
     ifaddrs = None\<rparr>"

lemma unique_suffix_six_witness:
  "length (getUniqueSuffix demo_host) = 6 \<and> getUniqueSuffix demo_host = ''cd1234''"
proof -
  have s: "c_str (first_line_of demo_host ''/sys/firmware/devicetree/base/serial-number'')
      = ''00000000abcd1234''"
    by (simp add: demo_host_def first_line_of_def getline_def c_str_def)
  have "getenv_string demo_host ''AAWG_UNIQUE_NAME_SUFFIX'' [] = []"
    by (simp add: demo_host_def getenv_string_def)
  from unique_suffix_six [OF this] show ?thesis by (simp add: s)
qed

end
