(* ===== verification/Uevent.thy ===== *)
theory Uevent
  imports CxxString
begin

text \<open>
  UeventMonitor (uevent.h, uevent.cpp): parsing of the kernel's netlink messages and the loop
  that hands each of them to the registered handlers.
\<close>

section \<open>Parsing\<close>

type_synonym UeventEnv = "string \<Rightarrow> string option"

definition NETLINK_MSG_SIZE :: nat where "NETLINK_MSG_SIZE = 8 * 1024"

abbreviation (input) NUL :: char where "NUL \<equiv> CHR 0x00"

text \<open>std::map::emplace keeps an entry that is already there.\<close>

definition emplace :: "'k \<Rightarrow> 'v \<Rightarrow> ('k \<Rightarrow> 'v option) \<Rightarrow> ('k \<Rightarrow> 'v option)" where
  "emplace k v m = (if m k = None then m(k \<mapsto> v) else m)"

text \<open>One NUL-terminated line: an assignment when it has an = that is not its first character.\<close>

definition env_line :: "string \<Rightarrow> UeventEnv \<Rightarrow> UeventEnv" where
  "env_line line envMap =
     (let name = takeWhile (\<lambda>c. c \<noteq> CHR ''='') line
      in if length name < length line \<and> 0 < length name
         then emplace name (drop (length name + 1) line) envMap
         else envMap)"

function parse_env :: "string \<Rightarrow> UeventEnv \<Rightarrow> UeventEnv" where
  "parse_env current envMap =
     (if current = [] then envMap
      else (let line = takeWhile (\<lambda>c. c \<noteq> NUL) current
            in parse_env (drop (length line + 1) current) (env_line line envMap)))"
  by pat_completeness auto
termination
  by (relation "measure (\<lambda>(current, m). length current)") auto

declare parse_env.simps [simp del]

text \<open>
  One message as the kernel formats it: a header line and the assignments, each ended by NUL.
\<close>

definition render_env :: "(string \<times> string) list \<Rightarrow> string" where
  "render_env kvs = concat (map (\<lambda>(k, v). k @ CHR ''='' # v @ [NUL]) kvs)"

definition wf_assignment :: "string \<times> string \<Rightarrow> bool" where
  "wf_assignment kv \<longleftrightarrow> fst kv \<noteq> [] \<and> CHR ''='' \<notin> set (fst kv) \<and> NUL \<notin> set (fst kv)
     \<and> NUL \<notin> set (snd kv)"

lemma takeWhile_sep: "x \<notin> set xs \<Longrightarrow> takeWhile (\<lambda>c. c \<noteq> x) (xs @ x # ys) = xs"
  by (induction xs) auto

lemma env_line_assignment:
  "k \<noteq> [] \<Longrightarrow> CHR ''='' \<notin> set k \<Longrightarrow> env_line (k @ CHR ''='' # v) m = emplace k v m"
  by (simp add: env_line_def Let_def takeWhile_sep)

lemma env_line_other:
  assumes "CHR ''='' \<notin> set line"
  shows "env_line line m = m"
proof -
  have "takeWhile (\<lambda>c. c \<noteq> CHR ''='') line = line" using assms by auto
  then show ?thesis unfolding env_line_def Let_def by (simp only:) simp
qed

lemma parse_env_line:
  assumes "NUL \<notin> set line"
  shows "parse_env (line @ NUL # rest) m = parse_env rest (env_line line m)"
  using assms by (subst parse_env.simps) (simp add: takeWhile_sep)

lemma parse_env_render:
  assumes "\<forall>kv \<in> set kvs. wf_assignment kv"
  shows "parse_env (render_env kvs) m = map_of kvs ++ m"
  using assms
proof (induction kvs arbitrary: m)
  case Nil
  then show ?case by (simp add: render_env_def parse_env.simps)
next
  case (Cons kv kvs)
  obtain k v where kv: "kv = (k, v)" by fastforce
  with Cons.prems have wf: "k \<noteq> []" "CHR ''='' \<notin> set k" "NUL \<notin> set (k @ CHR ''='' # v)"
    by (auto simp: wf_assignment_def)
  have "render_env (kv # kvs) = (k @ CHR ''='' # v) @ NUL # render_env kvs"
    by (simp add: render_env_def kv)
  then have "parse_env (render_env (kv # kvs)) m = parse_env (render_env kvs) (emplace k v m)"
    using parse_env_line [OF wf(3)] env_line_assignment [OF wf(1,2)] by metis
  also have "\<dots> = map_of kvs ++ emplace k v m"
    using Cons by simp
  also have "\<dots> = map_of (kv # kvs) ++ m"
    by (auto simp: kv emplace_def map_add_def fun_eq_iff split: option.split)
  finally show ?case .
qed

section \<open>The message buffer\<close>

text \<open>
  One read of the netlink socket into the array msg of NETLINK_MSG_SIZE + 1 characters.  The
  socket keeps message boundaries: what does not fit is dropped.  None is a store outside msg;
  Some None is the error or the empty read, after which the loop reads again.
\<close>

fun sys_recv :: "nat \<Rightarrow> char rev \<Rightarrow> int \<times> string" where
  "sys_recv n Fail = (- 1, [])"
| "sys_recv n (Data bs) = (int (length (take n bs)), take n bs)"

definition read_event :: "string \<Rightarrow> char rev \<Rightarrow> (string \<times> UeventEnv option) option" where
  "read_event msg ev =
     (case sys_recv NETLINK_MSG_SIZE ev of (len, bs) \<Rightarrow>
        (case put_bytes 0 bs msg of
           None \<Rightarrow> None
         | Some msg \<Rightarrow>
             if len < 0 then Some (msg, None)
             else if len = 0 then Some (msg, None)
             else (case put_bytes (nat len) [NUL] msg of
                     None \<Rightarrow> None
                   | Some msg \<Rightarrow> Some (msg, Some (parse_env (take (nat len) msg) Map.empty)))))"

lemma read_event_defined:
  assumes "length msg = NETLINK_MSG_SIZE + 1"
  shows "\<exists>msg' r. read_event msg ev = Some (msg', r) \<and> length msg' = NETLINK_MSG_SIZE + 1
    \<and> r = (case ev of Fail \<Rightarrow> None
           | Data bs \<Rightarrow> if bs = [] then None
                       else Some (parse_env (take NETLINK_MSG_SIZE bs) Map.empty))"
proof (cases ev)
  case Fail
  then show ?thesis using assms by (simp add: read_event_def put_bytes_nil)
next
  case (Data bs)
  let ?bs = "take NETLINK_MSG_SIZE bs"
  have le: "length ?bs \<le> NETLINK_MSG_SIZE" by simp
  have "0 + length ?bs \<le> length msg" using assms le by linarith
  then obtain m1 where m1: "put_bytes 0 ?bs msg = Some m1" using put_bytes_defined by blast
  have l1: "length m1 = NETLINK_MSG_SIZE + 1" using put_bytes_length [OF m1] assms by simp
  have t1: "take (length ?bs) m1 = ?bs" using put_bytes_take [OF m1] by simp
  have "length ?bs + length [NUL] \<le> length m1" using l1 le by simp
  then obtain m2 where m2: "put_bytes (length ?bs) [NUL] m1 = Some m2"
    using put_bytes_defined by blast
  have l2: "length m2 = NETLINK_MSG_SIZE + 1" using put_bytes_length [OF m2] l1 by simp
  have "take (length ?bs + 1) m2 = ?bs @ [NUL]" using put_bytes_take [OF m2] t1 by simp
  then have t2: "take (length ?bs) m2 = ?bs" by (metis take_eq_prefix take_all order_refl)
  have nz: "int (length ?bs) = 0 \<longleftrightarrow> bs = []" by (cases bs) (auto simp: NETLINK_MSG_SIZE_def min_def)
  show ?thesis
  proof (cases "bs = []")
    case True
    then show ?thesis using Data m1 l1 by (simp add: read_event_def)
  next
    case False
    then have "int (length ?bs) \<noteq> 0" using nz by simp
    then show ?thesis using Data False m1 m2 l2 t2
      by (simp add: read_event_def del: length_take)
  qed
qed

section \<open>Handlers\<close>

text \<open>
  A handler is a std::function; what calling it does is a parameter of the loop.  The iterator
  loop of the source: a handler that returns true is erased, erase returns the iterator to the
  element behind it, and the for statement increments that iterator once more.  When the erased
  handler was the last one, the increment is of the past-the-end iterator: undefined behaviour
  in ISO C++, while a list kept as a ring through its sentinel node (libstdc++) continues at the
  first element, or stops when the list has become empty.
\<close>

datatype list_impl = Iso | Ring

function call_handlers ::
    "list_impl \<Rightarrow> ('h \<Rightarrow> ('s, fault, bool) eff) \<Rightarrow> 'h list \<Rightarrow> 'h list \<Rightarrow> ('s, fault, 'h list) eff" where
  "call_handlers impl call kept [] s = ret (rev kept) s"
| "call_handlers impl call kept (h # rest) s =
     (case call h s of
        (Inl e, s') \<Rightarrow> (Inl e, s')
      | (Inr False, s') \<Rightarrow> call_handlers impl call (h # kept) rest s'
      | (Inr True, s') \<Rightarrow>
          (case rest of
             h' # rest' \<Rightarrow> call_handlers impl call (h' # kept) rest' s'
           | [] \<Rightarrow> (case impl of
                    Iso \<Rightarrow> throw Past_end_iterator s'
                  | Ring \<Rightarrow> call_handlers impl call [] (rev kept) s')))"
  by pat_completeness auto
termination
  by (relation "measures [\<lambda>(impl, call, kept, rest, s). length kept + length rest,
                          \<lambda>(impl, call, kept, rest, s). length rest]") auto

text \<open>
  The contract stated at addHandler: every handler is called for every event, and those that
  return true are removed.
\<close>

fun dispatch_all :: "('h \<Rightarrow> ('s, fault, bool) eff) \<Rightarrow> 'h list \<Rightarrow> ('s, fault, 'h list) eff" where
  "dispatch_all call [] s = ret [] s"
| "dispatch_all call (h # hs) s =
     (case call h s of
        (Inl e, s') \<Rightarrow> (Inl e, s')
      | (Inr done, s') \<Rightarrow>
          (case dispatch_all call hs s' of
             (Inl e, s'') \<Rightarrow> (Inl e, s'')
           | (Inr hs', s'') \<Rightarrow> (Inr (if done then hs' else h # hs'), s'')))"

lemma dispatch_all_length: "dispatch_all call hs s = (Inr hs', s') \<Longrightarrow> length hs' \<le> length hs"
  by (induction hs arbitrary: s hs' s') (auto split: prod.splits sum.splits if_splits intro: le_SucI)

lemma dispatch_all_Cons_kept:
  assumes "dispatch_all call (h # hs) s = (Inr (h # hs), s')"
  shows "\<exists>s1. call h s = (Inr False, s1) \<and> dispatch_all call hs s1 = (Inr hs, s')"
proof -
  obtain d s1 where c: "call h s = (Inr d, s1)"
    using assms by (auto split: prod.splits sum.splits)
  then obtain hs' where d: "dispatch_all call hs s1 = (Inr hs', s')"
    "h # hs = (if d then hs' else h # hs')"
    using assms by (auto split: prod.splits sum.splits)
  have "\<not> d" using dispatch_all_length [OF d(1)] d(2) by (auto split: if_splits)
  with c d show ?thesis by auto
qed

text \<open>Handlers that stay are passed over one by one, whatever follows them.\<close>

lemma call_handlers_keep:
  assumes "dispatch_all call hs s = (Inr hs, s')"
  shows "call_handlers impl call kept (hs @ rest) s = call_handlers impl call (rev hs @ kept) rest s'"
  using assms
proof (induction hs arbitrary: s kept)
  case (Cons h hs)
  from dispatch_all_Cons_kept [OF Cons.prems] obtain s1 where
    "call h s = (Inr False, s1)" "dispatch_all call hs s1 = (Inr hs, s')" by blast
  with Cons.IH [of s1 "h # kept"] show ?case by simp
qed simp

section \<open>The monitor\<close>

definition addHandler :: "'h \<Rightarrow> 'h list \<Rightarrow> 'h list" where
  "addHandler h handlers = handlers @ [h]"

text \<open>
  The monitor thread over the messages that arrive: it never ends by itself, so the model runs
  it over any finite sequence of results of read and returns the handlers then registered.
\<close>

fun monitorLoop ::
    "list_impl \<Rightarrow> ('h \<Rightarrow> UeventEnv \<Rightarrow> ('s, fault, bool) eff) \<Rightarrow> char rev list \<Rightarrow> string
      \<Rightarrow> 'h list \<Rightarrow> ('s, fault, 'h list) eff" where
  "monitorLoop impl call [] msg handlers s = ret handlers s"
| "monitorLoop impl call (ev # evs) msg handlers s =
     (case read_event msg ev of
        None \<Rightarrow> throw Buffer_overflow s
      | Some (msg, None) \<Rightarrow> monitorLoop impl call evs msg handlers s
      | Some (msg, Some env) \<Rightarrow>
          (case call_handlers impl (\<lambda>h. call h env) [] handlers s of
             (Inl e, s') \<Rightarrow> (Inl e, s')
           | (Inr handlers, s') \<Rightarrow> monitorLoop impl call evs msg handlers s'))"

lemma read_event_rendered:
  assumes "length msg = NETLINK_MSG_SIZE + 1"
    and "CHR ''='' \<notin> set hdr" "NUL \<notin> set hdr" "\<forall>kv \<in> set kvs. wf_assignment kv"
    and "length (hdr @ NUL # render_env kvs) \<le> NETLINK_MSG_SIZE"
  shows "\<exists>msg'. read_event msg (Data (hdr @ NUL # render_env kvs)) = Some (msg', Some (map_of kvs))
    \<and> length msg' = NETLINK_MSG_SIZE + 1"
proof -
  let ?bs = "hdr @ NUL # render_env kvs"
  from read_event_defined [OF assms(1), of "Data ?bs"] obtain msg' where
    r: "read_event msg (Data ?bs)
          = Some (msg', Some (parse_env (take NETLINK_MSG_SIZE ?bs) Map.empty))"
    "length msg' = NETLINK_MSG_SIZE + 1" by auto
  have "parse_env (take NETLINK_MSG_SIZE ?bs) Map.empty = parse_env (render_env kvs) Map.empty"
    using assms(5) parse_env_line [OF assms(3)] env_line_other [OF assms(2)] by simp
  also have "\<dots> = map_of kvs" using parse_env_render [OF assms(4)] by simp
  finally show ?thesis using r by simp
qed

text \<open>
  Parsing is the inverse of the kernel's formatting.  For every message that consists of a
  header line without an = and of NUL-terminated assignments, and that fits the receive buffer,
  the monitor reads it without leaving its buffer and hands on exactly the map of those
  assignments, the first one where a name is repeated.
\<close>

lemma read_event_roundtrip:
  assumes "length msg = NETLINK_MSG_SIZE + 1"
    and "CHR ''='' \<notin> set hdr" "NUL \<notin> set hdr" "\<forall>kv \<in> set kvs. wf_assignment kv"
    and "length (hdr @ NUL # render_env kvs) \<le> NETLINK_MSG_SIZE"
  shows "\<exists>msg'. read_event msg (Data (hdr @ NUL # render_env kvs)) = Some (msg', Some (map_of kvs))
    \<and> length msg' = NETLINK_MSG_SIZE + 1"
  by (rule read_event_rendered [OF assms])

lemma read_event_roundtrip_witness:
  "\<exists>msg'. read_event (replicate (NETLINK_MSG_SIZE + 1) NUL)
        (Data (''change@/devices'' @ NUL
               # render_env [(''DEVNAME'', ''usb_accessory''), (''ACCESSORY'', ''START'')]))
      = Some (msg', Some (map_of [(''DEVNAME'', ''usb_accessory''), (''ACCESSORY'', ''START'')]))"
  using read_event_roundtrip [of "replicate (NETLINK_MSG_SIZE + 1) NUL" "''change@/devices''"
      "[(''DEVNAME'', ''usb_accessory''), (''ACCESSORY'', ''START'')]"]
  by (auto simp: wf_assignment_def render_env_def NETLINK_MSG_SIZE_def)

text \<open>
  As long as no handler asks to be removed, the loop meets the contract of addHandler: every
  handler is called once, in order of registration, each on the state the previous one left, and
  all of them stay registered.
\<close>

lemma call_handlers_meets_contract:
  assumes "dispatch_all call hs s = (Inr hs, s')"
  shows "call_handlers impl call [] hs s = dispatch_all call hs s"
  using call_handlers_keep [OF assms, of impl "[]" "[]"] assms by simp

lemma call_handlers_meets_contract_witness:
  "call_handlers Iso (\<lambda>h n. (Inr False, n + h)) [] [1, 2] (0 :: nat) = (Inr [1, 2], 3)"
  using call_handlers_meets_contract [of "\<lambda>h n. (Inr False, n + h)" "[1, 2]" 0 3 Iso] by simp

text \<open>
  The reference for the monitor: the contract of addHandler, event by event.  An outcome of
  read is a failing call or a message as the kernel formats it.
\<close>

fun dispatch_events ::
    "('h \<Rightarrow> UeventEnv \<Rightarrow> ('s, fault, bool) eff) \<Rightarrow> UeventEnv list \<Rightarrow> 'h list \<Rightarrow> ('s, fault, 'h list) eff" where
  "dispatch_events call [] hs = ret hs"
| "dispatch_events call (env # envs) hs =
     andthen (dispatch_all (\<lambda>h. call h env) hs) (dispatch_events call envs)"

type_synonym kernel_message = "string \<times> (string \<times> string) list"

fun netlink :: "kernel_message option \<Rightarrow> char rev" where
  "netlink None = Fail"
| "netlink (Some (hdr, kvs)) = Data (hdr @ NUL # render_env kvs)"

fun wf_message :: "kernel_message option \<Rightarrow> bool" where
  "wf_message None \<longleftrightarrow> True"
| "wf_message (Some (hdr, kvs)) \<longleftrightarrow> CHR ''='' \<notin> set hdr \<and> NUL \<notin> set hdr
     \<and> (\<forall>kv \<in> set kvs. wf_assignment kv) \<and> length (hdr @ NUL # render_env kvs) \<le> NETLINK_MSG_SIZE"

fun events_of :: "kernel_message option list \<Rightarrow> UeventEnv list" where
  "events_of [] = []"
| "events_of (None # ms) = events_of ms"
| "events_of (Some (hdr, kvs) # ms) = map_of kvs # events_of ms"

definition stays :: "('h \<Rightarrow> UeventEnv \<Rightarrow> ('s, fault, bool) eff) \<Rightarrow> 'h \<Rightarrow> bool" where
  "stays call h \<longleftrightarrow> (\<forall>env s. fst (call h env s) \<noteq> Inr True)"

lemma call_handlers_staying:
  assumes "\<forall>h \<in> set hs. \<forall>s. fst (call h s) \<noteq> Inr True"
  shows "call_handlers impl call kept hs s =
      (case dispatch_all call hs s of (Inl e, s') \<Rightarrow> (Inl e, s') | (Inr hs', s') \<Rightarrow> (Inr (rev kept @ hs'), s'))
    \<and> (\<forall>hs' s'. dispatch_all call hs s = (Inr hs', s') \<longrightarrow> hs' = hs)"
  using assms
proof (induction hs arbitrary: kept s)
  case (Cons h hs)
  obtain r s1 where c: "call h s = (r, s1)" by fastforce
  show ?case
  proof (cases r)
    case (Inl e)
    with c show ?thesis by simp
  next
    case (Inr d)
    moreover have "fst (call h s) \<noteq> Inr True" using Cons.prems by simp
    ultimately have c0: "call h s = (Inr False, s1)" using c by simp
    from Cons.IH [of "h # kept" s1] Cons.prems
    have "call_handlers impl call (h # kept) hs s1 =
        (case dispatch_all call hs s1 of (Inl e, s') \<Rightarrow> (Inl e, s') | (Inr hs', s') \<Rightarrow> (Inr (rev (h # kept) @ hs'), s'))"
      "\<forall>hs' s'. dispatch_all call hs s1 = (Inr hs', s') \<longrightarrow> hs' = hs" by simp_all
    with c0 show ?thesis by (auto split: prod.splits sum.splits)
  qed
qed simp

text \<open>A single handler in a list kept as a ring: the loop is the contract, removal included.\<close>

lemma call_handlers_single:
  "length hs \<le> 1 \<Longrightarrow> call_handlers Ring call [] hs s = dispatch_all call hs s"
  by (cases hs) (auto split: prod.split sum.split bool.split)

definition undisturbed :: "list_impl \<Rightarrow> ('h \<Rightarrow> UeventEnv \<Rightarrow> ('s, fault, bool) eff) \<Rightarrow> 'h list \<Rightarrow> bool" where
  "undisturbed impl call hs \<longleftrightarrow> impl = Ring \<and> length hs \<le> 1 \<or> (\<forall>h \<in> set hs. stays call h)"

lemma undisturbed_dispatch:
  assumes "undisturbed impl call hs"
  shows "call_handlers impl (\<lambda>h. call h env) [] hs s = dispatch_all (\<lambda>h. call h env) hs s
    \<and> (\<forall>hs' s'. dispatch_all (\<lambda>h. call h env) hs s = (Inr hs', s') \<longrightarrow> undisturbed impl call hs')"
proof (cases "impl = Ring \<and> length hs \<le> 1")
  case True
  then show ?thesis
    using call_handlers_single dispatch_all_length unfolding undisturbed_def by (metis le_trans)
next
  case False
  with assms have st: "\<forall>h \<in> set hs. \<forall>s. fst (call h env s) \<noteq> Inr True" by (auto simp: undisturbed_def stays_def)
  from call_handlers_staying [OF st, of impl "[]" s] assms show ?thesis
    by (auto split: prod.splits sum.splits)
qed

lemma monitor_dispatches:
  assumes "length msg = NETLINK_MSG_SIZE + 1" "\<forall>m \<in> set ms. wf_message m" "undisturbed impl call handlers"
  shows "monitorLoop impl call (map netlink ms) msg handlers s = dispatch_events call (events_of ms) handlers s"
  using assms
proof (induction ms arbitrary: msg s handlers)
  case (Cons m ms)
  show ?case
  proof (cases m)
    case None
    obtain msg' where "read_event msg (netlink m) = Some (msg', None)" "length msg' = NETLINK_MSG_SIZE + 1"
      using read_event_defined [OF Cons.prems(1), of Fail] None by auto
    with Cons None show ?thesis by simp
  next
    case (Some hk)
    obtain hdr kvs where hk: "hk = (hdr, kvs)" by fastforce
    then obtain msg' where rd: "read_event msg (netlink m) = Some (msg', Some (map_of kvs))"
      "length msg' = NETLINK_MSG_SIZE + 1"
      using read_event_rendered [OF Cons.prems(1), of hdr kvs] Cons.prems(2) Some by auto
    note disp = undisturbed_dispatch [OF Cons.prems(3), of "map_of kvs" s]
    have ih: "undisturbed impl call hs \<Longrightarrow>
        monitorLoop impl call (map netlink ms) msg' hs s' = dispatch_events call (events_of ms) hs s'" for hs s'
      using Cons.IH [OF rd(2)] Cons.prems(2) by simp
    show ?thesis
    proof (cases "dispatch_all (\<lambda>h. call h (map_of kvs)) handlers s")
      case (Pair r s')
      with disp rd(1) ih Some hk show ?thesis by (cases r) (auto simp: andthen_def)
    qed
  qed
qed simp

text \<open>
  A handler that asks to be removed makes the loop skip the handler registered behind it:
  that one is not called for this event, although it stays registered and the contract says that
  every handler is called for every event.
\<close>

lemma call_handlers_skips_next:
  assumes "dispatch_all call hs s = (Inr hs, s1)" "call h s1 = (Inr True, s2)"
  shows "call_handlers impl call [] (hs @ h # h' # rest) s
    = call_handlers impl call (h' # rev hs) rest s2"
  using call_handlers_keep [OF assms(1), of impl "[]" "h # h' # rest"] assms(2) by simp

lemma call_handlers_skips_next_witness:
  "call_handlers Iso (\<lambda>h n. (Inr (h = 1), n + h)) [] [1, 5] (0 :: nat) = (Inr [5], 1)
   \<and> dispatch_all (\<lambda>h n. (Inr (h = 1), n + h)) [1, 5] (0 :: nat) = (Inr [5], 6)"
  using call_handlers_skips_next [of "\<lambda>h n. (Inr (h = 1), n + h)" "[]" "0 :: nat" 0 1 1 Iso 5 "[]"]
  by simp

text \<open>
  A handler that asks to be removed while it is the last one drives the iterator past the
  end of the list.  In ISO C++ that is undefined behaviour; with a ring-shaped list the event
  is handed a second time to all the handlers that stayed.
\<close>

lemma call_handlers_last_fires:
  assumes "dispatch_all call hs s = (Inr hs, s1)" "call h s1 = (Inr True, s2)"
  shows "call_handlers Iso call [] (hs @ [h]) s = (Inl Past_end_iterator, s2)
    \<and> call_handlers Ring call [] (hs @ [h]) s = call_handlers Ring call [] hs s2"
  using call_handlers_keep [OF assms(1), of Iso "[]" "[h]"]
    call_handlers_keep [OF assms(1), of Ring "[]" "[h]"] assms(2) by simp

lemma call_handlers_last_fires_witness:
  "call_handlers Iso (\<lambda>h n. (Inr (h = 5), n + h)) [] [1, 5] (0 :: nat) = (Inl Past_end_iterator, 6)
   \<and> call_handlers Ring (\<lambda>h n. (Inr (h = 5), n + h)) [] [1, 5] (0 :: nat) = (Inr [1], 7)"
  using call_handlers_last_fires [of "\<lambda>h n. (Inr (h = 5), n + h)" "[1]" "0 :: nat" 1 5 6] by simp

end
