(* ===== verification/Usb.thy ===== *)
theory Usb
  imports Uevent
begin

text \<open>
  UsbManager (usb.h, usb.cpp): the two USB gadgets of the board, bound to the USB device
  controller by writing their UDC file in configfs, and the wait for the car to ask for
  accessory mode.

  The files below /sys/kernel/config/usb_gadget/ are a map from paths to what was last written
  (None: fopen fails).  A promise of the wait is a number: promise_alive says that its owner is
  still waiting (the weak_ptr of the handler can be locked), promise_set that set_value was
  called.  The registered uevent handlers are the numbers of their promises.
\<close>

named_theorems usb_simps \<open>evaluation of the gadget operations\<close>

definition defaultGadgetName :: string where "defaultGadgetName = ''default''"
definition accessoryGadgetName :: string where "accessoryGadgetName = ''accessory''"

record usb =
  s_udcName :: string
  configfs :: "string \<Rightarrow> string option"
  handlers :: "nat list"
  promise_alive :: "nat \<Rightarrow> bool"
  promise_set :: "nat \<Rightarrow> bool"
  next_promise :: nat

type_synonym 'a usb_eff = "(usb, fault, 'a) eff"

section \<open>Gadgets\<close>

definition gadget_path :: "string \<Rightarrow> string \<Rightarrow> string" where
  "gadget_path gadgetName relativeFilePath =
     ''/sys/kernel/config/usb_gadget/'' @ gadgetName @ ''/'' @ relativeFilePath"

definition writeGadgetFile :: "string \<Rightarrow> string \<Rightarrow> string \<Rightarrow> unit usb_eff" where
  "writeGadgetFile gadgetName relativeFilePath content = (\<lambda>u.
     case configfs u (gadget_path gadgetName relativeFilePath) of
       None \<Rightarrow> throw Null_FILE u
     | Some _ \<Rightarrow> ret () (u\<lparr>configfs := (configfs u)
           (gadget_path gadgetName relativeFilePath \<mapsto> content @ [CHR 0x0A])\<rparr>))"

definition enableGadget :: "string \<Rightarrow> unit usb_eff" where
  "enableGadget gadgetName = (\<lambda>u. writeGadgetFile gadgetName ''UDC'' (c_str (s_udcName u)) u)"

definition disableGadget :: "string \<Rightarrow> unit usb_eff" where
  "disableGadget gadgetName = writeGadgetFile gadgetName ''UDC'' []"

definition switchToAccessoryGadget :: "unit usb_eff" where
  "switchToAccessoryGadget =
     andthen (disableGadget defaultGadgetName) (\<lambda>_. enableGadget accessoryGadgetName)"

definition disableGadgets :: "unit usb_eff" where
  "disableGadgets =
     andthen (disableGadget defaultGadgetName) (\<lambda>_. disableGadget accessoryGadgetName)"

text \<open>
  The constructor: both gadgets off, then the last entry of /sys/class/udc/ that does not start
  with a dot (None: the directory cannot be opened).
\<close>

definition UsbManager_init :: "string list option \<Rightarrow> unit usb_eff" where
  "UsbManager_init entries =
     andthen disableGadgets (\<lambda>_ u.
       case entries of
         None \<Rightarrow> ret () u
       | Some names \<Rightarrow>
           ret () (fold (\<lambda>d_name u. if starts_with ''.'' d_name then u else u\<lparr>s_udcName := d_name\<rparr>)
                     names u))"

text \<open>What the kernel sees: the controller a gadget is bound to, nothing for an empty line.\<close>

definition bound_udc :: "usb \<Rightarrow> string \<Rightarrow> string" where
  "bound_udc u g = (case configfs u (gadget_path g ''UDC'') of None \<Rightarrow> [] | Some c \<Rightarrow> getline c)"

definition gadgets_exist :: "usb \<Rightarrow> bool" where
  "gadgets_exist u \<longleftrightarrow> configfs u (gadget_path defaultGadgetName ''UDC'') \<noteq> None
     \<and> configfs u (gadget_path accessoryGadgetName ''UDC'') \<noteq> None"

definition udc_name_ok :: "usb \<Rightarrow> bool" where
  "udc_name_ok u \<longleftrightarrow> CHR 0x0A \<notin> set (s_udcName u) \<and> NUL \<notin> set (s_udcName u)"

text \<open>At most one gadget is bound.\<close>

definition exclusive :: "usb \<Rightarrow> bool" where
  "exclusive u \<longleftrightarrow> bound_udc u defaultGadgetName = [] \<or> bound_udc u accessoryGadgetName = []"

lemma gadget_paths_differ [simp]:
  "gadget_path defaultGadgetName ''UDC'' \<noteq> gadget_path accessoryGadgetName ''UDC''"
  "gadget_path accessoryGadgetName ''UDC'' \<noteq> gadget_path defaultGadgetName ''UDC''"
  by (simp_all add: gadget_path_def defaultGadgetName_def accessoryGadgetName_def)

lemma getline_newline: "CHR 0x0A \<notin> set s \<Longrightarrow> getline (s @ [CHR 0x0A]) = s"
  unfolding getline_def by (rule takeWhile_sep)

lemma c_str_id: "NUL \<notin> set s \<Longrightarrow> c_str s = s"
  by (auto simp: c_str_def takeWhile_eq_all_conv)

text \<open>Writing the UDC file of a gadget that exists.\<close>

definition set_udc :: "string \<Rightarrow> string \<Rightarrow> usb \<Rightarrow> usb" where
  "set_udc g v u = u\<lparr>configfs := (configfs u)(gadget_path g ''UDC'' \<mapsto> v @ [CHR 0x0A])\<rparr>"

lemma set_udc_frame [simp]:
  "s_udcName (set_udc g v u) = s_udcName u" "handlers (set_udc g v u) = handlers u"
  "promise_alive (set_udc g v u) = promise_alive u" "promise_set (set_udc g v u) = promise_set u"
  "next_promise (set_udc g v u) = next_promise u"
  by (simp_all add: set_udc_def)

lemma set_udc_exists [simp]: "gadgets_exist u \<Longrightarrow> gadgets_exist (set_udc g v u)"
  by (simp add: gadgets_exist_def set_udc_def)

lemma bound_set_udc [usb_simps]:
  "CHR 0x0A \<notin> set v \<Longrightarrow> bound_udc (set_udc g v u) g = v"
  "bound_udc (set_udc defaultGadgetName v u) accessoryGadgetName = bound_udc u accessoryGadgetName"
  "bound_udc (set_udc accessoryGadgetName v u) defaultGadgetName = bound_udc u defaultGadgetName"
  by (simp_all add: bound_udc_def set_udc_def getline_newline)

lemma writes_of_existing [usb_simps]:
  assumes "gadgets_exist u" "g = defaultGadgetName \<or> g = accessoryGadgetName"
  shows "enableGadget g u = (Inr (), set_udc g (c_str (s_udcName u)) u)"
    "disableGadget g u = (Inr (), set_udc g [] u)"
  using assms
  by (auto simp: enableGadget_def disableGadget_def writeGadgetFile_def gadgets_exist_def set_udc_def)

lemma switch_existing [usb_simps]:
  "gadgets_exist u \<Longrightarrow> switchToAccessoryGadget u =
     (Inr (), set_udc accessoryGadgetName (c_str (s_udcName u)) (set_udc defaultGadgetName [] u))"
  by (simp add: switchToAccessoryGadget_def writes_of_existing andthen_def)

lemma disable_existing [usb_simps]:
  "gadgets_exist u \<Longrightarrow> disableGadgets u =
     (Inr (), set_udc accessoryGadgetName [] (set_udc defaultGadgetName [] u))"
  by (simp add: disableGadgets_def writes_of_existing andthen_def)

text \<open>
  Switching to accessory mode leaves exactly the accessory gadget bound, to the controller
  found at start-up; switching off leaves none bound; neither touches anything but the two UDC
  files, and both keep at most one gadget bound at a time.
\<close>

lemma gadget_switching:
  assumes "gadgets_exist u" "udc_name_ok u"
  shows "\<exists>u1 u2. switchToAccessoryGadget u = (Inr (), u1)
    \<and> bound_udc u1 accessoryGadgetName = s_udcName u \<and> bound_udc u1 defaultGadgetName = []
    \<and> exclusive u1 \<and> gadgets_exist u1 \<and> u1\<lparr>configfs := configfs u\<rparr> = u
    \<and> disableGadgets u1 = (Inr (), u2)
    \<and> bound_udc u2 accessoryGadgetName = [] \<and> bound_udc u2 defaultGadgetName = []
    \<and> exclusive u2 \<and> gadgets_exist u2 \<and> u2\<lparr>configfs := configfs u\<rparr> = u"
proof -
  let ?u1 = "set_udc accessoryGadgetName (s_udcName u) (set_udc defaultGadgetName [] u)"
  let ?u2 = "set_udc accessoryGadgetName [] (set_udc defaultGadgetName [] ?u1)"
  have "switchToAccessoryGadget u = (Inr (), ?u1)" "disableGadgets ?u1 = (Inr (), ?u2)"
    using assms by (simp_all add: usb_simps c_str_id udc_name_ok_def)
  moreover have "bound_udc ?u1 accessoryGadgetName = s_udcName u"
    "bound_udc ?u1 defaultGadgetName = []" "bound_udc ?u2 accessoryGadgetName = []"
    "bound_udc ?u2 defaultGadgetName = []"
    using assms by (simp_all add: usb_simps udc_name_ok_def)
  moreover have "?u1\<lparr>configfs := configfs u\<rparr> = u" "?u2\<lparr>configfs := configfs u\<rparr> = u"
    by (simp_all add: set_udc_def)
  ultimately show ?thesis using assms by (auto simp: exclusive_def)
qed

definition demo_usb :: usb where
  "demo_usb = \<lparr>s_udcName = ''fe980000.usb'',
     configfs = [gadget_path defaultGadgetName ''UDC'' \<mapsto> [],
                 gadget_path accessoryGadgetName ''UDC'' \<mapsto> []],
     handlers = [], promise_alive = (\<lambda>_. False), promise_set = (\<lambda>_. False), next_promise = 0\<rparr>"

lemma demo_usb_ok: "gadgets_exist demo_usb" "udc_name_ok demo_usb"
  by (simp_all add: demo_usb_def gadgets_exist_def udc_name_ok_def)

lemma gadget_switching_witness:
  "\<exists>u1. switchToAccessoryGadget demo_usb = (Inr (), u1)
    \<and> bound_udc u1 accessoryGadgetName = ''fe980000.usb'' \<and> bound_udc u1 defaultGadgetName = []"
  using gadget_switching [OF demo_usb_ok] by (auto simp: demo_usb_def)

lemma fold_last_visible:
  "fold (\<lambda>d_name u. if starts_with ''.'' d_name then u else u\<lparr>s_udcName := d_name\<rparr>) names u
    = (let vis = filter (\<lambda>n. \<not> starts_with ''.'' n) names
       in if vis = [] then u else u\<lparr>s_udcName := last vis\<rparr>)"
  by (induction names arbitrary: u) (auto simp: Let_def)

text \<open>
  Start-up of the USB manager: both gadgets are switched off, and the controller to use from
  then on is the last visible entry of /sys/class/udc/; with none, or without the directory, the
  name stays as it was (empty in a fresh process).
\<close>

lemma usb_start_up:
  fixes entries :: "string list option"
  assumes "gadgets_exist u"
  defines "vis \<equiv> (case entries of None \<Rightarrow> [] | Some names \<Rightarrow> filter (\<lambda>n. \<not> starts_with ''.'' n) names)"
  shows "\<exists>u'. UsbManager_init entries u = (Inr (), u')
    \<and> s_udcName u' = (if vis = [] then s_udcName u else last vis)
    \<and> bound_udc u' defaultGadgetName = [] \<and> bound_udc u' accessoryGadgetName = []
    \<and> gadgets_exist u' \<and> handlers u' = handlers u"
proof -
  let ?v = "set_udc accessoryGadgetName [] (set_udc defaultGadgetName [] u)"
  have b: "bound_udc (w\<lparr>s_udcName := n\<rparr>) g = bound_udc w g" for w n g by (simp add: bound_udc_def)
  have e: "gadgets_exist (w\<lparr>s_udcName := n\<rparr>) = gadgets_exist w" for w n by (simp add: gadgets_exist_def)
  have "UsbManager_init entries u = (Inr (), if vis = [] then ?v else ?v\<lparr>s_udcName := last vis\<rparr>)"
    using assms(1) by (cases entries)
      (simp_all add: UsbManager_init_def usb_simps andthen_def fold_last_visible Let_def vis_def)
  moreover have "bound_udc ?v defaultGadgetName = []" "bound_udc ?v accessoryGadgetName = []" "gadgets_exist ?v"
    using assms(1) by (simp_all add: usb_simps)
  ultimately show ?thesis by (simp add: b e)
qed

lemma usb_start_up_witness:
  "\<exists>u'. UsbManager_init (Some [''.'', ''..'', ''a.usb'', ''b.usb'']) demo_usb = (Inr (), u')
    \<and> s_udcName u' = ''b.usb'' \<and> bound_udc u' accessoryGadgetName = []"
  using usb_start_up [OF demo_usb_ok(1), of "Some [''.'', ''..'', ''a.usb'', ''b.usb'']"] by auto

section \<open>Waiting for the accessory request\<close>

definition accessory_handler :: "nat \<Rightarrow> UeventEnv \<Rightarrow> bool usb_eff" where
  "accessory_handler p env = (\<lambda>u.
     if \<not> promise_alive u p then ret True u
     else if env ''DEVNAME'' \<noteq> Some ''usb_accessory'' then ret False u
     else if env ''ACCESSORY'' \<noteq> Some ''START'' then ret False u
     else andthen switchToAccessoryGadget (\<lambda>_ u.
            if promise_set u p then throw Promise_already_satisfied u
            else ret True (u\<lparr>promise_set := (promise_set u)(p := True)\<rparr>)) u)"

text \<open>One message of the monitor thread, on the handlers registered here.\<close>

definition usb_uevent :: "list_impl \<Rightarrow> UeventEnv \<Rightarrow> unit usb_eff" where
  "usb_uevent impl env = (\<lambda>u.
     case call_handlers impl (\<lambda>h. accessory_handler h env) [] (handlers u) u of
       (Inl e, u') \<Rightarrow> (Inl e, u')
     | (Inr hs, u') \<Rightarrow> (Inr (), u'\<lparr>handlers := hs\<rparr>))"

text \<open>The messages that arrive while the caller waits on the future of promise p.\<close>

fun wait_for :: "list_impl \<Rightarrow> nat \<Rightarrow> UeventEnv list \<Rightarrow> bool usb_eff" where
  "wait_for impl p [] u = ret (promise_set u p) u"
| "wait_for impl p (env # evs) u =
     (if promise_set u p then ret True u
      else (case usb_uevent impl env u of
              (Inl e, u') \<Rightarrow> (Inl e, u')
            | (Inr _, u') \<Rightarrow> wait_for impl p evs u'))"

text \<open>
  evs are the messages of the time the call waits (at most timeout milliseconds, without end for
  0).  None is the wait that is still going on; the shared_ptr is released on return, so the
  promise dies with the call.
\<close>

definition enableDefaultAndWaitForAccessory ::
    "list_impl \<Rightarrow> nat \<Rightarrow> UeventEnv list \<Rightarrow> bool option usb_eff" where
  "enableDefaultAndWaitForAccessory impl timeout evs = (\<lambda>u.
     let p = next_promise u;
         u = u\<lparr>next_promise := Suc p, promise_alive := (promise_alive u)(p := True),
               promise_set := (promise_set u)(p := False),
               handlers := addHandler p (handlers u)\<rparr>
     in andthen (enableGadget defaultGadgetName) (\<lambda>_.
          andthen (wait_for impl p evs) (\<lambda>ready u.
            if timeout = 0
            then (if ready then ret (Some True) (u\<lparr>promise_alive := (promise_alive u)(p := False)\<rparr>)
                  else ret None u)
            else ret (Some ready) (u\<lparr>promise_alive := (promise_alive u)(p := False)\<rparr>))) u)"

definition is_start :: "UeventEnv \<Rightarrow> bool" where
  "is_start env \<longleftrightarrow> env ''DEVNAME'' = Some ''usb_accessory'' \<and> env ''ACCESSORY'' = Some ''START''"

lemma accessory_handler_dead [usb_simps]:
  "\<not> promise_alive u p \<Longrightarrow> accessory_handler p env u = (Inr True, u)"
  by (simp add: accessory_handler_def)

lemma accessory_handler_other [usb_simps]:
  "promise_alive u p \<Longrightarrow> \<not> is_start env \<Longrightarrow> accessory_handler p env u = (Inr False, u)"
  by (auto simp: accessory_handler_def is_start_def)

definition accessory_mode :: "nat \<Rightarrow> usb \<Rightarrow> usb" where
  "accessory_mode p u =
     (set_udc accessoryGadgetName (c_str (s_udcName u)) (set_udc defaultGadgetName [] u))
       \<lparr>promise_set := (promise_set u)(p := True)\<rparr>"

lemma accessory_handler_start [usb_simps]:
  "promise_alive u p \<Longrightarrow> is_start env \<Longrightarrow> gadgets_exist u \<Longrightarrow> \<not> promise_set u p
   \<Longrightarrow> accessory_handler p env u = (Inr True, accessory_mode p u)"
  by (simp add: accessory_handler_def is_start_def andthen_def usb_simps accessory_mode_def)

lemma accessory_mode_frame [simp]:
  "handlers (accessory_mode p u) = handlers u" "promise_set (accessory_mode p u) p"
  "gadgets_exist u \<Longrightarrow> gadgets_exist (accessory_mode p u)"
  "s_udcName (accessory_mode p u) = s_udcName u"
  "promise_alive (accessory_mode p u) = promise_alive u"
proof -
  show "gadgets_exist (accessory_mode p u)" if "gadgets_exist u"
    using that by (simp add: accessory_mode_def gadgets_exist_def set_udc_def)
qed (simp_all add: accessory_mode_def)

lemma bound_accessory_mode [usb_simps]:
  assumes "udc_name_ok u"
  shows "bound_udc (accessory_mode p u) accessoryGadgetName = s_udcName u"
    "bound_udc (accessory_mode p u) defaultGadgetName = []"
proof -
  have b: "bound_udc (u\<lparr>promise_set := f\<rparr>) g = bound_udc u g" for u f g
    by (simp add: bound_udc_def)
  show "bound_udc (accessory_mode p u) accessoryGadgetName = s_udcName u"
    "bound_udc (accessory_mode p u) defaultGadgetName = []"
    using assms by (simp_all add: accessory_mode_def b usb_simps c_str_id udc_name_ok_def)
qed

text \<open>With one live handler, other messages change nothing, the request switches over.\<close>

lemma usb_uevent_other:
  "handlers u = [p] \<Longrightarrow> promise_alive u p \<Longrightarrow> \<not> is_start env \<Longrightarrow> usb_uevent impl env u = (Inr (), u)"
  by (simp add: usb_uevent_def usb_simps)

lemma usb_uevent_start:
  assumes "handlers u = [p]" "promise_alive u p" "is_start env" "gadgets_exist u" "\<not> promise_set u p"
  shows "usb_uevent Iso env u = (Inl Past_end_iterator, accessory_mode p u)"
    "usb_uevent Ring env u = (Inr (), (accessory_mode p u)\<lparr>handlers := []\<rparr>)"
  using assms by (simp_all add: usb_uevent_def usb_simps)

lemma wait_for_noise:
  assumes "handlers u = [p]" "promise_alive u p" "\<not> promise_set u p" "\<forall>env \<in> set evs. \<not> is_start env"
  shows "wait_for impl p (evs @ rest) u = wait_for impl p rest u"
  using assms by (induction evs) (auto simp: usb_uevent_other)

lemma wait_for_set: "promise_set u p \<Longrightarrow> wait_for impl p evs u = (Inr True, u)"
  by (cases evs) simp_all

text \<open>The state in which the caller starts to wait.\<close>

definition waiting :: "usb \<Rightarrow> usb" where
  "waiting u = set_udc defaultGadgetName (c_str (s_udcName u))
     (u\<lparr>next_promise := Suc (next_promise u),
        promise_alive := (promise_alive u)(next_promise u := True),
        promise_set := (promise_set u)(next_promise u := False),
        handlers := addHandler (next_promise u) (handlers u)\<rparr>)"

lemma enableDefaultAndWait_eq:
  assumes "gadgets_exist u"
  shows "enableDefaultAndWaitForAccessory impl timeout evs u =
    andthen (wait_for impl (next_promise u) evs) (\<lambda>ready v.
      if timeout = 0
      then (if ready then ret (Some True) (v\<lparr>promise_alive := (promise_alive v)(next_promise u := False)\<rparr>)
            else ret None v)
      else ret (Some ready) (v\<lparr>promise_alive := (promise_alive v)(next_promise u := False)\<rparr>))
      (waiting u)"
proof -
  let ?v = "u\<lparr>next_promise := Suc (next_promise u),
        promise_alive := (promise_alive u)(next_promise u := True),
        promise_set := (promise_set u)(next_promise u := False),
        handlers := addHandler (next_promise u) (handlers u)\<rparr>"
  have "gadgets_exist ?v" using assms by (simp add: gadgets_exist_def)
  from writes_of_existing(1) [OF this, of defaultGadgetName]
  have "enableGadget defaultGadgetName ?v = (Inr (), waiting u)" by (simp add: waiting_def)
  then show ?thesis by (simp add: enableDefaultAndWaitForAccessory_def Let_def andthen_def)
qed

lemma waiting_frame [simp]:
  "handlers (waiting u) = handlers u @ [next_promise u]"
  "promise_alive (waiting u) (next_promise u)" "\<not> promise_set (waiting u) (next_promise u)"
  "gadgets_exist u \<Longrightarrow> gadgets_exist (waiting u)" "s_udcName (waiting u) = s_udcName u"
proof -
  show "gadgets_exist (waiting u)" if "gadgets_exist u"
    using that by (simp add: waiting_def gadgets_exist_def set_udc_def)
qed (simp_all add: waiting_def addHandler_def)

lemma udc_name_ok_waiting [simp]: "udc_name_ok (waiting u) = udc_name_ok u"
  by (simp add: udc_name_ok_def)

lemma wait_for_request:
  assumes "gadgets_exist u" "handlers u = []" "\<forall>env \<in> set noise. \<not> is_start env" "is_start env"
  defines "w \<equiv> waiting u" and "p \<equiv> next_promise u"
  shows "wait_for Ring p (noise @ env # rest) w = (Inr True, (accessory_mode p w)\<lparr>handlers := []\<rparr>)"
    "wait_for Iso p (noise @ env # rest) w = (Inl Past_end_iterator, accessory_mode p w)"
proof -
  have w: "handlers w = [p]" "promise_alive w p" "\<not> promise_set w p" "gadgets_exist w"
    using assms by simp_all
  note start = usb_uevent_start [OF w(1,2) assms(4) w(4,3)]
  show "wait_for Ring p (noise @ env # rest) w = (Inr True, (accessory_mode p w)\<lparr>handlers := []\<rparr>)"
    "wait_for Iso p (noise @ env # rest) w = (Inl Past_end_iterator, accessory_mode p w)"
    using w start by (simp_all add: wait_for_noise [OF w(1,2,3) assms(3)] wait_for_set)
qed

lemma bound_udc_frame [simp]:
  "bound_udc (v\<lparr>handlers := hs\<rparr>) g = bound_udc v g"
  "bound_udc (v\<lparr>promise_alive := f\<rparr>) g = bound_udc v g"
  "bound_udc (v\<lparr>promise_set := f\<rparr>) g = bound_udc v g"
  by (simp_all add: bound_udc_def)

text \<open>
  C27. The wait for the car, with no handler left over from an earlier wait and a ring-shaped
  handler list.  While messages other than the accessory request arrive the call goes on
  waiting; at the request the accessory gadget replaces the default one, bound to the controller
  found at start-up, and the call returns true with its handler gone and its promise dead.
\<close>

theorem accessory_request_switches:
  assumes "gadgets_exist u" "udc_name_ok u" "handlers u = []"
    "\<forall>env \<in> set noise. \<not> is_start env" "is_start env"
  shows "\<exists>u1. enableDefaultAndWaitForAccessory Ring timeout (noise @ env # rest) u
        = (Inr (Some True), u1)
      \<and> bound_udc u1 accessoryGadgetName = s_udcName u \<and> bound_udc u1 defaultGadgetName = []
      \<and> handlers u1 = [] \<and> \<not> promise_alive u1 (next_promise u)"
  using wait_for_request(1) [OF assms(1,3,4,5), of rest] assms(1,2)
    bound_accessory_mode [of "waiting u" "next_promise u"]
  by (simp add: enableDefaultAndWait_eq)

definition start_env :: UeventEnv where
  "start_env = [''DEVNAME'' \<mapsto> ''usb_accessory'', ''ACCESSORY'' \<mapsto> ''START'']"

lemma start_env_is_start: "is_start start_env" "\<not> is_start Map.empty"
  by (simp_all add: is_start_def start_env_def)

theorem accessory_request_switches_witness:
  "\<exists>u1. enableDefaultAndWaitForAccessory Ring 30000 [Map.empty, start_env] demo_usb
      = (Inr (Some True), u1) \<and> bound_udc u1 accessoryGadgetName = ''fe980000.usb''"
  using accessory_request_switches [OF demo_usb_ok, of "[Map.empty]" start_env 30000 "[]"]
    start_env_is_start by (auto simp: demo_usb_def)

text \<open>
  C28. From the bytes of the kernel to the handlers.  On every sequence of failing reads and
  well-formed messages that fit the buffer, the monitor thread does exactly what the contract of
  addHandler says, for a single handler (the one of the wait for the car; with std::list kept as
  a ring) and for any number of handlers that never ask to be removed: for each message, in
  order, every registered handler is called with the map of the message's assignments, those that
  return true are removed, and a fault of a handler ends the thread at that point.
\<close>

theorem monitor_is_dispatch:
  assumes "length msg = NETLINK_MSG_SIZE + 1" "\<forall>m \<in> set ms. wf_message m"
    and "impl = Ring \<and> length hs \<le> 1 \<or> (\<forall>h \<in> set hs. stays call h)"
  shows "monitorLoop impl call (map netlink ms) msg hs s = dispatch_events call (events_of ms) hs s"
  using assms(3) by (intro monitor_dispatches [OF assms(1,2)]) (simp add: undisturbed_def)

text \<open>
  The handler of a wait: another message comes, then the request of the car, then a third one,
  for which no handler is left.
\<close>

definition demo_messages :: "kernel_message option list" where
  "demo_messages = [Some (''add@/x'', [(''A'', ''b'')]), None,
     Some (''change@/y'', [(''DEVNAME'', ''usb_accessory''), (''ACCESSORY'', ''START'')]),
     Some (''change@/y'', [(''DEVNAME'', ''usb_accessory''), (''ACCESSORY'', ''START'')])]"

theorem monitor_is_dispatch_witness:
  "\<exists>u. monitorLoop Ring accessory_handler (map netlink demo_messages) (replicate (NETLINK_MSG_SIZE + 1) NUL) [0]
        (demo_usb\<lparr>promise_alive := (\<lambda>_. True)\<rparr>) = (Inr [], u)
    \<and> promise_set u 0 \<and> bound_udc u accessoryGadgetName = ''fe980000.usb''"
proof -
  let ?u = "demo_usb\<lparr>promise_alive := (\<lambda>_. True)\<rparr>"
  have wf: "\<forall>m \<in> set demo_messages. wf_message m"
    by (simp add: demo_messages_def wf_assignment_def render_env_def NETLINK_MSG_SIZE_def)
  let ?v = "set_udc accessoryGadgetName ''fe980000.usb'' (set_udc defaultGadgetName [] ?u)"
  have name: "s_udcName ?u = ''fe980000.usb''" "\<not> promise_set ?v 0" by (simp_all add: demo_usb_def)
  have "gadgets_exist ?u" using demo_usb_ok(1) by (simp add: gadgets_exist_def)
  then have sw: "switchToAccessoryGadget ?u = (Inr (), ?v)"
    using demo_usb_ok(2) name(1) by (simp add: switch_existing c_str_id udc_name_ok_def)
  have "bound_udc ?v accessoryGadgetName = ''fe980000.usb''" by (rule bound_set_udc(1)) simp
  then have "bound_udc (?v\<lparr>promise_set := f\<rparr>) accessoryGadgetName = ''fe980000.usb''" for f
    by (simp add: bound_udc_def)
  with sw name have "\<exists>u. dispatch_events accessory_handler (events_of demo_messages) [0] ?u = (Inr [], u)
      \<and> promise_set u 0 \<and> bound_udc u accessoryGadgetName = ''fe980000.usb''"
    by (simp add: demo_messages_def accessory_handler_def andthen_def)
  with monitor_is_dispatch [of "replicate (NETLINK_MSG_SIZE + 1) NUL" demo_messages Ring "[0]" accessory_handler ?u] wf
  show ?thesis by (simp del: monitorLoop.simps netlink.simps list.map replicate.simps)
qed

text \<open>
  C38. In ISO C++ the very same request (the only handler fires and is erased) ends in an
  increment of a past-the-end iterator, after the gadgets have been switched: the normal way
  into accessory mode is undefined behaviour.
\<close>

theorem accessory_request_past_end:
  assumes "gadgets_exist u" "udc_name_ok u" "handlers u = []"
    "\<forall>env \<in> set noise. \<not> is_start env" "is_start env"
  shows "\<exists>u2. enableDefaultAndWaitForAccessory Iso timeout (noise @ env # rest) u
        = (Inl Past_end_iterator, u2)
      \<and> bound_udc u2 accessoryGadgetName = s_udcName u \<and> bound_udc u2 defaultGadgetName = []"
  using wait_for_request(2) [OF assms(1,3,4,5), of rest] assms(1,2)
    bound_accessory_mode [of "waiting u" "next_promise u"]
  by (simp add: enableDefaultAndWait_eq)

theorem accessory_request_past_end_witness:
  "\<exists>u2. enableDefaultAndWaitForAccessory Iso 30000 [start_env] demo_usb
      = (Inl Past_end_iterator, u2) \<and> bound_udc u2 accessoryGadgetName = ''fe980000.usb''"
  using accessory_request_past_end [OF demo_usb_ok, of "[]" start_env 30000 "[]"]
    start_env_is_start by (auto simp: demo_usb_def)

text \<open>
  When the time runs out without a request the call returns false with the default gadget
  still bound; its handler stays registered although its promise is dead.
\<close>

lemma accessory_wait_times_out:
  assumes "gadgets_exist u" "udc_name_ok u" "handlers u = []"
    "\<forall>env \<in> set evs. \<not> is_start env" "0 < timeout"
  shows "\<exists>u1. enableDefaultAndWaitForAccessory impl timeout evs u = (Inr (Some False), u1)
      \<and> bound_udc u1 defaultGadgetName = s_udcName u
      \<and> bound_udc u1 accessoryGadgetName = bound_udc u accessoryGadgetName
      \<and> handlers u1 = [next_promise u] \<and> \<not> promise_alive u1 (next_promise u)"
proof -
  let ?w = "waiting u" and ?p = "next_promise u"
  have w: "handlers ?w = [?p]" "promise_alive ?w ?p" "\<not> promise_set ?w ?p"
    using assms by simp_all
  have "wait_for impl ?p evs ?w = (Inr False, ?w)"
    using wait_for_noise [OF w assms(4), of impl "[]"] by simp
  moreover have "bound_udc ?w defaultGadgetName = s_udcName u"
    "bound_udc ?w accessoryGadgetName = bound_udc u accessoryGadgetName"
    using assms(2) by (simp_all add: waiting_def usb_simps c_str_id udc_name_ok_def bound_udc_def set_udc_def getline_newline)
  ultimately show ?thesis using assms(1,3,5) by (simp add: enableDefaultAndWait_eq andthen_def)
qed

lemma accessory_wait_times_out_witness:
  "\<exists>u1. enableDefaultAndWaitForAccessory Iso 30000 [Map.empty] demo_usb = (Inr (Some False), u1)
      \<and> bound_udc u1 defaultGadgetName = ''fe980000.usb'' \<and> handlers u1 = [0]"
  using accessory_wait_times_out [OF demo_usb_ok, of "[Map.empty]" 30000 Iso] start_env_is_start
  by (auto simp: demo_usb_def)

text \<open>
  The handler a timed-out wait leaves behind swallows the next message: the handler of a new
  wait, registered behind it, does not see that message, even when it is the accessory request.
  Nothing is switched and the new wait goes on.
\<close>

lemma stale_handler_swallows_event:
  assumes "handlers u = [p1, p2]" "\<not> promise_alive u p1"
  shows "usb_uevent impl env u = (Inr (), u\<lparr>handlers := [p2]\<rparr>)"
  using assms by (simp add: usb_uevent_def usb_simps)

lemma stale_handler_swallows_event_witness:
  "is_start start_env \<and> usb_uevent Ring start_env
       (demo_usb\<lparr>handlers := [0, 1], promise_alive := (\<lambda>p. p = 1)\<rparr>)
     = (Inr (), demo_usb\<lparr>handlers := [1], promise_alive := (\<lambda>p. p = 1)\<rparr>)"
  using stale_handler_swallows_event
    [of "demo_usb\<lparr>handlers := [0, 1], promise_alive := (\<lambda>p. p = 1)\<rparr>" 0 1 Ring start_env]
    start_env_is_start by simp

end
