(* ===== verification/Transition.thy ===== *)
theory Transition
  imports Main
begin

text \<open>
  What the concurrent models of the development share: a step relation labelled with the thread
  that moves, its runs as lists of labels, and the two ways facts are proved of every run, an
  invariant and a measure that every step decreases.
\<close>

inductive trace :: "('t \<Rightarrow> 's \<Rightarrow> 's \<Rightarrow> bool) \<Rightarrow> 's \<Rightarrow> 't list \<Rightarrow> 's \<Rightarrow> bool"
  for step :: "'t \<Rightarrow> 's \<Rightarrow> 's \<Rightarrow> bool" where
  trace_nil: "trace step s [] s"
| trace_cons: "step t s s1 \<Longrightarrow> trace step s1 ts s2 \<Longrightarrow> trace step s (t # ts) s2"

inductive_cases trace_consE: "trace step s (t # ts) s'"
inductive_simps trace_nil_iff [simp]: "trace step s [] s'"
inductive_simps trace_cons_iff: "trace step s (t # ts) s'"

lemma trace_append: "trace step s ts s1 \<Longrightarrow> trace step s1 us s2 \<Longrightarrow> trace step s (ts @ us) s2"
  by (induction rule: trace.induct) (auto intro: trace.intros)

lemma trace_snoc: "trace step s ts s1 \<Longrightarrow> step t s1 s2 \<Longrightarrow> trace step s (ts @ [t]) s2"
  by (blast intro: trace_append trace.intros)

lemma trace_split: "trace step s (ts @ us) s2 \<Longrightarrow> \<exists>s1. trace step s ts s1 \<and> trace step s1 us s2"
  by (induction ts arbitrary: s) (force simp: trace_cons_iff)+

text \<open>A deterministic system: the step of each thread is a partial function.\<close>

definition step_of :: "('t \<Rightarrow> 's \<Rightarrow> 's option) \<Rightarrow> 't \<Rightarrow> 's \<Rightarrow> 's \<Rightarrow> bool" where
  "step_of f t s s' \<longleftrightarrow> f t s = Some s'"

fun run_schedule :: "('t \<Rightarrow> 's \<Rightarrow> 's option) \<Rightarrow> 't list \<Rightarrow> 's \<Rightarrow> 's option" where
  "run_schedule f [] s = Some s"
| "run_schedule f (t # ts) s = (case f t s of None \<Rightarrow> None | Some s1 \<Rightarrow> run_schedule f ts s1)"

lemma run_schedule_iff: "run_schedule f ts s = Some s' \<longleftrightarrow> trace (step_of f) s ts s'"
  by (induction ts arbitrary: s) (auto simp: trace_cons_iff step_of_def split: option.splits)

locale invariant_system =
  fixes init :: "'s \<Rightarrow> bool" and step :: "'t \<Rightarrow> 's \<Rightarrow> 's \<Rightarrow> bool" and inv :: "'s \<Rightarrow> bool"
  assumes inv_init: "init s \<Longrightarrow> inv s"
    and inv_step: "inv s \<Longrightarrow> step t s s' \<Longrightarrow> inv s'"
begin

lemma inv_trace: "trace step s ts s' \<Longrightarrow> inv s \<Longrightarrow> inv s'"
  by (induction rule: trace.induct) (auto intro: inv_step)

lemma inv_reached: "init s \<Longrightarrow> trace step s ts s' \<Longrightarrow> inv s'"
  by (blast intro: inv_trace inv_init)

end

text \<open>Under an invariant, a measure that every step decreases bounds the length of the runs.\<close>

locale measured_system = invariant_system init step inv
  for init :: "'s \<Rightarrow> bool" and step :: "'t \<Rightarrow> 's \<Rightarrow> 's \<Rightarrow> bool" and inv :: "'s \<Rightarrow> bool" +
  fixes left :: "'s \<Rightarrow> nat"
  assumes left_step: "inv s \<Longrightarrow> step t s s' \<Longrightarrow> left s' < left s"
begin

lemma trace_bounded: "trace step s ts s' \<Longrightarrow> inv s \<Longrightarrow> length ts + left s' \<le> left s"
proof (induction rule: trace.induct)
  case (trace_nil s)
  then show ?case by simp
next
  case (trace_cons t s s1 ts s2)
  from trace_cons.IH inv_step [OF trace_cons.prems trace_cons.hyps(1)]
    left_step [OF trace_cons.prems trace_cons.hyps(1)]
  show ?case by simp
qed

text \<open>Every run can be continued to one at whose end no thread can move.\<close>

lemma runs_on:
  assumes "inv s"
  shows "\<exists>ts s'. trace step s ts s' \<and> inv s' \<and> (\<forall>t s''. \<not> step t s' s'')"
  using assms
proof (induction "left s" arbitrary: s rule: less_induct)
  case less
  show ?case
  proof (cases "\<exists>t s1. step t s s1")
    case True
    then obtain t s1 where st: "step t s s1" by blast
    from less.hyps [OF left_step [OF less.prems st]] inv_step [OF less.prems st] st
    show ?thesis by (blast intro: trace_cons)
  next
    case False
    with less.prems show ?thesis by (blast intro: trace_nil)
  qed
qed

end

end
