(* ===== verification/AccessoryWait.thy ===== *)
theory AccessoryWait
  imports Usb Transition
begin

text \<open>
  The wait for the accessory request as two threads live it (enableDefaultAndWaitForAccessory and
  its handler in usb.cpp, the clean-up in aawgd.cpp).  The waiting thread registers the handler,
  enables the default gadget, waits for the promise or its timeout, and the main loop later
  switches both gadgets off; the monitor thread calls the handler, which takes hold of the
  promise, switches the gadgets and sets the promise.  The gadgets are those of Usb; the steps
  are the accesses to what the threads share.  Usb runs the handler within the wait; here the two
  threads move in any order.  Of the messages only the accessory request is a step: any other one
  at most erases the handler of a promise that is gone.
\<close>

named_theorems wait_simps \<open>evaluation of the two threads\<close>

section \<open>States and steps\<close>

text \<open>
  The waiting thread, and what follows it: before addHandler, before the default gadget is
  enabled, in the wait, returned, before each of the two writes of the clean-up, over.
\<close>

datatype waiter_pc = A_Add | A_Enable | A_Wait | A_Back | A_Off_default | A_Off_accessory | A_Over

text \<open>
  The monitor thread: reading, in the handler at the lock of the weak pointer, and with the
  promise before the default gadget is switched off, before the accessory gadget is switched on
  (it sleeps for 100 ms there), and before set_value.
\<close>

datatype monitor_pc = U_Idle | U_Called | U_Locked | U_Off | U_On

text \<open>
  requests is the number of accessory requests the kernel has sent and the monitor has not read;
  registered says whether the handler is in the list, owned whether the waiting thread still
  holds the promise, answered whether the promise is set.
\<close>

record waiting_state =
  gadgets :: usb
  waiter_at :: waiter_pc
  monitor_at :: monitor_pc
  requests :: nat
  registered :: bool
  owned :: bool
  answered :: bool
  result :: "bool option"

text \<open>The car sends a request only to the default gadget, so only while that is bound.\<close>

datatype wait_actor = Waiter | Timer | Monitor | Car

definition on_gadgets :: "unit usb_eff \<Rightarrow> waiting_state \<Rightarrow> waiting_state option" where
  "on_gadgets f s = (case f (gadgets s) of (Inl e, u) \<Rightarrow> None | (Inr _, u) \<Rightarrow> Some (s\<lparr>gadgets := u\<rparr>))"

definition wait_returns :: "bool \<Rightarrow> waiting_state \<Rightarrow> waiting_state" where
  "wait_returns ok s = s\<lparr>waiter_at := A_Back, owned := False, result := Some ok\<rparr>"

text \<open>
  The clean-up of the main loop, UsbManager::disableGadget: one write for each gadget.
\<close>

definition clean_up_step :: "waiting_state \<Rightarrow> waiting_state option" where
  "clean_up_step s = (case waiter_at s of
      A_Off_default \<Rightarrow> on_gadgets (disableGadget defaultGadgetName) (s\<lparr>waiter_at := A_Off_accessory\<rparr>)
    | A_Off_accessory \<Rightarrow> on_gadgets (disableGadget accessoryGadgetName) (s\<lparr>waiter_at := A_Over\<rparr>)
    | _ \<Rightarrow> None)"

text \<open>A_Back stands for what lies between the return of the wait and the clean-up.\<close>

definition waiter_step :: "waiting_state \<Rightarrow> waiting_state option" where
  "waiter_step s = (case waiter_at s of
      A_Add \<Rightarrow> Some (s\<lparr>waiter_at := A_Enable, registered := True\<rparr>)
    | A_Enable \<Rightarrow> on_gadgets (enableGadget defaultGadgetName) (s\<lparr>waiter_at := A_Wait\<rparr>)
    | A_Wait \<Rightarrow> if answered s then Some (wait_returns True s) else None
    | A_Back \<Rightarrow> Some (s\<lparr>waiter_at := A_Off_default\<rparr>)
    | _ \<Rightarrow> clean_up_step s)"

definition timer_step :: "bool \<Rightarrow> waiting_state \<Rightarrow> waiting_state option" where
  "timer_step limited s =
     (if limited \<and> waiter_at s = A_Wait \<and> \<not> answered s then Some (wait_returns False s) else None)"

definition monitor_step :: "waiting_state \<Rightarrow> waiting_state option" where
  "monitor_step s = (case monitor_at s of
      U_Idle \<Rightarrow> if 0 < requests s
        then Some (s\<lparr>requests := requests s - 1, monitor_at := (if registered s then U_Called else U_Idle)\<rparr>)
        else None
    | U_Called \<Rightarrow> Some (if owned s then s\<lparr>monitor_at := U_Locked\<rparr>
                       else s\<lparr>monitor_at := U_Idle, registered := False\<rparr>)
    | U_Locked \<Rightarrow> on_gadgets (disableGadget defaultGadgetName) (s\<lparr>monitor_at := U_Off\<rparr>)
    | U_Off \<Rightarrow> on_gadgets (enableGadget accessoryGadgetName) (s\<lparr>monitor_at := U_On\<rparr>)
    | U_On \<Rightarrow> Some (s\<lparr>monitor_at := U_Idle, registered := False, answered := True\<rparr>))"

definition car_step :: "waiting_state \<Rightarrow> waiting_state option" where
  "car_step s = (if bound_udc (gadgets s) defaultGadgetName \<noteq> [] then Some (s\<lparr>requests := Suc (requests s)\<rparr>) else None)"

text \<open>limited says whether the wait has a timeout (30 seconds in handleClient, none in main).\<close>

definition wait_step :: "bool \<Rightarrow> wait_actor \<Rightarrow> waiting_state \<Rightarrow> waiting_state option" where
  "wait_step limited a s = (case a of
      Waiter \<Rightarrow> waiter_step s | Timer \<Rightarrow> timer_step limited s | Monitor \<Rightarrow> monitor_step s | Car \<Rightarrow> car_step s)"

definition wait_start :: "usb \<Rightarrow> waiting_state" where
  "wait_start u = \<lparr>gadgets = u, waiter_at = A_Add, monitor_at = U_Idle, requests = 0, registered = False,
     owned = True, answered = False, result = None\<rparr>"

definition all_off :: "usb \<Rightarrow> bool" where
  "all_off u \<longleftrightarrow> bound_udc u defaultGadgetName = [] \<and> bound_udc u accessoryGadgetName = []"

section \<open>What the steps do to the gadgets\<close>

definition default_on :: "waiting_state \<Rightarrow> bool" where
  "default_on s \<longleftrightarrow> bound_udc (gadgets s) defaultGadgetName \<noteq> []"

definition accessory_udc :: "waiting_state \<Rightarrow> string" where
  "accessory_udc s = bound_udc (gadgets s) accessoryGadgetName"

definition gadgets_ok :: "string \<Rightarrow> waiting_state \<Rightarrow> bool" where
  "gadgets_ok udc s \<longleftrightarrow> gadgets_exist (gadgets s) \<and> udc_name_ok (gadgets s) \<and> s_udcName (gadgets s) = udc"

definition set_gadget :: "string \<Rightarrow> string \<Rightarrow> waiting_state \<Rightarrow> waiting_state" where
  "set_gadget g v s = s\<lparr>gadgets := set_udc g v (gadgets s)\<rparr>"

lemma set_gadget_frame [wait_simps]:
  "waiter_at (set_gadget g v s) = waiter_at s" "monitor_at (set_gadget g v s) = monitor_at s"
  "requests (set_gadget g v s) = requests s" "registered (set_gadget g v s) = registered s"
  "owned (set_gadget g v s) = owned s" "answered (set_gadget g v s) = answered s"
  "result (set_gadget g v s) = result s"
  by (simp_all add: set_gadget_def)

lemma udc_name_ok_set: "udc_name_ok (set_udc g v u) = udc_name_ok u"
  by (simp add: udc_name_ok_def)

lemma set_gadget_bound [wait_simps]:
  "gadgets_ok udc s \<Longrightarrow> gadgets_ok udc (set_gadget g v s)"
  "default_on (set_gadget accessoryGadgetName v s) = default_on s"
  "accessory_udc (set_gadget defaultGadgetName v s) = accessory_udc s"
  "\<not> default_on (set_gadget defaultGadgetName [] s)"
  "accessory_udc (set_gadget accessoryGadgetName [] s) = []"
  "gadgets_ok udc s \<Longrightarrow> accessory_udc (set_gadget accessoryGadgetName udc s) = udc"
  by (auto simp: gadgets_ok_def default_on_def accessory_udc_def set_gadget_def udc_name_ok_set
      bound_set_udc udc_name_ok_def)

lemma gadgets_of_same [wait_simps]:
  "gadgets_ok udc (s\<lparr>waiter_at := y0\<rparr>) = gadgets_ok udc s" "default_on (s\<lparr>waiter_at := y0\<rparr>) = default_on s"
  "accessory_udc (s\<lparr>waiter_at := y0\<rparr>) = accessory_udc s"
  "gadgets_ok udc (s\<lparr>monitor_at := y1\<rparr>) = gadgets_ok udc s" "default_on (s\<lparr>monitor_at := y1\<rparr>) = default_on s"
  "accessory_udc (s\<lparr>monitor_at := y1\<rparr>) = accessory_udc s"
  "gadgets_ok udc (s\<lparr>requests := y2\<rparr>) = gadgets_ok udc s" "default_on (s\<lparr>requests := y2\<rparr>) = default_on s"
  "accessory_udc (s\<lparr>requests := y2\<rparr>) = accessory_udc s"
  "gadgets_ok udc (s\<lparr>registered := y3\<rparr>) = gadgets_ok udc s" "default_on (s\<lparr>registered := y3\<rparr>) = default_on s"
  "accessory_udc (s\<lparr>registered := y3\<rparr>) = accessory_udc s"
  "gadgets_ok udc (s\<lparr>owned := y4\<rparr>) = gadgets_ok udc s" "default_on (s\<lparr>owned := y4\<rparr>) = default_on s"
  "accessory_udc (s\<lparr>owned := y4\<rparr>) = accessory_udc s"
  "gadgets_ok udc (s\<lparr>answered := y5\<rparr>) = gadgets_ok udc s" "default_on (s\<lparr>answered := y5\<rparr>) = default_on s"
  "accessory_udc (s\<lparr>answered := y5\<rparr>) = accessory_udc s"
  "gadgets_ok udc (s\<lparr>result := y6\<rparr>) = gadgets_ok udc s" "default_on (s\<lparr>result := y6\<rparr>) = default_on s"
  "accessory_udc (s\<lparr>result := y6\<rparr>) = accessory_udc s"
  by (simp_all add: gadgets_ok_def default_on_def accessory_udc_def)

lemma on_gadgets_exist:
  assumes "gadgets_ok udc s" "g = defaultGadgetName \<or> g = accessoryGadgetName"
  shows "on_gadgets (enableGadget g) s = Some (set_gadget g udc s)"
    "on_gadgets (disableGadget g) s = Some (set_gadget g [] s)"
  using assms by (auto simp: on_gadgets_def gadgets_ok_def set_gadget_def writes_of_existing c_str_id udc_name_ok_def)

section \<open>The invariant\<close>

text \<open>Where the two threads are; which gadget may be bound; what the wait may have returned.\<close>

definition order_inv :: "waiting_state \<Rightarrow> bool" where
  "order_inv s \<longleftrightarrow>
     (waiter_at s \<in> {A_Add, A_Enable} \<longrightarrow> requests s = 0 \<and> monitor_at s = U_Idle \<and> \<not> answered s)
   \<and> (owned s \<longleftrightarrow> waiter_at s \<in> {A_Add, A_Enable, A_Wait}) \<and> (result s = None \<longleftrightarrow> owned s)
   \<and> (answered s \<longrightarrow> monitor_at s = U_Idle \<and> \<not> registered s)
   \<and> (result s = Some True \<longrightarrow> answered s)"

definition default_inv :: "waiting_state \<Rightarrow> bool" where
  "default_inv s \<longleftrightarrow>
     (default_on s \<longrightarrow> waiter_at s \<notin> {A_Add, A_Enable, A_Off_accessory, A_Over}
        \<and> monitor_at s \<notin> {U_Off, U_On} \<and> \<not> answered s)"

definition accessory_inv :: "string \<Rightarrow> waiting_state \<Rightarrow> bool" where
  "accessory_inv udc s \<longleftrightarrow>
     (accessory_udc s \<noteq> [] \<longrightarrow> monitor_at s = U_On \<or> answered s)
   \<and> (result s = Some True \<and> waiter_at s = A_Over \<longrightarrow> accessory_udc s = [])
   \<and> ((answered s \<or> monitor_at s = U_On) \<and> waiter_at s \<noteq> A_Over \<longrightarrow> accessory_udc s = udc)"

definition wait_inv :: "string \<Rightarrow> waiting_state \<Rightarrow> bool" where
  "wait_inv udc s \<longleftrightarrow> gadgets_ok udc s \<and> order_inv s \<and> default_inv s \<and> accessory_inv udc s"

lemma waiter_stepE:
  assumes "waiter_step s = Some s'" "gadgets_ok udc s"
  obtains "waiter_at s = A_Add" "s' = s\<lparr>waiter_at := A_Enable, registered := True\<rparr>"
  | "waiter_at s = A_Enable" "s' = set_gadget defaultGadgetName udc (s\<lparr>waiter_at := A_Wait\<rparr>)"
  | "waiter_at s = A_Wait" "answered s" "s' = wait_returns True s"
  | "waiter_at s = A_Back" "s' = s\<lparr>waiter_at := A_Off_default\<rparr>"
  | "waiter_at s = A_Off_default" "s' = set_gadget defaultGadgetName [] (s\<lparr>waiter_at := A_Off_accessory\<rparr>)"
  | "waiter_at s = A_Off_accessory" "s' = set_gadget accessoryGadgetName [] (s\<lparr>waiter_at := A_Over\<rparr>)"
proof -
  have "gadgets_ok udc (s\<lparr>waiter_at := w\<rparr>)" for w using assms(2) by (simp add: wait_simps)
  note writes = on_gadgets_exist [OF this]
  show ?thesis by (cases "waiter_at s") (use assms(1) that in \<open>simp_all add: waiter_step_def clean_up_step_def writes split: if_splits\<close>)
qed

lemma monitor_stepE:
  assumes "monitor_step s = Some s'" "gadgets_ok udc s"
  obtains "monitor_at s = U_Idle" "0 < requests s"
    "s' = s\<lparr>requests := requests s - 1, monitor_at := (if registered s then U_Called else U_Idle)\<rparr>"
  | "monitor_at s = U_Called" "owned s" "s' = s\<lparr>monitor_at := U_Locked\<rparr>"
  | "monitor_at s = U_Called" "\<not> owned s" "s' = s\<lparr>monitor_at := U_Idle, registered := False\<rparr>"
  | "monitor_at s = U_Locked" "s' = set_gadget defaultGadgetName [] (s\<lparr>monitor_at := U_Off\<rparr>)"
  | "monitor_at s = U_Off" "s' = set_gadget accessoryGadgetName udc (s\<lparr>monitor_at := U_On\<rparr>)"
  | "monitor_at s = U_On" "s' = s\<lparr>monitor_at := U_Idle, registered := False, answered := True\<rparr>"
proof -
  have "gadgets_ok udc (s\<lparr>monitor_at := w\<rparr>)" for w using assms(2) by (simp add: wait_simps)
  note writes = on_gadgets_exist [OF this]
  show ?thesis by (cases "monitor_at s") (use assms(1) that in \<open>simp_all add: monitor_step_def writes split: if_splits\<close>)
qed

lemmas inv_defs = order_inv_def default_inv_def accessory_inv_def

lemma waiter_keeps:
  assumes "wait_inv udc s" "waiter_step s = Some s'"
  shows "wait_inv udc s'"
proof -
  have inv: "gadgets_ok udc s" "order_inv s" "default_inv s" "accessory_inv udc s"
    using assms(1) by (simp_all add: wait_inv_def)
  have "gadgets_ok udc s'"
    by (rule waiter_stepE [OF assms(2) inv(1)]) (use inv(1) in \<open>simp_all add: wait_simps wait_returns_def\<close>)
  moreover have "order_inv s'"
    by (rule waiter_stepE [OF assms(2) inv(1)])
       (use inv(2) in \<open>auto simp: order_inv_def wait_simps wait_returns_def\<close>)
  moreover have "default_inv s'"
    by (rule waiter_stepE [OF assms(2) inv(1)])
       (use inv(2,3) in \<open>auto simp: order_inv_def default_inv_def wait_simps wait_returns_def\<close>)
  moreover have "accessory_inv udc s'"
    by (rule waiter_stepE [OF assms(2) inv(1)])
       (use inv(2,4) in \<open>auto simp: order_inv_def accessory_inv_def wait_simps wait_returns_def\<close>)
  ultimately show ?thesis by (simp add: wait_inv_def)
qed

lemma timer_keeps:
  assumes "wait_inv udc s" "timer_step limited s = Some s'"
  shows "wait_inv udc s'"
proof -
  from assms(2) have "waiter_at s = A_Wait" "\<not> answered s" "s' = wait_returns False s"
    by (simp_all add: timer_step_def split: if_splits)
  with assms(1) show ?thesis
    by (auto simp: wait_inv_def inv_defs wait_returns_def wait_simps)
qed

lemma monitor_keeps:
  assumes "wait_inv udc s" "monitor_step s = Some s'"
  shows "wait_inv udc s'"
proof -
  have inv: "gadgets_ok udc s" "order_inv s" "default_inv s" "accessory_inv udc s"
    using assms(1) by (simp_all add: wait_inv_def)
  have "gadgets_ok udc s'"
    by (rule monitor_stepE [OF assms(2) inv(1)]) (use inv(1) in \<open>simp_all add: wait_simps\<close>)
  moreover have "order_inv s'"
    by (rule monitor_stepE [OF assms(2) inv(1)]) (use inv(2) in \<open>auto simp: order_inv_def wait_simps\<close>)
  moreover have "default_inv s'"
    by (rule monitor_stepE [OF assms(2) inv(1)]) (use inv(2,3) in \<open>auto simp: order_inv_def default_inv_def wait_simps\<close>)
  moreover have "accessory_inv udc s'"
    by (rule monitor_stepE [OF assms(2) inv(1)])
       (use inv in \<open>auto simp: inv_defs wait_simps\<close>)
  ultimately show ?thesis by (simp add: wait_inv_def)
qed

lemma car_keeps:
  assumes "wait_inv udc s" "car_step s = Some s'"
  shows "wait_inv udc s'"
proof -
  from assms(2) have "default_on s" "s' = s\<lparr>requests := Suc (requests s)\<rparr>"
    by (simp_all add: car_step_def default_on_def split: if_splits)
  with assms(1) show ?thesis by (auto simp: wait_inv_def inv_defs wait_simps)
qed

definition wait_begins :: "string \<Rightarrow> waiting_state \<Rightarrow> bool" where
  "wait_begins udc s \<longleftrightarrow>
     (\<exists>u. s = wait_start u \<and> gadgets_exist u \<and> udc_name_ok u \<and> all_off u \<and> s_udcName u = udc)"

interpretation waiting: invariant_system "wait_begins udc" "step_of (wait_step limited)" "wait_inv udc"
  for udc limited
proof
  fix s assume "wait_begins udc s"
  then show "wait_inv udc s"
    by (auto simp: wait_begins_def wait_start_def wait_inv_def inv_defs gadgets_ok_def all_off_def
        default_on_def accessory_udc_def)
next
  fix a s s' assume "wait_inv udc s" "step_of (wait_step limited) a s s'"
  then show "wait_inv udc s'"
    by (cases a) (auto simp: step_of_def wait_step_def intro: waiter_keeps timer_keeps monitor_keeps car_keeps)
qed

text \<open>Only a wait with a timeout returns false.\<close>

lemma timeout_step:
  "wait_step limited a s = Some s' \<Longrightarrow> result s' = Some False \<Longrightarrow> result s = Some False \<or> limited"
  by (cases a) (auto simp: wait_step_def timer_step_def waiter_step_def clean_up_step_def monitor_step_def car_step_def
      on_gadgets_def wait_returns_def split: if_splits waiter_pc.splits monitor_pc.splits prod.splits sum.splits)

lemma timeout_trace:
  "trace (step_of (wait_step limited)) s ts s' \<Longrightarrow> result s' = Some False \<Longrightarrow> result s = Some False \<or> limited"
  by (induction rule: trace.induct) (auto simp: step_of_def dest: timeout_step)

lemma wait_reached:
  assumes "gadgets_exist u" "udc_name_ok u" "all_off u"
    "run_schedule (wait_step limited) ts (wait_start u) = Some s"
  shows "wait_inv (s_udcName u) s \<and> (result s = Some False \<longrightarrow> limited)"
proof -
  have run: "trace (step_of (wait_step limited)) (wait_start u) ts s" using assms(4) by (simp add: run_schedule_iff)
  have "wait_begins (s_udcName u) (wait_start u)" using assms(1-3) by (auto simp: wait_begins_def)
  from waiting.inv_reached [OF this run] timeout_trace [OF run] show ?thesis
    by (auto simp: wait_start_def)
qed

section \<open>The properties\<close>

text \<open>
  C36. The wait and its handler as two threads, in any order, from a state with no gadget bound.
  The two gadgets are never bound at once.  Once the promise is set the accessory gadget is bound
  to the controller until the clean-up, a wait that returned true included.  When the clean-up is
  over no gadget is bound, unless the wait had a timeout, returned false, and the handler was
  already past the lock of its weak pointer.
\<close>

theorem clean_up_switches_off:
  assumes "gadgets_exist u" "udc_name_ok u" "all_off u"
    "run_schedule (wait_step limited) ts (wait_start u) = Some s"
  shows "exclusive (gadgets s)
    \<and> (result s = Some True \<or> answered s \<longrightarrow> waiter_at s \<noteq> A_Over
        \<longrightarrow> bound_udc (gadgets s) accessoryGadgetName = s_udcName u)
    \<and> (waiter_at s = A_Over \<longrightarrow> all_off (gadgets s)
        \<or> limited \<and> result s = Some False \<and> (monitor_at s = U_On \<or> answered s))"
proof -
  have inv: "order_inv s" "default_inv s" "accessory_inv (s_udcName u) s" "result s = Some False \<longrightarrow> limited"
    using wait_reached [OF assms] by (simp_all add: wait_inv_def)
  have "exclusive (gadgets s)"
    using inv(2,3) by (auto simp: exclusive_def default_inv_def accessory_inv_def default_on_def accessory_udc_def)
  moreover have "result s = Some True \<or> answered s \<longrightarrow> waiter_at s \<noteq> A_Over
      \<longrightarrow> bound_udc (gadgets s) accessoryGadgetName = s_udcName u"
    using inv(1,3) by (auto simp: order_inv_def accessory_inv_def accessory_udc_def)
  moreover have "waiter_at s = A_Over \<longrightarrow> all_off (gadgets s)
      \<or> limited \<and> result s = Some False \<and> (monitor_at s = U_On \<or> answered s)"
    using inv by (cases "result s") (auto simp: order_inv_def default_inv_def accessory_inv_def all_off_def
        default_on_def accessory_udc_def)
  ultimately show ?thesis by blast
qed

lemmas wait_eval = wait_step_def waiter_step_def clean_up_step_def timer_step_def monitor_step_def car_step_def on_gadgets_def
  wait_start_def wait_returns_def writes_of_existing bound_set_udc c_str_id udc_name_ok_def

definition asked :: "wait_actor list" where
  "asked = [Waiter, Waiter, Car, Monitor, Monitor]"

lemma demo_all_off: "all_off demo_usb"
  by (simp add: all_off_def demo_usb_def bound_udc_def getline_def)

theorem clean_up_switches_off_witness:
  "\<exists>s. run_schedule (wait_step True) (asked @ [Monitor, Monitor, Monitor, Waiter, Waiter, Waiter, Waiter])
        (wait_start demo_usb) = Some s
    \<and> result s = Some True \<and> waiter_at s = A_Over \<and> all_off (gadgets s)"
proof -
  have "\<exists>s. run_schedule (wait_step True) (asked @ [Monitor, Monitor, Monitor, Waiter, Waiter, Waiter, Waiter])
        (wait_start demo_usb) = Some s \<and> result s = Some True \<and> waiter_at s = A_Over"
    using demo_usb_ok by (simp add: wait_eval asked_def demo_usb_def)
  with clean_up_switches_off [OF demo_usb_ok demo_all_off] show ?thesis by fastforce
qed

text \<open>
  C39. A switch that comes too late.  The handler locks the promise, the wait times out, the
  session is given up and both gadgets are switched off; then the handler goes on: the accessory
  gadget ends up bound to the controller with nobody waiting, every thread is done, and nothing
  undoes it.
\<close>

theorem late_switch_stays:
  assumes "gadgets_exist u" "udc_name_ok u" "s_udcName u \<noteq> []"
  shows "\<exists>s. run_schedule (wait_step True)
        (asked @ [Timer, Waiter, Waiter, Waiter, Monitor, Monitor, Monitor]) (wait_start u) = Some s
    \<and> result s = Some False \<and> bound_udc (gadgets s) accessoryGadgetName = s_udcName u
    \<and> \<not> all_off (gadgets s) \<and> (\<forall>a. wait_step True a s = None)"
proof -
  have "wait_step True a s = None" if "waiter_at s = A_Over" "monitor_at s = U_Idle" "requests s = 0"
    "bound_udc (gadgets s) defaultGadgetName = []" for a s
    using that by (cases a) (simp_all add: wait_eval)
  moreover have "\<exists>s. run_schedule (wait_step True)
        (asked @ [Timer, Waiter, Waiter, Waiter, Monitor, Monitor, Monitor]) (wait_start u) = Some s
    \<and> waiter_at s = A_Over \<and> monitor_at s = U_Idle \<and> requests s = 0 \<and> result s = Some False
    \<and> bound_udc (gadgets s) defaultGadgetName = [] \<and> bound_udc (gadgets s) accessoryGadgetName = s_udcName u"
    using assms by (simp add: wait_eval asked_def)
  ultimately show ?thesis using assms(3) by (auto simp: all_off_def)
qed

theorem late_switch_stays_witness:
  "\<exists>s. run_schedule (wait_step True)
        (asked @ [Timer, Waiter, Waiter, Waiter, Monitor, Monitor, Monitor]) (wait_start demo_usb) = Some s
    \<and> bound_udc (gadgets s) accessoryGadgetName = ''fe980000.usb''"
  using late_switch_stays [OF demo_usb_ok] by (auto simp: demo_usb_def)

end
