(* ===== verification/StableSort.thy ===== *)
theory StableSort
  imports Main "HOL-Library.Multiset"
begin

text \<open>
  std::stable_sort with a comparator.  For a strict weak ordering the standard fixes the result:
  a permutation, sorted by the comparator, in which equivalent elements keep their order.  The
  model is insertion from the right; the locale states the contract of a comparator and proves
  the three facts once, for both sorts of the Bluetooth handler.
\<close>

fun insert_by :: "('a \<Rightarrow> 'a \<Rightarrow> bool) \<Rightarrow> 'a \<Rightarrow> 'a list \<Rightarrow> 'a list" where
  "insert_by lt x [] = [x]"
| "insert_by lt x (y # ys) = (if lt y x then y # insert_by lt x ys else x # y # ys)"

definition stable_sort :: "('a \<Rightarrow> 'a \<Rightarrow> bool) \<Rightarrow> 'a list \<Rightarrow> 'a list" where
  "stable_sort lt xs = foldr (insert_by lt) xs []"

lemma stable_sort_simps [simp]:
  "stable_sort lt [] = []"
  "stable_sort lt (x # xs) = insert_by lt x (stable_sort lt xs)"
  by (simp_all add: stable_sort_def)

lemma mset_insert_by [simp]: "mset (insert_by lt x xs) = add_mset x (mset xs)"
  by (induction xs) auto

lemma mset_stable_sort [simp]: "mset (stable_sort lt xs) = mset xs"
  by (induction xs) auto

lemma set_stable_sort [simp]: "set (stable_sort lt xs) = set xs"
  using mset_eq_setD [OF mset_stable_sort] .

lemma length_stable_sort [simp]: "length (stable_sort lt xs) = length xs"
  using mset_eq_length [OF mset_stable_sort] .

locale strict_weak_order =
  fixes lt :: "'a \<Rightarrow> 'a \<Rightarrow> bool"
  assumes irrefl: "\<not> lt x x"
    and trans: "lt x y \<Longrightarrow> lt y z \<Longrightarrow> lt x z"
    and incomparable_trans: "\<not> lt x y \<Longrightarrow> \<not> lt y z \<Longrightarrow> \<not> lt x z"
begin

lemma asym: "lt x y \<Longrightarrow> \<not> lt y x"
  using irrefl trans by blast

lemma set_insert_by: "set (insert_by lt x xs) = insert x (set xs)"
  by (induction xs) auto

lemma insert_by_sorted:
  "sorted_wrt (\<lambda>a b. \<not> lt b a) xs \<Longrightarrow> sorted_wrt (\<lambda>a b. \<not> lt b a) (insert_by lt x xs)"
proof (induction xs)
  case (Cons y ys)
  show ?case
  proof (cases "lt y x")
    case True
    with Cons show ?thesis by (auto simp: set_insert_by dest: asym)
  next
    case False
    with Cons.prems show ?thesis by auto (meson incomparable_trans)
  qed
qed simp

lemma sorted: "sorted_wrt (\<lambda>a b. \<not> lt b a) (stable_sort lt xs)"
  by (induction xs) (auto intro: insert_by_sorted)

lemma sorted_nth:
  assumes "i < j" "j < length xs"
  shows "\<not> lt (stable_sort lt xs ! j) (stable_sort lt xs ! i)"
  using sorted [of xs] assms by (auto simp: sorted_wrt_iff_nth_less)

lemma first_is_minimal:
  assumes "xs \<noteq> []" "x \<in> set xs"
  shows "\<not> lt x (hd (stable_sort lt xs))"
proof -
  from assms have "x \<in> set (stable_sort lt xs)" by simp
  with sorted [of xs] irrefl show ?thesis by (cases "stable_sort lt xs") auto
qed

text \<open>Stability: the elements equivalent to any given one keep their order.\<close>

lemma insert_by_filter:
  "filter (\<lambda>y. \<not> lt z y \<and> \<not> lt y z) (insert_by lt x xs)
     = (if \<not> lt z x \<and> \<not> lt x z then x # filter (\<lambda>y. \<not> lt z y \<and> \<not> lt y z) xs
        else filter (\<lambda>y. \<not> lt z y \<and> \<not> lt y z) xs)"
proof (induction xs)
  case (Cons y ys)
  have "lt y x \<Longrightarrow> \<not> lt z x \<Longrightarrow> \<not> lt x z \<Longrightarrow> \<not> (\<not> lt z y \<and> \<not> lt y z)"
    using incomparable_trans trans by blast
  with Cons show ?case by auto
qed simp

lemma stable:
  "filter (\<lambda>y. \<not> lt z y \<and> \<not> lt y z) (stable_sort lt xs) = filter (\<lambda>y. \<not> lt z y \<and> \<not> lt y z) xs"
  by (induction xs) (simp_all add: insert_by_filter)

end

text \<open>
  The comparator of a sort that only moves the elements of one kind to the front (aPref > bPref
  in the source): it is a strict weak ordering, and sorting with it is a stable partition.
\<close>

definition preferring :: "('a \<Rightarrow> bool) \<Rightarrow> 'a \<Rightarrow> 'a \<Rightarrow> bool" where
  "preferring p a b \<longleftrightarrow> p a \<and> \<not> p b"

interpretation preferring: strict_weak_order "preferring p" for p :: "'a \<Rightarrow> bool"
  by unfold_locales (auto simp: preferring_def)

lemma stable_sort_preferring: "stable_sort (preferring p) xs = filter p xs @ filter (\<lambda>x. \<not> p x) xs"
proof (induction xs)
  case (Cons x xs)
  have "insert_by (preferring p) x (ys @ zs) = (if p x then x # ys @ zs else ys @ x # zs)"
    if "list_all p ys" "list_all (\<lambda>z. \<not> p z) zs" for ys zs
    using that by (induction ys; cases zs) (auto simp: preferring_def)
  with Cons show ?case by (simp add: list_all_iff)
qed simp

end
