(* ===== verification/DBusObjects.thy ===== *)
theory DBusObjects
  imports Prelude
begin

text \<open>
  The classes through which the daemon appears on D-Bus: BluezProfile with AAWirelessProfile and
  HSPHSProfile (bluetoothProfiles.h, bluetoothProfiles.cpp), BLEAdvertisement
  (bluetoothAdvertisement.h, bluetoothAdvertisement.cpp), and the proxy of the adapter
  (BluezAdapterProxy in bluetoothHandler.cpp).  dbus-cxx carries the calls; what the sources give
  it are the members each constructor declares and the values the handler stores in them.
\<close>

named_theorems object_simps \<open>the members of the exported classes\<close>

section \<open>Values and members\<close>

datatype variant = Variant_string string | Variant_uint16 u16

text \<open>DBus::Properties is a std::map: the entries are listed in the order of their keys.\<close>

type_synonym properties = "(string \<times> variant) list"

datatype dbus_type = Type_path | Type_fd | Type_string | Type_strings | Type_bool | Type_properties

datatype access = ReadOnly | ReadWrite

datatype dbus_member = Method string "dbus_type list" | Property string dbus_type access

definition INTERFACE_BLUEZ_PROFILE :: string where
  "INTERFACE_BLUEZ_PROFILE = ''org.bluez.Profile1''"
definition INTERFACE_BLUEZ_LE_ADVERTISEMENT :: string where
  "INTERFACE_BLUEZ_LE_ADVERTISEMENT = ''org.bluez.LEAdvertisement1''"
definition INTERFACE_BLUEZ_ADAPTER :: string where
  "INTERFACE_BLUEZ_ADAPTER = ''org.bluez.Adapter1''"
definition INTERFACE_BLUEZ_LE_ADVERTISING_MANAGER :: string where
  "INTERFACE_BLUEZ_LE_ADVERTISING_MANAGER = ''org.bluez.LEAdvertisingManager1''"
definition INTERFACE_BLUEZ_DEVICE :: string where
  "INTERFACE_BLUEZ_DEVICE = ''org.bluez.Device1''"
section \<open>The exported classes\<close>

text \<open>What the constructor of each class declares, interface by interface.\<close>

definition BluezProfile_members :: "(string \<times> dbus_member) list" where
  "BluezProfile_members =
     [(INTERFACE_BLUEZ_PROFILE, Method ''Release'' []),
      (INTERFACE_BLUEZ_PROFILE, Method ''NewConnection'' [Type_path, Type_fd, Type_properties]),
      (INTERFACE_BLUEZ_PROFILE, Method ''RequestDisconnection'' [Type_path])]"

definition BLEAdvertisement_members :: "(string \<times> dbus_member) list" where
  "BLEAdvertisement_members =
     [(INTERFACE_BLUEZ_LE_ADVERTISEMENT, Method ''Release'' []),
      (INTERFACE_BLUEZ_LE_ADVERTISEMENT, Property ''Type'' Type_string ReadOnly),
      (INTERFACE_BLUEZ_LE_ADVERTISEMENT, Property ''ServiceUUIDs'' Type_strings ReadWrite),
      (INTERFACE_BLUEZ_LE_ADVERTISEMENT, Property ''LocalName'' Type_string ReadWrite)]"

record BLEAdvertisement =
  type :: string
  serviceUUIDs :: "string list"
  localName :: string

datatype dbus_object = AAWirelessProfile | HSPHSProfile | Advertisement BLEAdvertisement

fun members :: "dbus_object \<Rightarrow> (string \<times> dbus_member) list" where
  "members AAWirelessProfile = BluezProfile_members"
| "members HSPHSProfile = BluezProfile_members"
| "members (Advertisement _) = BLEAdvertisement_members"

definition implements :: "dbus_object \<Rightarrow> string \<Rightarrow> bool" where
  "implements obj interface \<longleftrightarrow> interface \<in> fst ` set (members obj)"

text \<open>What a reader on the bus gets for a property of an exported object.\<close>

datatype dbus_value = Value_string string | Value_strings "string list"

fun read_property :: "dbus_object \<Rightarrow> string \<Rightarrow> dbus_value option" where
  "read_property (Advertisement a) p =
     (if p = ''Type'' then Some (Value_string (type a))
      else if p = ''ServiceUUIDs'' then Some (Value_strings (serviceUUIDs a))
      else if p = ''LocalName'' then Some (Value_string (localName a))
      else None)"
| "read_property _ p = None"

section \<open>The proxy of the adapter\<close>

definition BluezAdapterProxy_members :: "(string \<times> dbus_member) list" where
  "BluezAdapterProxy_members =
     [(INTERFACE_BLUEZ_ADAPTER, Property ''Alias'' Type_string ReadWrite),
      (INTERFACE_BLUEZ_ADAPTER, Property ''Powered'' Type_bool ReadWrite),
      (INTERFACE_BLUEZ_ADAPTER, Property ''Discoverable'' Type_bool ReadWrite),
      (INTERFACE_BLUEZ_ADAPTER, Property ''Pairable'' Type_bool ReadWrite),
      (INTERFACE_BLUEZ_LE_ADVERTISING_MANAGER, Method ''RegisterAdvertisement'' [Type_path, Type_properties]),
      (INTERFACE_BLUEZ_LE_ADVERTISING_MANAGER, Method ''UnregisterAdvertisement'' [Type_path])]"

lemmas interface_defs [object_simps] = INTERFACE_BLUEZ_PROFILE_def INTERFACE_BLUEZ_LE_ADVERTISEMENT_def
  INTERFACE_BLUEZ_ADAPTER_def INTERFACE_BLUEZ_LE_ADVERTISING_MANAGER_def INTERFACE_BLUEZ_DEVICE_def

lemmas member_defs [object_simps] = BluezProfile_members_def BLEAdvertisement_members_def
  BluezAdapterProxy_members_def

lemma implements_simps [simp]:
  "implements AAWirelessProfile i \<longleftrightarrow> i = INTERFACE_BLUEZ_PROFILE"
  "implements HSPHSProfile i \<longleftrightarrow> i = INTERFACE_BLUEZ_PROFILE"
  "implements (Advertisement a) i \<longleftrightarrow> i = INTERFACE_BLUEZ_LE_ADVERTISEMENT"
  by (auto simp: implements_def member_defs)

end
