(* ===== verification/Bluetooth.thy ===== *)
theory Bluetooth
  imports Config StableSort DBusObjects "HOL-Library.List_Lexorder" "HOL-Library.Char_ord"
begin

text \<open>
  BluetoothHandler (bluetoothHandler.h, bluetoothHandler.cpp).  BlueZ is reached over D-Bus and
  is not part of the program: every definition that talks to it takes the bus as an argument, a
  function from a call and the state of the outside world to a reply and the next state.  The
  handler's own state records the calls made and whether each was answered without an error.
\<close>

named_theorems bt_simps \<open>evaluation of the Bluetooth operations\<close>

section \<open>The bus\<close>

datatype dbus_call =
    GetManagedObjects
  | Get string string
  | SetString string string string
  | SetBool string string bool
  | ConnectProfile string string
  | Disconnect string
  | RegisterObject string dbus_object
  | RegisterProfile string string properties
  | RegisterAdvertisement string properties
  | UnregisterAdvertisement string

text \<open>
  GetManagedObjects answers a std::map from paths to maps from interface names; what the handler
  uses of it is the paths in their order and the interface names of each.
\<close>

datatype dbus_reply =
    Objects "(string \<times> string list) list"
  | String string
  | Bool bool
  | Done
  | Error

type_synonym 'w bus = "dbus_call \<Rightarrow> 'w \<Rightarrow> dbus_reply \<times> 'w"

record 'w bt =
  world :: 'w
  calls :: "(dbus_call \<times> bool) list"
  strategy :: ConnectionStrategy
  m_connection :: bool
  m_adapter :: "string option"
  m_adapterAlias :: string
  m_preferredDeviceObjectPath :: "string option"
  connectWithRetryPromise :: "bool option"

type_synonym ('w, 'a) bt_eff = "('w bt, fault, 'a) eff"

definition dbus :: "'w bus \<Rightarrow> dbus_call \<Rightarrow> ('w, dbus_reply) bt_eff" where
  "dbus bus c = (\<lambda>b. case bus c (world b) of (r, w) \<Rightarrow>
     (if r = Error then Inl DBus_Error else Inr r,
      b\<lparr>world := w, calls := calls b @ [(c, r \<noteq> Error)]\<rparr>))"

text \<open>A reply of the wrong type is an error of the call as well.\<close>

definition dbus_typed :: "'w bus \<Rightarrow> dbus_call \<Rightarrow> (dbus_reply \<Rightarrow> 'v option) \<Rightarrow> ('w, 'v) bt_eff" where
  "dbus_typed bus c as = andthen (dbus bus c)
     (\<lambda>r. case as r of Some v \<Rightarrow> ret v | None \<Rightarrow> throw DBus_Error)"

fun as_objects :: "dbus_reply \<Rightarrow> (string \<times> string list) list option" where
  "as_objects (Objects os) = Some os"
| "as_objects _ = None"

fun as_string :: "dbus_reply \<Rightarrow> string option" where
  "as_string (String s) = Some s"
| "as_string _ = None"

fun as_bool :: "dbus_reply \<Rightarrow> bool option" where
  "as_bool (Bool v) = Some v"
| "as_bool _ = None"

definition dbus_objects :: "'w bus \<Rightarrow> ('w, (string \<times> string list) list) bt_eff" where
  "dbus_objects bus = dbus_typed bus GetManagedObjects as_objects"

definition dbus_string :: "'w bus \<Rightarrow> string \<Rightarrow> string \<Rightarrow> ('w, string) bt_eff" where
  "dbus_string bus path prop = dbus_typed bus (Get path prop) as_string"

definition dbus_bool :: "'w bus \<Rightarrow> string \<Rightarrow> string \<Rightarrow> ('w, bool) bt_eff" where
  "dbus_bool bus path prop = dbus_typed bus (Get path prop) as_bool"

definition dbus_void :: "'w bus \<Rightarrow> dbus_call \<Rightarrow> ('w, unit) bt_eff" where
  "dbus_void bus c = dbus_typed bus c (\<lambda>r. Some ())"

text \<open>register_object reports a status, and a failure is only logged.\<close>

definition register_object :: "'w bus \<Rightarrow> string \<Rightarrow> dbus_object \<Rightarrow> ('w, unit) bt_eff" where
  "register_object bus path obj = catch (dbus_void bus (RegisterObject path obj)) (ret ())"

definition ADAPTER_ALIAS_PREFIX :: string where "ADAPTER_ALIAS_PREFIX = ''WirelessAADongle-''"
definition ADAPTER_ALIAS_DONGLE_PREFIX :: string where
  "ADAPTER_ALIAS_DONGLE_PREFIX = ''AndroidAuto-Dongle-''"
definition LE_ADVERTISEMENT_OBJECT_PATH :: string where
  "LE_ADVERTISEMENT_OBJECT_PATH = ''/com/aawgd/bluetooth/advertisement''"
definition AAWG_PROFILE_OBJECT_PATH :: string where
  "AAWG_PROFILE_OBJECT_PATH = ''/com/aawgd/bluetooth/aawg''"
definition AAWG_PROFILE_UUID :: string where
  "AAWG_PROFILE_UUID = ''4de17a00-52cb-11e6-bdf4-0800200c9a66''"
definition HSP_HS_PROFILE_OBJECT_PATH :: string where
  "HSP_HS_PROFILE_OBJECT_PATH = ''/com/aawgd/bluetooth/hsp''"
definition HSP_AG_UUID :: string where
  "HSP_AG_UUID = ''00001112-0000-1000-8000-00805f9b34fb''"
definition HSP_HS_UUID :: string where
  "HSP_HS_UUID = ''00001108-0000-1000-8000-00805f9b34fb''"

section \<open>The adapter\<close>

definition getBluezObjects :: "'w bus \<Rightarrow> ('w, (string \<times> string list) list) bt_eff" where
  "getBluezObjects bus = dbus_objects bus"

definition initAdapter :: "'w bus \<Rightarrow> ('w, unit) bt_eff" where
  "initAdapter bus = andthen (getBluezObjects bus) (\<lambda>objects.
     case find (\<lambda>(path, interfaces). INTERFACE_BLUEZ_ADAPTER \<in> set interfaces \<and> path \<noteq> []) objects of
       None \<Rightarrow> ret ()
     | Some (path, _) \<Rightarrow> (\<lambda>b.
         dbus_void bus (SetString path ''Alias'' (m_adapterAlias b)) (b\<lparr>m_adapter := Some path\<rparr>)))"

definition setPower :: "'w bus \<Rightarrow> bool \<Rightarrow> ('w, unit) bt_eff" where
  "setPower bus on = (\<lambda>b. case m_adapter b of
       None \<Rightarrow> ret () b
     | Some adapter \<Rightarrow> dbus_void bus (SetBool adapter ''Powered'' on) b)"

definition setPairable :: "'w bus \<Rightarrow> bool \<Rightarrow> ('w, unit) bt_eff" where
  "setPairable bus pairable = (\<lambda>b. case m_adapter b of
       None \<Rightarrow> ret () b
     | Some adapter \<Rightarrow>
         andthen (dbus_void bus (SetBool adapter ''Discoverable'' pairable))
           (\<lambda>_. dbus_void bus (SetBool adapter ''Pairable'' pairable)) b)"

definition aawg_options :: properties where
  "aawg_options = [(''Channel'', Variant_uint16 8), (''Name'', Variant_string ''AA Wireless''),
     (''Role'', Variant_string ''server'')]"

definition hsp_options :: properties where
  "hsp_options = [(''Name'', Variant_string ''HSP HS'')]"

definition exportProfiles :: "'w bus \<Rightarrow> ('w, unit) bt_eff" where
  "exportProfiles bus =
     andthen (register_object bus AAWG_PROFILE_OBJECT_PATH AAWirelessProfile) (\<lambda>_.
     andthen (dbus_void bus (RegisterProfile AAWG_PROFILE_OBJECT_PATH AAWG_PROFILE_UUID aawg_options)) (\<lambda>_ b.
       if strategy b \<noteq> DONGLE_MODE
       then andthen (register_object bus HSP_HS_PROFILE_OBJECT_PATH HSPHSProfile)
              (\<lambda>_. dbus_void bus (RegisterProfile HSP_HS_PROFILE_OBJECT_PATH HSP_HS_UUID hsp_options)) b
       else ret () b))"

text \<open>The advertisement object as it is when it is registered.\<close>

definition advertisement :: "string \<Rightarrow> BLEAdvertisement" where
  "advertisement alias = \<lparr>type = ''peripheral'', serviceUUIDs = [AAWG_PROFILE_UUID], localName = alias\<rparr>"

definition startAdvertising :: "'w bus \<Rightarrow> ('w, unit) bt_eff" where
  "startAdvertising bus = (\<lambda>b. case m_adapter b of
       None \<Rightarrow> ret () b
     | Some _ \<Rightarrow>
         andthen (register_object bus LE_ADVERTISEMENT_OBJECT_PATH
                    (Advertisement (advertisement (m_adapterAlias b))))
           (\<lambda>_. dbus_void bus (RegisterAdvertisement LE_ADVERTISEMENT_OBJECT_PATH [])) b)"

definition stopAdvertising :: "'w bus \<Rightarrow> ('w, unit) bt_eff" where
  "stopAdvertising bus = (\<lambda>b. case m_adapter b of
       None \<Rightarrow> ret () b
     | Some _ \<Rightarrow> dbus_void bus (UnregisterAdvertisement LE_ADVERTISEMENT_OBJECT_PATH) b)"

definition powerOn :: "'w bus \<Rightarrow> ('w, unit) bt_eff" where
  "powerOn bus = (\<lambda>b. case m_adapter b of
       None \<Rightarrow> ret () b
     | Some _ \<Rightarrow>
         andthen (setPower bus True) (\<lambda>_.
         andthen (setPairable bus True) (\<lambda>_ b.
           if strategy b = DONGLE_MODE then startAdvertising bus b else ret () b)) b)"

definition powerOff :: "'w bus \<Rightarrow> ('w, unit) bt_eff" where
  "powerOff bus = (\<lambda>b. case m_adapter b of
       None \<Rightarrow> ret () b
     | Some _ \<Rightarrow>
         andthen (\<lambda>b. if strategy b = DONGLE_MODE then stopAdvertising bus b else ret () b)
           (\<lambda>_. setPower bus False) b)"

definition adapter_alias :: "host \<Rightarrow> ConnectionStrategy \<Rightarrow> string" where
  "adapter_alias h st =
     (let configuredBluetoothName = getBluetoothName h
      in if configuredBluetoothName \<noteq> [] then configuredBluetoothName
         else (if st = DONGLE_MODE then ADAPTER_ALIAS_DONGLE_PREFIX else ADAPTER_ALIAS_PREFIX)
                @ getUniqueSuffix h)"

definition bt_init :: "'w bus \<Rightarrow> host \<Rightarrow> ('w, unit) bt_eff" where
  "bt_init bus h = (\<lambda>b.
     andthen (initAdapter bus) (\<lambda>_. exportProfiles bus)
       (b\<lparr>m_connection := True, m_adapterAlias := adapter_alias h (strategy b)\<rparr>))"

section \<open>Devices\<close>

record BluetoothDeviceInfo =
  objectPath :: string
  address :: string
  name :: string
  paired :: bool
  trusted :: bool
  connected :: bool

definition connectDeviceByObjectPath :: "'w bus \<Rightarrow> string \<Rightarrow> ('w, bool) bt_eff" where
  "connectDeviceByObjectPath bus path = (\<lambda>b.
     let isDongleMode = (strategy b = DONGLE_MODE)
     in catch
          (andthen (dbus_bool bus path ''Connected'') (\<lambda>isConnected.
           andthen (if isConnected then dbus_void bus (Disconnect path) else ret ()) (\<lambda>_.
           andthen (dbus_void bus (ConnectProfile path
                      (if isDongleMode then [] else HSP_AG_UUID))) (\<lambda>_.
           ret True))))
          (ret False) b)"

definition device_paths :: "(string \<times> string list) list \<Rightarrow> string list" where
  "device_paths objects =
     concat (map (\<lambda>(path, interfaces).
       map (\<lambda>_. path) (filter (\<lambda>i. i = INTERFACE_BLUEZ_DEVICE) interfaces)) objects)"

text \<open>The order in which connectDevice tries the devices: the preferred one first.\<close>

definition connect_order :: "string option \<Rightarrow> string list \<Rightarrow> string list" where
  "connect_order preferred paths =
     (case preferred of
        None \<Rightarrow> paths
      | Some p \<Rightarrow> stable_sort (preferring (\<lambda>a. a = p)) paths)"

fun connect_loop :: "'w bus \<Rightarrow> string list \<Rightarrow> ('w, unit) bt_eff" where
  "connect_loop bus [] = ret ()"
| "connect_loop bus (device_path # rest) =
     andthen (connectDeviceByObjectPath bus device_path) (\<lambda>ok b.
       if ok \<and> strategy b \<noteq> DONGLE_MODE then ret () b else connect_loop bus rest b)"

definition connectDevice :: "'w bus \<Rightarrow> ('w, unit) bt_eff" where
  "connectDevice bus = andthen (getBluezObjects bus) (\<lambda>objects b.
     if device_paths objects = [] then ret () b
     else connect_loop bus (connect_order (m_preferredDeviceObjectPath b) (device_paths objects)) b)"

definition is_device :: "string \<times> string list \<Rightarrow> bool" where
  "is_device entry \<longleftrightarrow> INTERFACE_BLUEZ_DEVICE \<in> set (snd entry)"

fun disconnect_loop :: "'w bus \<Rightarrow> (string \<times> string list) list \<Rightarrow> ('w, unit) bt_eff" where
  "disconnect_loop bus [] = ret ()"
| "disconnect_loop bus (entry # rest) =
     (if \<not> is_device entry then disconnect_loop bus rest
      else andthen
        (catch
          (andthen (dbus_bool bus (fst entry) ''Connected'') (\<lambda>isConnected.
             if isConnected then dbus_void bus (Disconnect (fst entry)) else ret ()))
          (ret ()))
        (\<lambda>_. disconnect_loop bus rest))"

definition disconnectAllConnectedDevices :: "'w bus \<Rightarrow> ('w, unit) bt_eff" where
  "disconnectAllConnectedDevices bus =
     andthen (getBluezObjects bus) (\<lambda>objects. disconnect_loop bus objects)"

text \<open>
  The five property reads of one device.  The first that fails ends the reading: the fields
  read before it are kept, the others keep their defaults.
\<close>

definition read_into ::
    "('w, 'v) bt_eff \<Rightarrow> ('v \<Rightarrow> BluetoothDeviceInfo \<Rightarrow> BluetoothDeviceInfo)
      \<Rightarrow> (BluetoothDeviceInfo \<Rightarrow> ('w, BluetoothDeviceInfo) bt_eff)
      \<Rightarrow> BluetoothDeviceInfo \<Rightarrow> ('w, BluetoothDeviceInfo) bt_eff" where
  "read_into rd upd go info = (\<lambda>b. case rd b of
      (Inl _, b') \<Rightarrow> (Inr info, b')
    | (Inr v, b') \<Rightarrow> go (upd v info) b')"

definition read_device_info :: "'w bus \<Rightarrow> string \<Rightarrow> ('w, BluetoothDeviceInfo) bt_eff" where
  "read_device_info bus path =
     read_into (dbus_string bus path ''Address'') (\<lambda>v info. info\<lparr>address := v\<rparr>)
     (read_into (dbus_string bus path ''Name'') (\<lambda>v info. info\<lparr>name := v\<rparr>)
     (read_into (dbus_bool bus path ''Paired'') (\<lambda>v info. info\<lparr>paired := v\<rparr>)
     (read_into (dbus_bool bus path ''Trusted'') (\<lambda>v info. info\<lparr>trusted := v\<rparr>)
     (read_into (dbus_bool bus path ''Connected'') (\<lambda>v info. info\<lparr>connected := v\<rparr>) ret))))
       \<lparr>objectPath = path, address = [], name = [], paired = False, trusted = False,
        connected = False\<rparr>"

fun list_loop :: "'w bus \<Rightarrow> (string \<times> string list) list \<Rightarrow> ('w, BluetoothDeviceInfo list) bt_eff" where
  "list_loop bus [] = ret []"
| "list_loop bus (entry # rest) =
     (if \<not> is_device entry then list_loop bus rest
      else andthen (read_device_info bus (fst entry)) (\<lambda>info.
             andthen (list_loop bus rest) (\<lambda>devices. ret (info # devices))))"

definition device_less :: "BluetoothDeviceInfo \<Rightarrow> BluetoothDeviceInfo \<Rightarrow> bool" where
  "device_less a b =
     (if paired a \<noteq> paired b then paired a \<and> \<not> paired b
      else if connected a \<noteq> connected b then connected a \<and> \<not> connected b
      else objectPath a < objectPath b)"

definition listDevices :: "'w bus \<Rightarrow> ('w, BluetoothDeviceInfo list) bt_eff" where
  "listDevices bus = (\<lambda>b.
     if \<not> m_connection b then ret [] b
     else andthen (getBluezObjects bus) (\<lambda>objects.
          andthen (list_loop bus objects) (\<lambda>devices. ret (stable_sort device_less devices))) b)"

section \<open>Switching\<close>

definition stopConnectWithRetry :: "('w, unit) bt_eff" where
  "stopConnectWithRetry = (\<lambda>b. case connectWithRetryPromise b of
       None \<Rightarrow> ret () b
     | Some satisfied \<Rightarrow>
         if satisfied then throw Promise_already_satisfied b
         else ret () (b\<lparr>connectWithRetryPromise := Some True\<rparr>))"

definition device_matches :: "string \<Rightarrow> BluetoothDeviceInfo \<Rightarrow> bool" where
  "device_matches selector d =
     (if selector = [] then False
      else if objectPath d = selector then True
      else if address d \<noteq> [] \<and> address d = selector then True
      else if name d \<noteq> [] \<and> name d = selector then True
      else map tolower (name d) \<noteq> [] \<and> map tolower (name d) = map tolower selector)"

definition switch_rest :: "'w bus \<Rightarrow> string \<Rightarrow> ('w, bool) bt_eff" where
  "switch_rest bus selector =
     andthen (listDevices bus) (\<lambda>devices.
       case find (device_matches selector) devices of
         None \<Rightarrow> ret False
       | Some d \<Rightarrow> (\<lambda>b.
           andthen (disconnectAllConnectedDevices bus) (\<lambda>_.
             connectDeviceByObjectPath bus (objectPath d))
             (b\<lparr>m_preferredDeviceObjectPath := Some (objectPath d)\<rparr>)))"

text \<open>The call as a whole: the retry thread is told to stop, then the switch is made.\<close>

definition switchToDevice :: "'w bus \<Rightarrow> string \<Rightarrow> ('w, bool) bt_eff" where
  "switchToDevice bus selector = (\<lambda>b.
     if \<not> m_connection b then ret False b
     else andthen stopConnectWithRetry (\<lambda>_. switch_rest bus selector) b)"

definition disconnectAll :: "'w bus \<Rightarrow> ('w, unit) bt_eff" where
  "disconnectAll bus = (\<lambda>b.
     if \<not> m_connection b then ret () b
     else andthen stopConnectWithRetry (\<lambda>_ b.
            disconnectAllConnectedDevices bus (b\<lparr>m_preferredDeviceObjectPath := None\<rparr>)) b)"

section \<open>The retry thread\<close>

text \<open>Some () is the thread object, None the nullopt of a missing adapter.\<close>

definition connectWithRetry :: "('w, unit option) bt_eff" where
  "connectWithRetry = (\<lambda>b. case m_adapter b of
       None \<Rightarrow> ret None b
     | Some _ \<Rightarrow> ret (Some ()) (b\<lparr>connectWithRetryPromise := Some False\<rparr>))"

text \<open>
  The loop of the retry thread.  rounds says, for each round, what the other threads do to the
  handler between its connection attempt and the end of its 20 second wait, and what they do
  between that and the power-off: an operation that satisfies the promise ends the wait in its
  middle, and the rest of it may come behind the wake-up.  None is the loop that is still going
  on when the description ends; Some () that the thread has returned.
\<close>

fun retryConnectLoop ::
    "'w bus \<Rightarrow> (('w bt \<Rightarrow> 'w bt) \<times> ('w bt \<Rightarrow> 'w bt)) list \<Rightarrow> ('w, unit option) bt_eff" where
  "retryConnectLoop bus [] = ret None"
| "retryConnectLoop bus ((others, meanwhile) # rounds) =
     andthen (connectDevice bus) (\<lambda>_ b.
       let b = others b
       in if connectWithRetryPromise b = Some True
          then andthen (\<lambda>b. if strategy b \<noteq> DONGLE_MODE then powerOff bus b else ret () b)
                 (\<lambda>_. ret (Some ())) (meanwhile (b\<lparr>connectWithRetryPromise := None\<rparr>))
          else retryConnectLoop bus rounds b)"

section \<open>What the calls leave alone\<close>

text \<open>
  An operation that only talks to the bus: it appends to the calls and changes none of the
  handler's own fields.
\<close>

definition bt_frame :: "'w bt \<Rightarrow> (dbus_call \<times> bool) list \<Rightarrow> 'w bt \<Rightarrow> bool" where
  "bt_frame b cs b' \<longleftrightarrow> calls b' = calls b @ cs \<and> strategy b' = strategy b
     \<and> m_connection b' = m_connection b \<and> m_adapter b' = m_adapter b
     \<and> m_adapterAlias b' = m_adapterAlias b
     \<and> m_preferredDeviceObjectPath b' = m_preferredDeviceObjectPath b
     \<and> connectWithRetryPromise b' = connectWithRetryPromise b"

lemma bt_frame_refl [simp, intro]: "bt_frame b [] b"
  by (simp add: bt_frame_def)

lemma bt_frame_trans: "bt_frame b cs b1 \<Longrightarrow> bt_frame b1 ds b2 \<Longrightarrow> bt_frame b (cs @ ds) b2"
  by (simp add: bt_frame_def)

lemma bt_frameD:
  assumes "bt_frame b cs b'"
  shows "calls b' = calls b @ cs" "strategy b' = strategy b" "m_connection b' = m_connection b"
    "m_adapter b' = m_adapter b"
    "m_preferredDeviceObjectPath b' = m_preferredDeviceObjectPath b"
    "connectWithRetryPromise b' = connectWithRetryPromise b"
  using assms by (simp_all add: bt_frame_def)

lemma dbus_typed_cases:
  obtains (ok) v b' where "dbus_typed bus c as b = (Inr v, b')" "bt_frame b [(c, True)] b'"
  | (err) b' k where "dbus_typed bus c as b = (Inl DBus_Error, b')" "bt_frame b [(c, k)] b'"
      "k \<longrightarrow> (\<exists>r. as r = None)"
proof -
  obtain r w where r: "bus c (world b) = (r, w)" by fastforce
  define b' where "b' = b\<lparr>world := w, calls := calls b @ [(c, r \<noteq> Error)]\<rparr>"
  have d: "dbus bus c b = (if r = Error then Inl DBus_Error else Inr r, b')"
    using r by (simp add: dbus_def b'_def)
  have f: "bt_frame b [(c, r \<noteq> Error)] b'" by (simp add: bt_frame_def b'_def)
  consider "r = Error" | "r \<noteq> Error" "as r = None" | v where "r \<noteq> Error" "as r = Some v"
    by (cases "as r") auto
  then show thesis
  proof cases
    case 1
    with d f show thesis by (intro err [of b' False]) (simp_all add: dbus_typed_def)
  next
    case 2
    with d f show thesis by (intro err [of b' True]) (auto simp: dbus_typed_def)
  next
    case (3 v)
    with d f show thesis by (intro ok [of v b']) (simp_all add: dbus_typed_def)
  qed
qed

lemma dbus_void_cases:
  obtains (ok) b' where "dbus_void bus c b = (Inr (), b')" "bt_frame b [(c, True)] b'"
  | (err) b' where "dbus_void bus c b = (Inl DBus_Error, b')" "bt_frame b [(c, False)] b'"
  unfolding dbus_void_def by (rule dbus_typed_cases [of bus c "\<lambda>r. Some ()" b]) auto

lemma dbus_bool_cases:
  obtains (ok) v b' where "dbus_bool bus path prop b = (Inr v, b')" "bt_frame b [(Get path prop, True)] b'"
  | (err) b' k where "dbus_bool bus path prop b = (Inl DBus_Error, b')" "bt_frame b [(Get path prop, k)] b'"
  unfolding dbus_bool_def by (rule dbus_typed_cases) auto

lemma dbus_string_cases:
  obtains (ok) v b' where "dbus_string bus path prop b = (Inr v, b')" "bt_frame b [(Get path prop, True)] b'"
  | (err) b' k where "dbus_string bus path prop b = (Inl DBus_Error, b')" "bt_frame b [(Get path prop, k)] b'"
  unfolding dbus_string_def by (rule dbus_typed_cases) auto

lemma dbus_objects_cases:
  obtains (ok) os b' where "dbus_objects bus b = (Inr os, b')" "bt_frame b [(GetManagedObjects, True)] b'"
  | (err) b' k where "dbus_objects bus b = (Inl DBus_Error, b')" "bt_frame b [(GetManagedObjects, k)] b'"
  unfolding dbus_objects_def by (rule dbus_typed_cases) auto

section \<open>Connecting\<close>

text \<open>
  Read off the calls: the devices an attempt was made on (each attempt starts by asking whether
  the device is connected), the devices a profile was connected on, and those disconnected.
\<close>

fun tried_devices :: "(dbus_call \<times> bool) list \<Rightarrow> string list" where
  "tried_devices [] = []"
| "tried_devices ((Get p prop, ok) # cs) =
     (if prop = ''Connected'' then p # tried_devices cs else tried_devices cs)"
| "tried_devices (_ # cs) = tried_devices cs"

fun connected_devices :: "(dbus_call \<times> bool) list \<Rightarrow> (string \<times> string) list" where
  "connected_devices [] = []"
| "connected_devices ((ConnectProfile p u, ok) # cs) =
     (if ok then (p, u) # connected_devices cs else connected_devices cs)"
| "connected_devices (_ # cs) = connected_devices cs"

lemma tried_devices_append [simp]: "tried_devices (cs @ ds) = tried_devices cs @ tried_devices ds"
  by (induction cs rule: tried_devices.induct) auto

lemma connected_devices_append [simp]:
  "connected_devices (cs @ ds) = connected_devices cs @ connected_devices ds"
  by (induction cs rule: connected_devices.induct) auto

definition connect_uuid :: "ConnectionStrategy \<Rightarrow> string" where
  "connect_uuid st = (if st = DONGLE_MODE then [] else HSP_AG_UUID)"

text \<open>An attempt never throws; it succeeds exactly when its last call connected the profile.\<close>

lemma connectDeviceByObjectPath_attempt:
  "\<exists>ok b' cs. connectDeviceByObjectPath bus p b = (Inr ok, b') \<and> bt_frame b cs b'
    \<and> tried_devices cs = [p]
    \<and> connected_devices cs = (if ok then [(p, connect_uuid (strategy b))] else [])"
proof (cases rule: dbus_bool_cases [of bus p "''Connected''" b])
  case (err b' k)
  then show ?thesis
    by (intro exI [of _ False] exI [of _ b']) (auto simp: connectDeviceByObjectPath_def andthen_def catch_def)
next
  case (ok v b1)
  have "\<exists>r b2 cs. (if v then dbus_void bus (Disconnect p) else ret ()) b1 = (r, b2)
      \<and> bt_frame b1 cs b2 \<and> tried_devices cs = [] \<and> connected_devices cs = []"
    by (cases v; cases rule: dbus_void_cases [of bus "Disconnect p" b1]) fastforce+
  then obtain r b2 cs where d: "(if v then dbus_void bus (Disconnect p) else ret ()) b1 = (r, b2)"
    "bt_frame b1 cs b2" "tried_devices cs = []" "connected_devices cs = []" by blast
  note f2 = bt_frame_trans [OF ok(2) d(2)]
  show ?thesis
  proof (cases r)
    case (Inl e)
    with ok d f2 show ?thesis
      by (intro exI [of _ False] exI [of _ b2] exI [of _ "[(Get p ''Connected'', True)] @ cs"])
         (simp add: connectDeviceByObjectPath_def andthen_def catch_def)
  next
    case (Inr u)
    have u: "connect_uuid (strategy b) = (if strategy b = DONGLE_MODE then [] else HSP_AG_UUID)"
      by (simp add: connect_uuid_def)
    show ?thesis
    proof (cases rule: dbus_void_cases [of bus "ConnectProfile p (connect_uuid (strategy b))" b2])
      case (ok b3)
      with \<open>dbus_bool bus p ''Connected'' b = (Inr v, b1)\<close> d Inr bt_frame_trans [OF f2 ok(2)] show ?thesis
        by (intro exI [of _ True] exI [of _ b3]
              exI [of _ "([(Get p ''Connected'', True)] @ cs)
                  @ [(ConnectProfile p (connect_uuid (strategy b)), True)]"])
           (simp add: connectDeviceByObjectPath_def andthen_def catch_def u)
    next
      case (err b3)
      with \<open>dbus_bool bus p ''Connected'' b = (Inr v, b1)\<close> d Inr bt_frame_trans [OF f2 err(2)] show ?thesis
        by (intro exI [of _ False] exI [of _ b3]
              exI [of _ "([(Get p ''Connected'', True)] @ cs)
                  @ [(ConnectProfile p (connect_uuid (strategy b)), False)]"])
           (simp add: connectDeviceByObjectPath_def andthen_def catch_def u)
    qed
  qed
qed

lemma connect_loop_any:
  "\<exists>b' cs. connect_loop bus ps b = (Inr (), b') \<and> bt_frame b cs b'
    \<and> (if strategy b = DONGLE_MODE
       then tried_devices cs = ps \<and> (\<forall>c \<in> set (connected_devices cs). fst c \<in> set ps \<and> snd c = [])
       else connected_devices cs = [] \<and> tried_devices cs = ps
         \<or> (\<exists>k < length ps. tried_devices cs = take (Suc k) ps
              \<and> connected_devices cs = [(ps ! k, HSP_AG_UUID)]))"
proof (induction ps arbitrary: b)
  case Nil
  show ?case by (intro exI [of _ b] exI [of _ "[]"]) simp
next
  case (Cons p ps)
  obtain ok b1 cs where a: "connectDeviceByObjectPath bus p b = (Inr ok, b1)" "bt_frame b cs b1"
    "tried_devices cs = [p]"
    "connected_devices cs = (if ok then [(p, connect_uuid (strategy b))] else [])"
    using connectDeviceByObjectPath_attempt [of bus p b] by blast
  have st: "strategy b1 = strategy b" using bt_frameD [OF a(2)] by simp
  obtain b2 ds where l: "connect_loop bus ps b1 = (Inr (), b2)" "bt_frame b1 ds b2"
    and il: "if strategy b1 = DONGLE_MODE
       then tried_devices ds = ps \<and> (\<forall>c \<in> set (connected_devices ds). fst c \<in> set ps \<and> snd c = [])
       else connected_devices ds = [] \<and> tried_devices ds = ps
         \<or> (\<exists>k < length ps. tried_devices ds = take (Suc k) ps
              \<and> connected_devices ds = [(ps ! k, HSP_AG_UUID)])"
    using Cons.IH [of b1] by blast
  note f = bt_frame_trans [OF a(2) l(2)]
  show ?case
  proof (cases "ok \<and> strategy b \<noteq> DONGLE_MODE")
    case True
    with a st show ?thesis
      by (intro exI [of _ b1] exI [of _ cs]) (auto simp: connect_uuid_def)
  next
    case False
    then have run: "connect_loop bus (p # ps) b = (Inr (), b2)"
      using a(1) l(1) st by (auto simp: andthen_def)
    show ?thesis
    proof (cases "strategy b = DONGLE_MODE")
      case True
      with run f a il st show ?thesis
        by (intro exI [of _ b2] exI [of _ "cs @ ds"]) (auto simp: connect_uuid_def)
    next
      case nd: False
      with False a(4) have c0: "connected_devices cs = []" by auto
      from il nd st consider "connected_devices ds = []" "tried_devices ds = ps"
        | k where "k < length ps" "tried_devices ds = take (Suc k) ps"
            "connected_devices ds = [(ps ! k, HSP_AG_UUID)]" by auto
      then show ?thesis
      proof cases
        case 1
        with run f a(3) c0 nd show ?thesis
          by (intro exI [of _ b2] exI [of _ "cs @ ds"]) simp
      next
        case (2 k)
        with run f a(3) c0 nd show ?thesis
          by (intro exI [of _ b2] exI [of _ "cs @ ds"]) (auto intro!: exI [of _ "Suc k"])
      qed
    qed
  qed
qed

lemma mset_connect_order: "mset (connect_order preferred paths) = mset paths"
  by (simp add: connect_order_def split: option.split)

lemma hd_connect_order:
  assumes "p \<in> set paths"
  shows "hd (connect_order (Some p) paths) = p"
proof -
  have "filter (\<lambda>a. a = p) paths \<noteq> []" using assms by (auto simp: filter_empty_conv)
  then have "hd (filter (\<lambda>a. a = p) paths) \<in> set (filter (\<lambda>a. a = p) paths)" by (rule hd_in_set)
  with \<open>filter (\<lambda>a. a = p) paths \<noteq> []\<close> show ?thesis
    by (simp add: connect_order_def stable_sort_preferring)
qed

lemma dbus_objects_reply:
  assumes "bus GetManagedObjects (world b) = (Objects os, w)"
  shows "\<exists>b1. dbus_objects bus b = (Inr os, b1) \<and> bt_frame b [(GetManagedObjects, True)] b1"
  using assms by (simp add: dbus_objects_def dbus_typed_def dbus_def andthen_def bt_frame_def)

lemma device_paths_distinct:
  assumes "\<forall>e \<in> set os. distinct (snd e)"
  shows "device_paths os = map fst (filter is_device os)"
proof -
  have one: "map (\<lambda>_. p) (filter (\<lambda>i. i = x) is) = (if x \<in> set is then [p] else [])"
    if "distinct is" for p x :: string and "is"
    using that by (induction "is") (auto simp: filter_empty_conv)
  show ?thesis
    using assms by (induction os) (auto simp: device_paths_def is_device_def one filter_empty_conv)
qed

text \<open>
  C24. Connecting, outside dongle mode.  The devices are tried one after the other in the order in
  which BlueZ lists them, except that the preferred one, when it is listed, comes first.  The
  first successful connection (of the headset profile) ends the attempt, so at most one device
  gets connected, no device behind it is touched, and if none could be connected every device was
  tried.  The call itself never throws once the listing has been answered.  (The interfaces of
  an object are the keys of a std::map, so none occurs twice.)
\<close>

theorem connectDevice_first_success:
  assumes "bus GetManagedObjects (world b) = (Objects os, w)" "strategy b \<noteq> DONGLE_MODE"
    and "\<forall>e \<in> set os. distinct (snd e)"
  defines "listed \<equiv> map fst (filter is_device os)"
  defines "order \<equiv> (case m_preferredDeviceObjectPath b of None \<Rightarrow> listed
     | Some p \<Rightarrow> filter (\<lambda>q. q = p) listed @ filter (\<lambda>q. q \<noteq> p) listed)"
  shows "\<exists>b' cs. connectDevice bus b = (Inr (), b') \<and> bt_frame b ((GetManagedObjects, True) # cs) b'
    \<and> (connected_devices cs = [] \<and> tried_devices cs = order
       \<or> (\<exists>k < length order. tried_devices cs = take (Suc k) order
            \<and> connected_devices cs = [(order ! k, HSP_AG_UUID)]))"
proof -
  have paths: "device_paths os = listed" unfolding listed_def by (rule device_paths_distinct [OF assms(3)])
  have order: "order = connect_order (m_preferredDeviceObjectPath b) listed"
    by (simp add: order_def connect_order_def stable_sort_preferring split: option.split)
  obtain b1 where o: "dbus_objects bus b = (Inr os, b1)" "bt_frame b [(GetManagedObjects, True)] b1"
    using dbus_objects_reply [of bus b os w] assms(1) by blast
  note keep = bt_frameD [OF o(2)]
  show ?thesis
  proof (cases "listed = []")
    case True
    then have "order = []" by (simp add: order_def split: option.split)
    with o True paths show ?thesis
      by (intro exI [of _ b1] exI [of _ "[]"]) (simp add: connectDevice_def getBluezObjects_def andthen_def)
  next
    case False
    obtain b2 cs where l: "connect_loop bus order b1 = (Inr (), b2)" "bt_frame b1 cs b2"
      "connected_devices cs = [] \<and> tried_devices cs = order
       \<or> (\<exists>k < length order. tried_devices cs = take (Suc k) order
            \<and> connected_devices cs = [(order ! k, HSP_AG_UUID)])"
      using connect_loop_any [of bus order b1] assms(2) keep(2) by auto
    have "connectDevice bus b = (Inr (), b2)"
      using o l(1) False keep(5) paths order
      by (simp add: connectDevice_def getBluezObjects_def andthen_def)
    with bt_frame_trans [OF o(2) l(2)] l(3) show ?thesis by auto
  qed
qed

text \<open>
  A world for the witnesses: two devices, of which only the second (at d2) lets itself be
  connected; the adapter is at a.  The state counts the calls.
\<close>

definition demo_objects :: "(string \<times> string list) list" where
  "demo_objects = [(''a'', [INTERFACE_BLUEZ_ADAPTER]), (''d1'', [INTERFACE_BLUEZ_DEVICE]),
                   (''d2'', [INTERFACE_BLUEZ_DEVICE])]"

fun demo_bus :: "nat bus" where
  "demo_bus GetManagedObjects n = (Objects demo_objects, Suc n)"
| "demo_bus (Get p prop) n =
     (if prop = ''Address'' then String (''00:'' @ p) else if prop = ''Name'' then String (''Phone '' @ p)
      else Bool (prop = ''Paired''), Suc n)"
| "demo_bus (ConnectProfile p u) n = (if p = ''d2'' then Done else Error, Suc n)"
| "demo_bus _ n = (Done, Suc n)"

definition demo_bt :: "nat bt" where
  "demo_bt = \<lparr>world = 0, calls = [], strategy = PHONE_FIRST, m_connection = True,
     m_adapter = Some ''a'', m_adapterAlias = ''WirelessAADongle-cd1234'',
     m_preferredDeviceObjectPath = Some ''d2'', connectWithRetryPromise = Some False\<rparr>"

lemma demo_order: "device_paths demo_objects = [''d1'', ''d2'']"
    "connect_order (Some ''d2'') [''d1'', ''d2''] = [''d2'', ''d1'']"
  by (simp_all add: device_paths_def demo_objects_def INTERFACE_BLUEZ_DEVICE_def
      INTERFACE_BLUEZ_ADAPTER_def connect_order_def preferring_def)

lemma demo_bt_sel [simp]:
  "demo_bus GetManagedObjects (world demo_bt) = (Objects demo_objects, Suc 0)"
  "strategy demo_bt = PHONE_FIRST" "m_preferredDeviceObjectPath demo_bt = Some ''d2''"
  "m_connection demo_bt" "m_adapter demo_bt = Some ''a''"
  "connectWithRetryPromise demo_bt = Some False"
  by (simp_all add: demo_bt_def)

lemma demo_objects_distinct: "\<forall>e \<in> set demo_objects. distinct (snd e)"
  by (simp add: demo_objects_def)

lemma demo_devices: "map fst (filter is_device demo_objects) = [''d1'', ''d2'']"
  by (simp add: demo_objects_def is_device_def INTERFACE_BLUEZ_DEVICE_def INTERFACE_BLUEZ_ADAPTER_def)

theorem connectDevice_first_success_witness:
  "\<exists>b' cs. connectDevice demo_bus demo_bt = (Inr (), b')
    \<and> bt_frame demo_bt ((GetManagedObjects, True) # cs) b'
    \<and> (connected_devices cs = [] \<and> tried_devices cs = [''d2'', ''d1'']
       \<or> (\<exists>k < length [''d2'', ''d1'']. tried_devices cs = take (Suc k) [''d2'', ''d1'']
            \<and> connected_devices cs = [([''d2'', ''d1''] ! k, HSP_AG_UUID)]))"
proof -
  have "strategy demo_bt \<noteq> DONGLE_MODE" by simp
  from connectDevice_first_success [of demo_bus demo_bt demo_objects "Suc 0", OF demo_bt_sel(1) this demo_objects_distinct]
  show ?thesis unfolding demo_bt_sel demo_devices by simp
qed

section \<open>Listing\<close>

interpretation device_order: strict_weak_order device_less
proof
  fix x y z :: BluetoothDeviceInfo
  show "\<not> device_less x x" by (simp add: device_less_def)
  show "device_less x y \<Longrightarrow> device_less y z \<Longrightarrow> device_less x z"
    by (auto simp: device_less_def split: if_splits)
  show "\<not> device_less x y \<Longrightarrow> \<not> device_less y z \<Longrightarrow> \<not> device_less x z"
    by (auto simp: device_less_def split: if_splits)
qed

lemma read_into_ok:
  assumes "\<And>b. \<exists>r b' k. rd b = (r, b') \<and> bt_frame b [(Get p prop, k)] b'"
    and "\<And>v info. objectPath (upd v info) = objectPath info"
    and "\<And>info b. \<exists>info' b' cs. go info b = (Inr info', b') \<and> bt_frame b cs b'
          \<and> objectPath info' = objectPath info \<and> connected_devices cs = []"
  shows "\<exists>info' b' cs. read_into rd upd go info b = (Inr info', b') \<and> bt_frame b cs b'
    \<and> objectPath info' = objectPath info \<and> connected_devices cs = []"
proof -
  obtain r b1 k where r: "rd b = (r, b1)" "bt_frame b [(Get p prop, k)] b1" using assms(1) by blast
  show ?thesis
  proof (cases r)
    case (Inl e)
    with r show ?thesis
      by (intro exI [of _ info] exI [of _ b1] exI [of _ "[(Get p prop, k)]"]) (simp add: read_into_def)
  next
    case (Inr v)
    obtain info' b' cs where g: "go (upd v info) b1 = (Inr info', b')" "bt_frame b1 cs b'"
      "objectPath info' = objectPath (upd v info)" "connected_devices cs = []"
      using assms(3) by blast
    from bt_frame_trans [OF r(2) g(2)] r(1) Inr g assms(2) show ?thesis
      by (intro exI [of _ info'] exI [of _ b'] exI [of _ "[(Get p prop, k)] @ cs"])
         (simp add: read_into_def)
  qed
qed

lemma dbus_string_any: "\<exists>r b' k. dbus_string bus p prop b = (r, b') \<and> bt_frame b [(Get p prop, k)] b'"
  by (cases rule: dbus_string_cases [of bus p "prop" b]) blast+

lemma dbus_bool_any: "\<exists>r b' k. dbus_bool bus p prop b = (r, b') \<and> bt_frame b [(Get p prop, k)] b'"
  by (cases rule: dbus_bool_cases [of bus p "prop" b]) blast+

lemma read_device_info_ok:
  "\<exists>info b' cs. read_device_info bus p b = (Inr info, b') \<and> bt_frame b cs b'
    \<and> objectPath info = p \<and> connected_devices cs = []"
proof -
  note str = read_into_ok [OF dbus_string_any [of bus p]] and boo = read_into_ok [OF dbus_bool_any [of bus p]]
  have r: "\<exists>info' b' cs. ret info b = (Inr info', b') \<and> bt_frame b cs b'
      \<and> objectPath info' = objectPath info \<and> connected_devices cs = []"
    for info :: BluetoothDeviceInfo and b :: "'a bt"
    by (intro exI [of _ info] exI [of _ b] exI [of _ "[]"]) simp
  have "\<exists>info b' cs. read_device_info bus p b = (Inr info, b') \<and> bt_frame b cs b'
    \<and> objectPath info = objectPath \<lparr>objectPath = p, address = [], name = [], paired = False,
        trusted = False, connected = False\<rparr> \<and> connected_devices cs = []"
    unfolding read_device_info_def by (intro str boo r) simp_all
  then show ?thesis by simp
qed

lemma list_loop_ok:
  "\<exists>ds b' cs. list_loop bus os b = (Inr ds, b') \<and> bt_frame b cs b'
    \<and> map objectPath ds = map fst (filter is_device os) \<and> connected_devices cs = []"
proof (induction os arbitrary: b)
  case Nil
  show ?case by (intro exI [of _ "[]"] exI [of _ b]) simp
next
  case (Cons entry os)
  show ?case
  proof (cases "is_device entry")
    case False
    with Cons.IH [of b] show ?thesis by simp
  next
    case True
    obtain info b1 cs where i: "read_device_info bus (fst entry) b = (Inr info, b1)" "bt_frame b cs b1"
      "objectPath info = fst entry" "connected_devices cs = []"
      using read_device_info_ok [of bus "fst entry" b] by blast
    obtain ds b2 cs' where l: "list_loop bus os b1 = (Inr ds, b2)" "bt_frame b1 cs' b2"
      "map objectPath ds = map fst (filter is_device os)" "connected_devices cs' = []"
      using Cons.IH [of b1] by blast
    from bt_frame_trans [OF i(2) l(2)] i l True show ?thesis
      by (intro exI [of _ "info # ds"] exI [of _ b2] exI [of _ "cs @ cs'"]) (simp add: andthen_def)
  qed
qed

lemma listDevices_ok:
  assumes "m_connection b"
  obtains (fails) b' k where "listDevices bus b = (Inl DBus_Error, b')"
      "bt_frame b [(GetManagedObjects, k)] b'"
  | (ok) os b1 ds b' cs where "dbus_objects bus b = (Inr os, b1)"
      "list_loop bus os b1 = (Inr ds, b')" "listDevices bus b = (Inr (stable_sort device_less ds), b')"
      "bt_frame b cs b'" "connected_devices cs = []"
      "map objectPath ds = map fst (filter is_device os)"
proof (cases rule: dbus_objects_cases [of bus b])
  case (err b' k)
  with assms show thesis by (intro fails) (auto simp: listDevices_def getBluezObjects_def)
next
  case (ok os b1)
  obtain ds b' cs where l: "list_loop bus os b1 = (Inr ds, b')" "bt_frame b1 cs b'"
    "map objectPath ds = map fst (filter is_device os)" "connected_devices cs = []"
    using list_loop_ok [of bus os b1] by blast
  from bt_frame_trans [OF ok(2) l(2)] l ok(1) assms show thesis
    by (intro that(2) [of os b1 ds b' "[(GetManagedObjects, True)] @ cs"])
       (auto simp: listDevices_def getBluezObjects_def andthen_def)
qed

text \<open>
  Whatever BlueZ answers to the reads, a listed device has one entry, also one whose properties
  cannot be read, and the entries are sorted.
\<close>

definition listing_sorted :: "BluetoothDeviceInfo list \<Rightarrow> bool" where
  "listing_sorted ds \<longleftrightarrow> (\<forall>i j. i < j \<and> j < length ds \<longrightarrow>
          (paired (ds ! j) \<longrightarrow> paired (ds ! i))
        \<and> (paired (ds ! i) = paired (ds ! j) \<and> connected (ds ! j) \<longrightarrow> connected (ds ! i))
        \<and> (paired (ds ! i) = paired (ds ! j) \<and> connected (ds ! i) = connected (ds ! j)
             \<longrightarrow> objectPath (ds ! i) \<le> objectPath (ds ! j)))"

lemma listing_sorted_sort: "listing_sorted (stable_sort device_less ds)"
  unfolding listing_sorted_def
proof (intro allI impI, elim conjE)
  fix i j assume "i < j" "j < length (stable_sort device_less ds)"
  then have "\<not> device_less (stable_sort device_less ds ! j) (stable_sort device_less ds ! i)"
    using device_order.sorted_nth [of i j ds] by simp
  then show "(paired (stable_sort device_less ds ! j) \<longrightarrow> paired (stable_sort device_less ds ! i))
        \<and> (paired (stable_sort device_less ds ! i) = paired (stable_sort device_less ds ! j)
             \<and> connected (stable_sort device_less ds ! j) \<longrightarrow> connected (stable_sort device_less ds ! i))
        \<and> (paired (stable_sort device_less ds ! i) = paired (stable_sort device_less ds ! j)
             \<and> connected (stable_sort device_less ds ! i) = connected (stable_sort device_less ds ! j)
             \<longrightarrow> objectPath (stable_sort device_less ds ! i) \<le> objectPath (stable_sort device_less ds ! j))"
    by (auto simp: device_less_def split: if_splits)
qed

lemma listDevices_one_each:
  assumes "m_connection b" "bus GetManagedObjects (world b) = (Objects os, w)"
  shows "\<exists>ds b' cs. listDevices bus b = (Inr ds, b') \<and> bt_frame b cs b'
    \<and> mset (map objectPath ds) = mset (map fst (filter is_device os)) \<and> listing_sorted ds"
proof -
  obtain b1 where o: "dbus_objects bus b = (Inr os, b1)"
    using dbus_objects_reply [of bus b os w] assms(2) by blast
  show ?thesis
  proof (rule listDevices_ok [OF assms(1), of bus], goal_cases)
    case fails: (1 b' k)
    with o assms(1) show ?thesis
      using list_loop_ok [of bus os b1]
      by (auto simp: listDevices_def getBluezObjects_def andthen_def)
  next
    case ok: (2 os' b1' ds b' cs)
    have "mset (map objectPath (stable_sort device_less ds)) = mset (map objectPath ds)" by simp
    also have "\<dots> = mset (map fst (filter is_device os))" using ok o by simp
    finally show ?thesis using ok(3,4) listing_sorted_sort by blast
  qed
qed

text \<open>A BlueZ that answers every read of the listed devices, from a table.\<close>

definition readable :: "'w bus \<Rightarrow> (string \<Rightarrow> BluetoothDeviceInfo) \<Rightarrow> string set \<Rightarrow> bool" where
  "readable bus table ps \<longleftrightarrow> (\<forall>p \<in> ps. \<forall>w. objectPath (table p) = p
    \<and> fst (bus (Get p ''Address'') w) = String (address (table p))
    \<and> fst (bus (Get p ''Name'') w) = String (name (table p))
    \<and> fst (bus (Get p ''Paired'') w) = Bool (paired (table p))
    \<and> fst (bus (Get p ''Trusted'') w) = Bool (trusted (table p))
    \<and> fst (bus (Get p ''Connected'') w) = Bool (connected (table p)))"

lemma read_reply:
  "fst (bus (Get p q) (world b)) = String x \<Longrightarrow> \<exists>b'. dbus_string bus p q b = (Inr x, b')"
  "fst (bus (Get p q) (world b)) = Bool v \<Longrightarrow> \<exists>b'. dbus_bool bus p q b = (Inr v, b')"
  by (cases "bus (Get p q) (world b)"; simp add: dbus_string_def dbus_bool_def dbus_typed_def dbus_def)+

lemma read_into_reply:
  "rd b = (Inr v, b1) \<Longrightarrow> read_into rd upd go info b = go (upd v info) b1"
  by (simp add: read_into_def)

lemma read_device_info_reply:
  assumes "readable bus table ps" "p \<in> ps"
  shows "\<exists>b'. read_device_info bus p b = (Inr (table p), b')"
proof -
  note r = assms(1) [unfolded readable_def, rule_format, OF assms(2)]
  obtain b1 where 1: "dbus_string bus p ''Address'' b = (Inr (address (table p)), b1)"
    using read_reply(1) r by blast
  obtain b2 where 2: "dbus_string bus p ''Name'' b1 = (Inr (name (table p)), b2)"
    using read_reply(1) r by blast
  obtain b3 where 3: "dbus_bool bus p ''Paired'' b2 = (Inr (paired (table p)), b3)"
    using read_reply(2) r by blast
  obtain b4 where 4: "dbus_bool bus p ''Trusted'' b3 = (Inr (trusted (table p)), b4)"
    using read_reply(2) r by blast
  obtain b5 where 5: "dbus_bool bus p ''Connected'' b4 = (Inr (connected (table p)), b5)"
    using read_reply(2) r by blast
  have "objectPath (table p) = p" using r by blast
  then have "\<lparr>objectPath = p, address = address (table p), name = name (table p), paired = paired (table p),
      trusted = trusted (table p), connected = connected (table p)\<rparr> = table p" by simp
  with 1 2 3 4 5 show ?thesis by (simp add: read_device_info_def read_into_reply)
qed

lemma list_loop_reply:
  "readable bus table (fst ` set (filter is_device os)) \<Longrightarrow>
   \<exists>b'. list_loop bus os b = (Inr (map (table \<circ> fst) (filter is_device os)), b')"
proof (induction os arbitrary: b)
  case (Cons e os)
  have rest: "readable bus table (fst ` set (filter is_device os))"
    using Cons.prems by (auto simp: readable_def)
  show ?case
  proof (cases "is_device e")
    case False
    with Cons.IH [OF rest] show ?thesis by simp
  next
    case True
    with Cons.prems obtain b1 where 1: "read_device_info bus (fst e) b = (Inr (table (fst e)), b1)"
      using read_device_info_reply [of bus table "fst ` set (filter is_device (e # os))" "fst e" b] by auto
    from Cons.IH [OF rest, of b1] 1 True show ?thesis by (auto simp: andthen_def)
  qed
qed simp

text \<open>
  C26. listDevices over a BlueZ that answers the listing and the reads.  The result has one entry
  for each listed object that is a device, whose address, name and three flags are those BlueZ
  gave for that object, and the entries are ordered with the paired devices first, among those
  the connected ones first, and by object path within these groups.
\<close>

theorem listDevices_sorted:
  assumes "m_connection b" "bus GetManagedObjects (world b) = (Objects os, w)"
    and "readable bus table (fst ` set (filter is_device os))"
  shows "\<exists>ds b'. listDevices bus b = (Inr ds, b')
    \<and> mset ds = mset (map (table \<circ> fst) (filter is_device os))
    \<and> (\<forall>i j. i < j \<and> j < length ds \<longrightarrow>
          (paired (ds ! j) \<longrightarrow> paired (ds ! i))
        \<and> (paired (ds ! i) = paired (ds ! j) \<and> connected (ds ! j) \<longrightarrow> connected (ds ! i))
        \<and> (paired (ds ! i) = paired (ds ! j) \<and> connected (ds ! i) = connected (ds ! j)
             \<longrightarrow> objectPath (ds ! i) \<le> objectPath (ds ! j)))"
proof -
  obtain b1 where o: "dbus_objects bus b = (Inr os, b1)"
    using dbus_objects_reply [of bus b os w] assms(2) by blast
  obtain b2 where l: "list_loop bus os b1 = (Inr (map (table \<circ> fst) (filter is_device os)), b2)"
    using list_loop_reply [OF assms(3)] by blast
  have run: "listDevices bus b = (Inr (stable_sort device_less (map (table \<circ> fst) (filter is_device os))), b2)"
    using o l assms(1) by (simp add: listDevices_def getBluezObjects_def andthen_def)
  show ?thesis unfolding listing_sorted_def [symmetric]
    by (intro exI conjI, rule run) (simp_all add: listing_sorted_sort)
qed

text \<open>The table of the demonstration world.\<close>

definition demo_table :: "string \<Rightarrow> BluetoothDeviceInfo" where
  "demo_table p = \<lparr>objectPath = p, address = ''00:'' @ p, name = ''Phone '' @ p, paired = True,
     trusted = False, connected = False\<rparr>"

theorem listDevices_sorted_witness:
  "\<exists>ds b'. listDevices demo_bus demo_bt = (Inr ds, b')
    \<and> mset ds = mset [demo_table ''d1'', demo_table ''d2'']"
proof -
  have r: "readable demo_bus demo_table (fst ` set (filter is_device demo_objects))"
    by (simp add: readable_def demo_table_def)
  have f: "map (demo_table \<circ> fst) (filter is_device demo_objects) = [demo_table ''d1'', demo_table ''d2'']"
    using arg_cong [OF demo_devices, of "map demo_table"] by (simp add: o_def)
  from listDevices_sorted [of demo_bt demo_bus demo_objects "Suc 0", OF demo_bt_sel(4,1) r]
  show ?thesis unfolding f by blast
qed

section \<open>Switching and the retry thread\<close>

lemma disconnect_loop_ok:
  "\<exists>b' cs. disconnect_loop bus os b = (Inr (), b') \<and> bt_frame b cs b' \<and> connected_devices cs = []"
proof (induction os arbitrary: b)
  case Nil
  show ?case by (intro exI [of _ b] exI [of _ "[]"]) simp
next
  case (Cons entry os)
  show ?case
  proof (cases "is_device entry")
    case False
    with Cons.IH [of b] show ?thesis by simp
  next
    case True
    let ?p = "fst entry"
    have "\<exists>b1 cs. catch (andthen (dbus_bool bus ?p ''Connected'') (\<lambda>isConnected.
        if isConnected then dbus_void bus (Disconnect ?p) else ret ())) (ret ()) b = (Inr (), b1)
        \<and> bt_frame b cs b1 \<and> connected_devices cs = []"
    proof (cases rule: dbus_bool_cases [of bus ?p "''Connected''" b])
      case (err b1 k)
      then show ?thesis
        by (intro exI [of _ b1] exI [of _ "[(Get ?p ''Connected'', k)]"]) (simp add: andthen_def catch_def)
    next
      case (ok v b1)
      show ?thesis
      proof (cases v)
        case False
        with ok show ?thesis
          by (intro exI [of _ b1] exI [of _ "[(Get ?p ''Connected'', True)]"])
             (simp add: andthen_def catch_def)
      next
        case True
        obtain r b2 k where d: "dbus_void bus (Disconnect ?p) b1 = (r, b2)"
          "bt_frame b1 [(Disconnect ?p, k)] b2"
          by (cases rule: dbus_void_cases [of bus "Disconnect ?p" b1]) blast+
        from bt_frame_trans [OF ok(2) d(2)] ok d(1) True show ?thesis
          by (intro exI [of _ b2]
                exI [of _ "[(Get ?p ''Connected'', True)] @ [(Disconnect ?p, k)]"])
             (auto simp: andthen_def catch_def split: sum.split)
      qed
    qed
    then obtain b1 cs where c: "catch (andthen (dbus_bool bus ?p ''Connected'') (\<lambda>isConnected.
        if isConnected then dbus_void bus (Disconnect ?p) else ret ())) (ret ()) b = (Inr (), b1)"
      "bt_frame b cs b1" "connected_devices cs = []" by blast
    obtain b2 ds where l: "disconnect_loop bus os b1 = (Inr (), b2)" "bt_frame b1 ds b2"
      "connected_devices ds = []" using Cons.IH [of b1] by blast
    from bt_frame_trans [OF c(2) l(2)] c l True show ?thesis
      by (intro exI [of _ b2] exI [of _ "cs @ ds"]) (simp add: andthen_def)
  qed
qed

lemma disconnectAllConnectedDevices_any:
  "\<exists>r b' cs. disconnectAllConnectedDevices bus b = (r, b') \<and> bt_frame b cs b' \<and> connected_devices cs = []"
proof (cases rule: dbus_objects_cases [of bus b])
  case (err b' k)
  then show ?thesis
    by (intro exI [of _ "Inl DBus_Error"] exI [of _ b'] exI [of _ "[(GetManagedObjects, k)]"])
       (simp add: disconnectAllConnectedDevices_def getBluezObjects_def)
next
  case (ok os b1)
  obtain b2 cs where l: "disconnect_loop bus os b1 = (Inr (), b2)" "bt_frame b1 cs b2"
    "connected_devices cs = []" using disconnect_loop_ok by blast
  from bt_frame_trans [OF ok(2) l(2)] ok l show ?thesis
    by (intro exI [of _ "Inr ()"] exI [of _ b2] exI [of _ "[(GetManagedObjects, True)] @ cs"])
       (simp add: disconnectAllConnectedDevices_def getBluezObjects_def)
qed

lemma disconnectAllConnectedDevices_result:
  "fst (disconnectAllConnectedDevices bus b) \<in> {Inr (), Inl DBus_Error}"
proof (cases rule: dbus_objects_cases [of bus b])
  case (err b' k)
  then show ?thesis by (simp add: disconnectAllConnectedDevices_def getBluezObjects_def)
next
  case (ok os b1)
  then show ?thesis using disconnect_loop_ok [of bus os b1]
    by (auto simp: disconnectAllConnectedDevices_def getBluezObjects_def)
qed

lemma connectDevice_any: "\<exists>r b' cs. connectDevice bus b = (r, b') \<and> bt_frame b cs b'"
proof (cases rule: dbus_objects_cases [of bus b])
  case (err b' k)
  then show ?thesis
    by (intro exI [of _ "Inl DBus_Error"] exI [of _ b'] exI [of _ "[(GetManagedObjects, k)]"])
       (simp add: connectDevice_def getBluezObjects_def)
next
  case (ok os b1)
  obtain b2 cs where l: "connect_loop bus (connect_order (m_preferredDeviceObjectPath b1) (device_paths os)) b1
      = (Inr (), b2)" "bt_frame b1 cs b2"
    using connect_loop_any [of bus _ b1] by blast
  show ?thesis
  proof (cases "device_paths os = []")
    case True
    with ok show ?thesis
      by (intro exI [of _ "Inr ()"] exI [of _ b1] exI [of _ "[(GetManagedObjects, True)]"])
         (simp add: connectDevice_def getBluezObjects_def)
  next
    case False
    with ok l bt_frame_trans [OF ok(2) l(2)] show ?thesis
      by (intro exI [of _ "Inr ()"] exI [of _ b2] exI [of _ "[(GetManagedObjects, True)] @ cs"])
         (simp add: connectDevice_def getBluezObjects_def)
  qed
qed

definition stopped :: "'w bt \<Rightarrow> 'w bt" where
  "stopped b = b\<lparr>connectWithRetryPromise := map_option (\<lambda>_. True) (connectWithRetryPromise b)\<rparr>"

lemma stopped_sel [simp]:
  "calls (stopped b) = calls b" "strategy (stopped b) = strategy b"
  "m_connection (stopped b) = m_connection b" "m_adapter (stopped b) = m_adapter b"
  "m_preferredDeviceObjectPath (stopped b) = m_preferredDeviceObjectPath b"
  "connectWithRetryPromise (stopped b) = map_option (\<lambda>_. True) (connectWithRetryPromise b)"
  by (simp_all add: stopped_def)

lemma stopConnectWithRetry_result:
  "stopConnectWithRetry b =
     (if connectWithRetryPromise b = Some True then (Inl Promise_already_satisfied, b)
      else (Inr (), stopped b))"
  by (cases "connectWithRetryPromise b") (auto simp: stopConnectWithRetry_def stopped_def)

text \<open>What a switch does once the listing has been read.\<close>

lemma switchToDevice_after_list:
  assumes "m_connection b" "connectWithRetryPromise b \<noteq> Some True"
    and "listDevices bus (stopped b) = (Inr ds, b1)" "bt_frame (stopped b) cs b1"
  shows "\<exists>r b' cs'. switchToDevice bus sel b = (r, b') \<and> calls b' = calls b1 @ cs'
    \<and> connectWithRetryPromise b' = connectWithRetryPromise b1 \<and> m_adapter b' = m_adapter b
    \<and> strategy b' = strategy b
    \<and> (case find (device_matches sel) ds of
        None \<Rightarrow> r = Inr False \<and> b' = b1 \<and> cs' = []
      | Some d \<Rightarrow> m_preferredDeviceObjectPath b' = Some (objectPath d)
          \<and> connected_devices cs' = (if r = Inr True then [(objectPath d, connect_uuid (strategy b))] else []))"
proof (cases "find (device_matches sel) ds")
  case None
  with assms bt_frameD [OF assms(4)] show ?thesis
    by (intro exI [of _ "Inr False"] exI [of _ b1] exI [of _ "[]"])
       (simp add: switchToDevice_def switch_rest_def stopConnectWithRetry_result)
next
  case (Some d)
  let ?b = "b1\<lparr>m_preferredDeviceObjectPath := Some (objectPath d)\<rparr>"
  obtain r b2 ds2 where d: "disconnectAllConnectedDevices bus ?b = (r, b2)" "bt_frame ?b ds2 b2"
    "connected_devices ds2 = []" using disconnectAllConnectedDevices_any by blast
  have run: "switchToDevice bus sel b
      = andthen (disconnectAllConnectedDevices bus) (\<lambda>_. connectDeviceByObjectPath bus (objectPath d)) ?b"
    using assms Some by (simp add: switchToDevice_def switch_rest_def stopConnectWithRetry_result)
  note keep = bt_frameD [OF assms(4)] and keep2 = bt_frameD [OF d(2)]
  show ?thesis
  proof (cases r)
    case (Inl e)
    with run d keep keep2 Some show ?thesis
      by (intro exI [of _ "Inl e"] exI [of _ b2] exI [of _ ds2]) simp
  next
    case (Inr u)
    obtain ok b3 cs3 where c: "connectDeviceByObjectPath bus (objectPath d) b2 = (Inr ok, b3)"
      "bt_frame b2 cs3 b3"
      "connected_devices cs3 = (if ok then [(objectPath d, connect_uuid (strategy b2))] else [])"
      using connectDeviceByObjectPath_attempt [of bus "objectPath d" b2] by blast
    from run d keep keep2 Some Inr c bt_frameD [OF c(2)] show ?thesis
      by (intro exI [of _ "Inr ok"] exI [of _ b3] exI [of _ "ds2 @ cs3"]) (simp split: if_splits)
  qed
qed

text \<open>
  C25. switchToDevice, whenever it returns.  It has stopped the retry thread and listed the
  devices; the device chosen is the first of the listing (paired, then connected devices first)
  that matches the selector, and it is remembered as the preferred one whether or not the
  connection succeeds.  The call answers true exactly when it connected that device, and then
  it connected nothing else; without a match, and always for the empty selector, it answers
  false and changes nothing after the listing.
\<close>

theorem switchToDevice_selects:
  assumes "m_connection b" "switchToDevice bus sel b = (Inr ok, b')"
  shows "\<exists>ds b1 cs. listDevices bus (stopped b) = (Inr ds, b1) \<and> calls b' = calls b1 @ cs
    \<and> connectWithRetryPromise b' = map_option (\<lambda>_. True) (connectWithRetryPromise b)
    \<and> (sel = [] \<longrightarrow> \<not> ok)
    \<and> (case find (device_matches sel) ds of
        None \<Rightarrow> \<not> ok \<and> b' = b1
      | Some d \<Rightarrow> d \<in> set ds \<and> device_matches sel d
          \<and> m_preferredDeviceObjectPath b' = Some (objectPath d)
          \<and> connected_devices cs = (if ok then [(objectPath d, connect_uuid (strategy b))] else []))"
proof -
  have p: "connectWithRetryPromise b \<noteq> Some True"
    using assms by (auto simp: switchToDevice_def switch_rest_def stopConnectWithRetry_result)
  have "m_connection (stopped b)" using assms(1) by simp
  then show ?thesis
  proof (rule listDevices_ok [where bus = bus], goal_cases)
    case (1 b1 k)
    with assms p show ?case by (simp add: switchToDevice_def switch_rest_def stopConnectWithRetry_result)
  next
    case l: (2 os b0 ds b1 cs)
    let ?ds = "stable_sort device_less ds"
    obtain cs' where sw: "calls b' = calls b1 @ cs'"
      "connectWithRetryPromise b' = connectWithRetryPromise b1"
      "case find (device_matches sel) ?ds of
        None \<Rightarrow> \<not> ok \<and> b' = b1
      | Some d \<Rightarrow> m_preferredDeviceObjectPath b' = Some (objectPath d)
          \<and> connected_devices cs' = (if ok then [(objectPath d, connect_uuid (strategy b))] else [])"
      using switchToDevice_after_list [OF assms(1) p l(3,4), of sel] assms(2)
      by (cases "find (device_matches sel) ?ds") auto
    have "connectWithRetryPromise b1 = map_option (\<lambda>_. True) (connectWithRetryPromise b)"
      using bt_frameD(6) [OF l(4)] by simp
    moreover have "find (device_matches []) ?ds = None" by (simp add: find_None_iff device_matches_def)
    moreover have "d \<in> set ?ds \<and> device_matches sel d" if "find (device_matches sel) ?ds = Some d" for d
      using that by (rule find_some_in)
    ultimately show ?case using l(3) sw
      by (intro exI [of _ ?ds] exI [of _ b1] exI [of _ cs']) (auto split: option.splits)
  qed
qed

text \<open>Operations that neither look at the promise nor change it: they run the same without it.\<close>

definition ignores_promise :: "('w, 'a) bt_eff \<Rightarrow> bool" where
  "ignores_promise f \<longleftrightarrow>
     (\<forall>b x. f (b\<lparr>connectWithRetryPromise := x\<rparr>) = (fst (f b), (snd (f b))\<lparr>connectWithRetryPromise := x\<rparr>))"

named_theorems ignores \<open>operations that ignore the promise\<close>

lemma ignores_ret [ignores]: "ignores_promise (ret x)" "ignores_promise (Pair r)"
  by (simp_all add: ignores_promise_def)

lemma ignores_andthen [ignores]:
  "ignores_promise f \<Longrightarrow> (\<And>x. ignores_promise (g x)) \<Longrightarrow> ignores_promise (andthen f g)"
  by (auto simp: ignores_promise_def andthen_def split: prod.split sum.split)

lemma ignores_catch [ignores]:
  "ignores_promise f \<Longrightarrow> ignores_promise g \<Longrightarrow> ignores_promise (catch f g)"
  by (auto simp: ignores_promise_def catch_def split: prod.split sum.split)

lemma ignores_typed [ignores]: "ignores_promise (dbus_typed bus c as)"
  by (auto simp: ignores_promise_def dbus_typed_def dbus_def andthen_def throw_def split: prod.split sum.split option.split)

lemma ignores_calls [ignores]:
  "ignores_promise (dbus_void bus c)" "ignores_promise (dbus_bool bus p q)"
  "ignores_promise (dbus_string bus p q)" "ignores_promise (dbus_objects bus)"
  "ignores_promise (getBluezObjects bus)"
  by (simp_all add: dbus_void_def dbus_bool_def dbus_string_def dbus_objects_def getBluezObjects_def ignores_typed)

lemma ignores_if [ignores]:
  "ignores_promise f \<Longrightarrow> ignores_promise g \<Longrightarrow> ignores_promise (if P then f else g)"
  by simp

lemma ignores_strategy: "(\<And>x. ignores_promise (f x)) \<Longrightarrow> ignores_promise (\<lambda>b. f (strategy b) b)"
  by (simp add: ignores_promise_def)

lemma ignores_read_into [ignores]:
  "ignores_promise rd \<Longrightarrow> (\<And>info. ignores_promise (go info)) \<Longrightarrow> ignores_promise (read_into rd upd go info)"
  by (auto simp: ignores_promise_def read_into_def split: prod.split sum.split)

lemma ignores_disconnect_loop [ignores]: "ignores_promise (disconnect_loop bus os)"
proof (induction os)
  case Nil
  show ?case by (simp add: ignores)
next
  case (Cons e os)
  show ?case unfolding disconnect_loop.simps by (intro ignores Cons.IH)
qed

lemma ignores_connect [ignores]: "ignores_promise (connectDeviceByObjectPath bus p)"
  unfolding connectDeviceByObjectPath_def Let_def by (rule ignores_strategy) (intro ignores)

lemma ignores_list_loop [ignores]: "ignores_promise (list_loop bus os)"
proof (induction os)
  case Nil
  show ?case by (simp add: ignores)
next
  case (Cons e os)
  show ?case unfolding list_loop.simps read_device_info_def by (intro ignores Cons.IH)
qed

lemma ignores_listDevices [ignores]: "ignores_promise (listDevices bus)"
proof -
  have "ignores_promise (andthen (getBluezObjects bus) (\<lambda>objects.
      andthen (list_loop bus objects) (\<lambda>devices. ret (stable_sort device_less devices))))"
    by (intro ignores)
  then show ?thesis by (simp add: ignores_promise_def listDevices_def)
qed

lemma ignores_preferred [ignores]:
  fixes f :: "('w, 'a) bt_eff"
  assumes "ignores_promise f"
  shows "ignores_promise (\<lambda>b. f (b\<lparr>m_preferredDeviceObjectPath := v\<rparr>))"
  unfolding ignores_promise_def
proof (intro allI)
  fix b :: "'w bt" and x
  have "b\<lparr>connectWithRetryPromise := x, m_preferredDeviceObjectPath := v\<rparr>
      = b\<lparr>m_preferredDeviceObjectPath := v, connectWithRetryPromise := x\<rparr>" by simp
  with assms show "f (b\<lparr>connectWithRetryPromise := x, m_preferredDeviceObjectPath := v\<rparr>)
      = (fst (f (b\<lparr>m_preferredDeviceObjectPath := v\<rparr>)),
         (snd (f (b\<lparr>m_preferredDeviceObjectPath := v\<rparr>)))\<lparr>connectWithRetryPromise := x\<rparr>)"
    unfolding ignores_promise_def by metis
qed

lemma ignores_option [ignores]:
  "ignores_promise f \<Longrightarrow> (\<And>d. ignores_promise (g d)) \<Longrightarrow> ignores_promise (case x of None \<Rightarrow> f | Some d \<Rightarrow> g d)"
  by (simp split: option.split)

lemma ignores_switch_rest: "ignores_promise (switch_rest bus sel)"
  unfolding switch_rest_def disconnectAllConnectedDevices_def by (intro ignores)

text \<open>
  What the other threads may do around the wake-up when the device is switched: the whole call
  before it, or its call of set_value before and the rest of it behind.
\<close>

definition switch_orders :: "'w bus \<Rightarrow> string \<Rightarrow> (('w bt \<Rightarrow> 'w bt) \<times> ('w bt \<Rightarrow> 'w bt)) set" where
  "switch_orders bus sel =
     {(\<lambda>b. snd (switchToDevice bus sel b), \<lambda>b. b),
      (\<lambda>b. snd (stopConnectWithRetry b), \<lambda>b. snd (switch_rest bus sel b))}"

lemma switch_orders_agree:
  assumes "(others, meanwhile) \<in> switch_orders bus sel" "m_connection b"
    and "connectWithRetryPromise b = Some False" "switchToDevice bus sel b = (r, b2)"
    and "connectWithRetryPromise b2 = Some True"
  shows "connectWithRetryPromise (others b) = Some True
    \<and> meanwhile ((others b)\<lparr>connectWithRetryPromise := None\<rparr>) = b2\<lparr>connectWithRetryPromise := None\<rparr>"
proof (cases "others = (\<lambda>b. snd (switchToDevice bus sel b)) \<and> meanwhile = (\<lambda>b. b)")
  case True
  with assms(4,5) show ?thesis by simp
next
  case False
  with assms(1) have f: "others = (\<lambda>b. snd (stopConnectWithRetry b))" "meanwhile = (\<lambda>b. snd (switch_rest bus sel b))"
    by (auto simp: switch_orders_def)
  have s: "stopConnectWithRetry b = (Inr (), stopped b)" using assms(3) by (simp add: stopConnectWithRetry_result)
  with assms(2,4) have "switch_rest bus sel (stopped b) = (r, b2)" by (simp add: switchToDevice_def)
  with ignores_switch_rest [of bus sel] s assms(3) show ?thesis
    by (simp add: f ignores_promise_def)
qed

text \<open>
  C32. A switch while the retry thread is waiting ends in a powered-off adapter.  Outside dongle
  mode, when a switch request succeeds between two attempts of the retry thread, the thread
  wakes up, drops the promise and powers the adapter off: when the switch is done by then
  (before the wake-up, or around it), the last call made is the power-off, and it comes after the
  connection the switch was asked for.
\<close>

theorem switch_during_retry_powers_off:
  assumes "strategy b \<noteq> DONGLE_MODE" "m_connection b" "m_adapter b = Some a"
    and "connectWithRetryPromise b = Some False" "connectDevice bus b = (Inr (), b1)"
    and "switchToDevice bus sel b1 = (Inr True, b2)" "(others, meanwhile) \<in> switch_orders bus sel"
  shows "\<exists>r b3 k pre p. retryConnectLoop bus ((others, meanwhile) # rounds) b = (r, b3)
    \<and> calls b3 = calls b2 @ [(SetBool a ''Powered'' False, k)]
    \<and> connected_devices (calls b2) = pre @ [(p, HSP_AG_UUID)]
    \<and> m_preferredDeviceObjectPath b3 = Some p
    \<and> connectWithRetryPromise b3 = None \<and> (k \<longrightarrow> r = Inr (Some ()))"
proof -
  obtain r0 b0 cs0 where "connectDevice bus b = (r0, b0)" "bt_frame b cs0 b0"
    using connectDevice_any by blast
  with assms(5) have f: "bt_frame b cs0 b1" by simp
  note keep = bt_frameD [OF f]
  have b1: "m_connection b1" "connectWithRetryPromise b1 = Some False" "m_connection (stopped b1)"
    using keep assms(2,4) by simp_all
  then have p1: "connectWithRetryPromise b1 \<noteq> Some True" by simp
  from b1(3) show ?thesis
  proof (rule listDevices_ok [where bus = bus], goal_cases)
    case (1 b' k)
    with b1 assms(6) show ?case by (simp add: switchToDevice_def switch_rest_def stopConnectWithRetry_result)
  next
    case l: (2 os b' ds b'' cs)
    let ?ds = "stable_sort device_less ds"
    obtain cs' where sw: "calls b2 = calls b'' @ cs'" "connectWithRetryPromise b2 = connectWithRetryPromise b''"
      "m_adapter b2 = m_adapter b1" "strategy b2 = strategy b1"
      "case find (device_matches sel) ?ds of None \<Rightarrow> False
       | Some d \<Rightarrow> m_preferredDeviceObjectPath b2 = Some (objectPath d)
           \<and> connected_devices cs' = [(objectPath d, connect_uuid (strategy b1))]"
      using switchToDevice_after_list [OF b1(1) p1 l(3,4), of sel] assms(6)
      by (cases "find (device_matches sel) ?ds") auto
    then obtain p where d: "m_preferredDeviceObjectPath b2 = Some p"
      "connected_devices cs' = [(p, HSP_AG_UUID)]"
      using assms(1) keep(2) by (auto simp: connect_uuid_def split: option.splits)
    have b2: "connectWithRetryPromise b2 = Some True" "m_adapter b2 = Some a" "strategy b2 \<noteq> DONGLE_MODE"
      using sw bt_frameD [OF l(4)] keep assms b1 by simp_all
    note o1 = switch_orders_agree [OF assms(7) b1(1,2) assms(6) b2(1)]
    let ?b2 = "b2\<lparr>connectWithRetryPromise := None\<rparr>"
    let ?c = "SetBool a ''Powered'' False"
    obtain r3 b3 k where o: "dbus_void bus ?c ?b2 = (r3, b3)" "bt_frame ?b2 [(?c, k)] b3"
      "k \<longrightarrow> r3 = Inr ()"
      by (cases rule: dbus_void_cases [of bus ?c ?b2]) blast+
    have po: "powerOff bus ?b2 = (r3, b3)"
      using b2 o(1) by (simp add: powerOff_def setPower_def)
    have "\<exists>r. retryConnectLoop bus ((others, meanwhile) # rounds) b = (r, b3)
        \<and> (k \<longrightarrow> r = Inr (Some ()))"
      using po o(3) b2 o1 assms(5) by (cases r3) (simp_all add: Let_def)
    with bt_frameD [OF o(2)] d sw(1) show ?case by (auto 0 3)
  qed
qed

text \<open>The world of the witnesses once its second device is connected, and the switch to it.\<close>

definition demo_bt1 :: "nat bt" where "demo_bt1 = snd (connectDevice demo_bus demo_bt)"
definition demo_bt2 :: "nat bt" where "demo_bt2 = snd (switchToDevice demo_bus ''d2'' demo_bt1)"

lemmas demo_eval = dbus_def dbus_typed_def dbus_objects_def dbus_bool_def dbus_string_def dbus_void_def
  andthen_def catch_def ret_def throw_def Let_def getBluezObjects_def
  demo_objects_def INTERFACE_BLUEZ_ADAPTER_def INTERFACE_BLUEZ_DEVICE_def

lemma demo_bt1_eq: "connectDevice demo_bus demo_bt = (Inr (), demo_bt1)" "demo_bt1 =
    demo_bt\<lparr>world := 3, calls := [(GetManagedObjects, True), (Get ''d2'' ''Connected'', True),
      (ConnectProfile ''d2'' HSP_AG_UUID, True)]\<rparr>"
proof -
  have "connectDevice demo_bus demo_bt = (Inr (), demo_bt\<lparr>world := 3,
      calls := [(GetManagedObjects, True), (Get ''d2'' ''Connected'', True),
        (ConnectProfile ''d2'' HSP_AG_UUID, True)]\<rparr>)"
    by (simp add: demo_bt_def connectDevice_def device_paths_def connect_order_def preferring_def
        connectDeviceByObjectPath_def demo_eval)
  then show "connectDevice demo_bus demo_bt = (Inr (), demo_bt1)" "demo_bt1 =
    demo_bt\<lparr>world := 3, calls := [(GetManagedObjects, True), (Get ''d2'' ''Connected'', True),
      (ConnectProfile ''d2'' HSP_AG_UUID, True)]\<rparr>"
    by (simp_all add: demo_bt1_def)
qed

lemma demo_bt2_eq: "switchToDevice demo_bus ''d2'' demo_bt1 = (Inr True, demo_bt2)"
proof -
  have "fst (switchToDevice demo_bus ''d2'' demo_bt1) = Inr True"
    by (simp add: demo_bt1_eq(2) demo_bt_def switchToDevice_def switch_rest_def stopConnectWithRetry_def listDevices_def
        read_device_info_def read_into_def is_device_def device_less_def device_matches_def
        disconnectAllConnectedDevices_def connectDeviceByObjectPath_def demo_eval)
  then show ?thesis unfolding demo_bt2_def by (metis prod.collapse)
qed

lemmas demo_runs = demo_bt1_eq(1) demo_bt2_eq

lemma demo_bt1_connected: "m_connection demo_bt1"
  by (simp add: demo_bt1_eq(2))

theorem switchToDevice_selects_witness:
  "\<exists>ds b1 cs. listDevices demo_bus (stopped demo_bt1) = (Inr ds, b1) \<and> calls demo_bt2 = calls b1 @ cs
    \<and> connectWithRetryPromise demo_bt2 = map_option (\<lambda>_. True) (connectWithRetryPromise demo_bt1)"
  using switchToDevice_selects [OF demo_bt1_connected demo_runs(2)] by blast

theorem switch_during_retry_powers_off_witness:
  "\<exists>r b3 k pre p. retryConnectLoop demo_bus
        [(\<lambda>b. snd (stopConnectWithRetry b), \<lambda>b. snd (switch_rest demo_bus ''d2'' b))] demo_bt = (r, b3)
    \<and> calls b3 = calls demo_bt2 @ [(SetBool ''a'' ''Powered'' False, k)]
    \<and> connected_devices (calls demo_bt2) = pre @ [(p, HSP_AG_UUID)]"
proof -
  have "strategy demo_bt \<noteq> DONGLE_MODE" by simp
  have o: "(\<lambda>b. snd (stopConnectWithRetry b), \<lambda>b. snd (switch_rest demo_bus ''d2'' b)) \<in> switch_orders demo_bus ''d2''"
    by (simp add: switch_orders_def)
  from switch_during_retry_powers_off [OF \<open>strategy demo_bt \<noteq> DONGLE_MODE\<close> demo_bt_sel(4,5,6) demo_runs o, of "[]"]
  show ?thesis by blast
qed

section \<open>Start-up\<close>

text \<open>A bus that answers the listing with os and every other call without an error.\<close>

definition answers :: "'w bus \<Rightarrow> (string \<times> string list) list \<Rightarrow> bool" where
  "answers bus os \<longleftrightarrow> (\<forall>w. fst (bus GetManagedObjects w) = Objects os)
     \<and> (\<forall>c w. c \<noteq> GetManagedObjects \<longrightarrow> fst (bus c w) = Done)"

lemma answers_void:
  assumes "answers bus os" "c \<noteq> GetManagedObjects"
  shows "\<exists>w. dbus_void bus c b = (Inr (), b\<lparr>world := w, calls := calls b @ [(c, True)]\<rparr>)"
  using assms by (auto simp: dbus_void_def dbus_typed_def dbus_def andthen_def answers_def
      split: prod.split) (metis dbus_reply.distinct(19) fst_conv)+

lemma answers_objects:
  assumes "answers bus os"
  shows "\<exists>w. dbus_objects bus b = (Inr os, b\<lparr>world := w, calls := calls b @ [(GetManagedObjects, True)]\<rparr>)"
proof -
  obtain w where "bus GetManagedObjects (world b) = (Objects os, w)"
    using assms by (metis answers_def prod.collapse)
  then show ?thesis
    by (intro exI [of _ w]) (simp add: dbus_objects_def dbus_typed_def dbus_def andthen_def)
qed

text \<open>An operation that makes the calls cs, all answered, and changes nothing else.\<close>

definition says :: "('w, unit) bt_eff \<Rightarrow> 'w bt \<Rightarrow> dbus_call list \<Rightarrow> bool" where
  "says f b cs \<longleftrightarrow> (\<exists>w. f b = (Inr (), b\<lparr>world := w, calls := calls b @ map (\<lambda>c. (c, True)) cs\<rparr>))"

lemma says_calls:
  "says f b cs \<Longrightarrow> \<exists>b'. f b = (Inr (), b') \<and> map fst (calls b') = map fst (calls b) @ cs"
  by (auto simp: says_def comp_def)

lemma says_ret [intro]: "says (ret ()) b []"
  unfolding says_def by (intro exI [of _ "world b"]) simp

lemma says_void: "answers bus os \<Longrightarrow> c \<noteq> GetManagedObjects \<Longrightarrow> says (dbus_void bus c) b [c]"
  unfolding says_def using answers_void by force

lemma says_register: "answers bus os \<Longrightarrow> says (register_object bus p obj) b [RegisterObject p obj]"
  using answers_void [of bus os "RegisterObject p obj" b] by (auto simp: says_def register_object_def)

lemma says_andthen:
  assumes "says f b cs" "\<And>w. says (g ()) (b\<lparr>world := w, calls := calls b @ map (\<lambda>c. (c, True)) cs\<rparr>) ds"
  shows "says (andthen f g) b (cs @ ds)"
proof -
  obtain w where f: "f b = (Inr (), b\<lparr>world := w, calls := calls b @ map (\<lambda>c. (c, True)) cs\<rparr>)"
    using assms(1) by (auto simp: says_def)
  from assms(2) [of w] obtain w' where "g () (b\<lparr>world := w, calls := calls b @ map (\<lambda>c. (c, True)) cs\<rparr>)
      = (Inr (), b\<lparr>world := w', calls := calls b @ map (\<lambda>c. (c, True)) (cs @ ds)\<rparr>)"
    by (auto simp: says_def)
  with f show ?thesis unfolding says_def by (intro exI [of _ w']) simp
qed

lemma says_if: "says (if strategy b = st then f else g) b cs \<Longrightarrow> says (\<lambda>b. if strategy b = st then f b else g b) b cs"
  by (auto simp: says_def split: if_splits)

definition profile_calls :: "ConnectionStrategy \<Rightarrow> dbus_call list" where
  "profile_calls st =
     [RegisterObject AAWG_PROFILE_OBJECT_PATH AAWirelessProfile, RegisterProfile AAWG_PROFILE_OBJECT_PATH AAWG_PROFILE_UUID aawg_options]
     @ (if st \<noteq> DONGLE_MODE
        then [RegisterObject HSP_HS_PROFILE_OBJECT_PATH HSPHSProfile, RegisterProfile HSP_HS_PROFILE_OBJECT_PATH HSP_HS_UUID hsp_options]
        else [])"

definition advertising_calls :: "string \<Rightarrow> dbus_call list" where
  "advertising_calls alias =
     [RegisterObject LE_ADVERTISEMENT_OBJECT_PATH (Advertisement (advertisement alias)),
      RegisterAdvertisement LE_ADVERTISEMENT_OBJECT_PATH []]"

lemma says_exportProfiles:
  assumes "answers bus os"
  shows "says (exportProfiles bus) b (profile_calls (strategy b))"
proof -
  note reg = says_register [OF assms] and void = says_void [OF assms]
  have hsp: "says (\<lambda>b. if strategy b \<noteq> DONGLE_MODE
       then andthen (register_object bus HSP_HS_PROFILE_OBJECT_PATH HSPHSProfile)
              (\<lambda>_. dbus_void bus (RegisterProfile HSP_HS_PROFILE_OBJECT_PATH HSP_HS_UUID hsp_options)) b
       else ret () b) c
      (if strategy c \<noteq> DONGLE_MODE
        then [RegisterObject HSP_HS_PROFILE_OBJECT_PATH HSPHSProfile] @ [RegisterProfile HSP_HS_PROFILE_OBJECT_PATH HSP_HS_UUID hsp_options]
        else [])" for c
  proof -
    have "says (andthen (register_object bus HSP_HS_PROFILE_OBJECT_PATH HSPHSProfile)
          (\<lambda>_. dbus_void bus (RegisterProfile HSP_HS_PROFILE_OBJECT_PATH HSP_HS_UUID hsp_options))) c
        ([RegisterObject HSP_HS_PROFILE_OBJECT_PATH HSPHSProfile] @ [RegisterProfile HSP_HS_PROFILE_OBJECT_PATH HSP_HS_UUID hsp_options])"
      by (rule says_andthen [OF reg], rule void) simp
    then show ?thesis using says_ret [of c] by (cases "strategy c = DONGLE_MODE") (simp_all add: says_def)
  qed
  have "says (exportProfiles bus) b
     ([RegisterObject AAWG_PROFILE_OBJECT_PATH AAWirelessProfile] @ ([RegisterProfile AAWG_PROFILE_OBJECT_PATH AAWG_PROFILE_UUID aawg_options]
       @ (if strategy b \<noteq> DONGLE_MODE
        then [RegisterObject HSP_HS_PROFILE_OBJECT_PATH HSPHSProfile] @ [RegisterProfile HSP_HS_PROFILE_OBJECT_PATH HSP_HS_UUID hsp_options]
        else [])))"
    unfolding exportProfiles_def
    by (rule says_andthen [OF reg], rule says_andthen [OF void], simp)
       (use hsp [of "b\<lparr>world := w, calls := cs\<rparr>" for w cs] in simp)
  then show ?thesis by (cases "strategy b = DONGLE_MODE") (simp_all add: profile_calls_def)
qed

lemma says_powerOn:
  assumes "answers bus os" "m_adapter b = Some a"
  shows "says (powerOn bus) b
    ([SetBool a ''Powered'' True] @ ([SetBool a ''Discoverable'' True, SetBool a ''Pairable'' True]
     @ (if strategy b = DONGLE_MODE
        then advertising_calls (m_adapterAlias b)
        else [])))"
proof -
  note void = says_void [OF assms(1)]
  have pw: "says (setPower bus True) c [SetBool a ''Powered'' True]" if "m_adapter c = Some a" for c
    using void [of "SetBool a ''Powered'' True" c] that by (simp add: says_def setPower_def)
  have pa: "says (setPairable bus True) c [SetBool a ''Discoverable'' True, SetBool a ''Pairable'' True]"
    if "m_adapter c = Some a" for c
  proof -
    have "says (andthen (dbus_void bus (SetBool a ''Discoverable'' True))
        (\<lambda>_. dbus_void bus (SetBool a ''Pairable'' True))) c
        ([SetBool a ''Discoverable'' True] @ [SetBool a ''Pairable'' True])"
      by (rule says_andthen [OF void void]) simp_all
    with that show ?thesis by (simp add: says_def setPairable_def)
  qed
  have ad: "says (\<lambda>b. if strategy b = DONGLE_MODE then startAdvertising bus b else ret () b) c
      (if strategy c = DONGLE_MODE
        then advertising_calls (m_adapterAlias c)
        else [])" if "m_adapter c = Some a" for c
  proof -
    have "says (andthen (register_object bus LE_ADVERTISEMENT_OBJECT_PATH
            (Advertisement (advertisement (m_adapterAlias c))))
        (\<lambda>_. dbus_void bus (RegisterAdvertisement LE_ADVERTISEMENT_OBJECT_PATH []))) c
        ([RegisterObject LE_ADVERTISEMENT_OBJECT_PATH (Advertisement (advertisement (m_adapterAlias c)))]
          @ [RegisterAdvertisement LE_ADVERTISEMENT_OBJECT_PATH []])"
      by (rule says_andthen [OF says_register [OF assms(1)]], rule void) simp
    with that show ?thesis using says_ret [of c]
      by (cases "strategy c = DONGLE_MODE") (simp_all add: says_def startAdvertising_def advertising_calls_def)
  qed
  have "says (andthen (setPower bus True) (\<lambda>_. andthen (setPairable bus True) (\<lambda>_ b.
           if strategy b = DONGLE_MODE then startAdvertising bus b else ret () b))) b
    ([SetBool a ''Powered'' True] @ ([SetBool a ''Discoverable'' True, SetBool a ''Pairable'' True]
     @ (if strategy b = DONGLE_MODE
        then advertising_calls (m_adapterAlias b)
        else [])))"
    by (rule says_andthen [OF pw], simp add: assms(2), rule says_andthen [OF pa], simp add: assms(2))
       (use ad [of "b\<lparr>world := w, calls := cs\<rparr>" for w cs] assms(2) in \<open>simp cong: if_cong\<close>)
  with assms(2) show ?thesis by (simp add: says_def powerOn_def)
qed

definition chosen_adapter :: "(string \<times> string list) list \<Rightarrow> string option" where
  "chosen_adapter os = map_option fst
     (find (\<lambda>(path, interfaces). INTERFACE_BLUEZ_ADAPTER \<in> set interfaces \<and> path \<noteq> []) os)"

lemma bt_init_says:
  fixes h :: host
  assumes "answers bus os" "m_adapter b = None"
  defines "alias \<equiv> adapter_alias h (strategy b)"
  obtains b1 where "bt_init bus h b = (Inr (), b1)" "m_connection b1" "strategy b1 = strategy b"
    "m_adapter b1 = chosen_adapter os" "m_adapterAlias b1 = alias"
    "map fst (calls b1) = map fst (calls b) @ [GetManagedObjects]
      @ (case chosen_adapter os of None \<Rightarrow> [] | Some a \<Rightarrow> [SetString a ''Alias'' alias])
      @ profile_calls (strategy b)"
proof -
  let ?b0 = "b\<lparr>m_connection := True, m_adapterAlias := alias\<rparr>"
  obtain w where o: "dbus_objects bus ?b0 =
      (Inr os, ?b0\<lparr>world := w, calls := calls b @ [(GetManagedObjects, True)]\<rparr>)"
    using answers_objects [OF assms(1), of ?b0] by auto
  let ?b1 = "?b0\<lparr>world := w, calls := calls b @ [(GetManagedObjects, True)]\<rparr>"
  obtain b2 where i: "initAdapter bus ?b0 = (Inr (), b2)" "m_connection b2" "strategy b2 = strategy b"
    "m_adapter b2 = chosen_adapter os" "m_adapterAlias b2 = alias"
    "map fst (calls b2) = map fst (calls b) @ [GetManagedObjects]
        @ (case chosen_adapter os of None \<Rightarrow> [] | Some a \<Rightarrow> [SetString a ''Alias'' alias])"
  proof (cases "find (\<lambda>(path, interfaces). INTERFACE_BLUEZ_ADAPTER \<in> set interfaces \<and> path \<noteq> []) os")
    case None
    with o assms(2) show thesis
      by (intro that [of ?b1]) (simp_all add: initAdapter_def getBluezObjects_def chosen_adapter_def)
  next
    case (Some p)
    obtain w' where v: "dbus_void bus (SetString (fst p) ''Alias'' alias) (?b1\<lparr>m_adapter := Some (fst p)\<rparr>)
        = (Inr (), ?b1\<lparr>m_adapter := Some (fst p), world := w',
            calls := calls b @ [(GetManagedObjects, True), (SetString (fst p) ''Alias'' alias, True)]\<rparr>)"
      using answers_void [OF assms(1), of "SetString (fst p) ''Alias'' alias" "?b1\<lparr>m_adapter := Some (fst p)\<rparr>"]
      by auto
    with Some o show thesis
      by (intro that [of "?b1\<lparr>m_adapter := Some (fst p), world := w',
            calls := calls b @ [(GetManagedObjects, True), (SetString (fst p) ''Alias'' alias, True)]\<rparr>"])
         (simp_all add: initAdapter_def getBluezObjects_def chosen_adapter_def case_prod_beta)
  qed
  obtain w3 where e: "exportProfiles bus b2 = (Inr (), b2\<lparr>world := w3,
      calls := calls b2 @ map (\<lambda>c. (c, True)) (profile_calls (strategy b))\<rparr>)"
    using says_exportProfiles [OF assms(1), of b2] i(3) by (auto simp: says_def)
  show thesis
    by (rule that [of "b2\<lparr>world := w3, calls := calls b2 @ map (\<lambda>c. (c, True)) (profile_calls (strategy b))\<rparr>"])
       (use i e in \<open>simp_all add: bt_init_def alias_def comp_def\<close>)
qed

definition power_on_calls :: "string option \<Rightarrow> ConnectionStrategy \<Rightarrow> string \<Rightarrow> dbus_call list" where
  "power_on_calls adapter st alias = (case adapter of None \<Rightarrow> [] | Some a \<Rightarrow>
     [SetBool a ''Powered'' True, SetBool a ''Discoverable'' True, SetBool a ''Pairable'' True]
     @ (if st = DONGLE_MODE then advertising_calls alias else []))"

lemma powerOn_says:
  assumes "answers bus os"
  obtains b2 where "powerOn bus b1 = (Inr (), b2)"
    "map fst (calls b2) = map fst (calls b1) @ power_on_calls (m_adapter b1) (strategy b1) (m_adapterAlias b1)"
proof (cases "m_adapter b1")
  case None
  then show thesis by (intro that [of b1]) (simp_all add: powerOn_def power_on_calls_def)
next
  case (Some a)
  from says_calls [OF says_powerOn [OF assms Some]] show thesis
    by (elim exE conjE) (rule that, simp_all add: Some power_on_calls_def)
qed

text \<open>
  Start-up and power-up with a BlueZ that answers.  init takes the first object with an
  adapter interface and gives it the configured or the derived name, and then registers the
  Android Auto profile, and outside dongle mode the headset profile, in this order; powerOn makes
  that adapter powered, discoverable and pairable, and advertises in dongle mode only.  Without
  an adapter the profiles are registered all the same and powering on does nothing.
\<close>

lemma init_and_power_on:
  fixes h :: host
  assumes "answers bus os" "m_adapter b = None"
  defines "alias \<equiv> adapter_alias h (strategy b)"
  shows "\<exists>b1 b2. bt_init bus h b = (Inr (), b1) \<and> powerOn bus b1 = (Inr (), b2)
    \<and> m_connection b1 \<and> m_adapter b1 = chosen_adapter os \<and> m_adapterAlias b1 = alias
    \<and> map fst (calls b1) = map fst (calls b) @ [GetManagedObjects]
        @ (case chosen_adapter os of None \<Rightarrow> [] | Some a \<Rightarrow> [SetString a ''Alias'' alias])
        @ profile_calls (strategy b)
    \<and> map fst (calls b2) = map fst (calls b1) @ (case chosen_adapter os of None \<Rightarrow> [] | Some a \<Rightarrow>
        [SetBool a ''Powered'' True, SetBool a ''Discoverable'' True, SetBool a ''Pairable'' True]
        @ (if strategy b = DONGLE_MODE then advertising_calls alias else []))"
proof -
  obtain b1 where b1: "bt_init bus h b = (Inr (), b1)" "m_connection b1" "strategy b1 = strategy b"
    "m_adapter b1 = chosen_adapter os" "m_adapterAlias b1 = alias"
    "map fst (calls b1) = map fst (calls b) @ [GetManagedObjects]
      @ (case chosen_adapter os of None \<Rightarrow> [] | Some a \<Rightarrow> [SetString a ''Alias'' alias])
      @ profile_calls (strategy b)"
    by (rule bt_init_says [OF assms(1,2), of h, folded alias_def]) (rule that; assumption)
  obtain b2 where "powerOn bus b1 = (Inr (), b2)"
    "map fst (calls b2) = map fst (calls b1) @ power_on_calls (m_adapter b1) (strategy b1) (m_adapterAlias b1)"
    by (rule powerOn_says [OF assms(1)])
  with b1 show ?thesis
    by - (rule exI [of _ b1], rule exI [of _ b2], simp add: power_on_calls_def split: option.split)
qed

fun silent_bus :: "nat bus" where
  "silent_bus GetManagedObjects n = (Objects demo_objects, n)"
| "silent_bus _ n = (Done, n)"

lemma silent_answers: "answers silent_bus demo_objects"
  unfolding answers_def
proof (intro conjI allI impI)
  fix c :: dbus_call and w assume "c \<noteq> GetManagedObjects"
  then show "fst (silent_bus c w) = Done" by (cases c) simp_all
qed simp

lemma init_and_power_on_witness:
  "\<exists>b1 b2. bt_init silent_bus demo_host (demo_bt\<lparr>m_adapter := None\<rparr>) = (Inr (), b1)
    \<and> powerOn silent_bus b1 = (Inr (), b2) \<and> m_adapter b1 = Some ''a''"
proof -
  have "chosen_adapter demo_objects = Some ''a''"
    by (simp add: chosen_adapter_def demo_objects_def)
  with init_and_power_on [OF silent_answers, of "demo_bt\<lparr>m_adapter := None\<rparr>" demo_host] show ?thesis
    by auto
qed

end
