(* ===== verification/Handover.thy ===== *)
theory Handover
  imports Bluetooth
begin

text \<open>
  What the Bluetooth operations are for: which devices are connected afterwards.  The
  specification is a set of connected devices and two operations on it; the theorems are that
  disconnectAll and switchToDevice implement them over every bus that keeps the
  laws of BlueZ for the Connected property and the methods Disconnect and ConnectProfile, the
  failures among them included.
\<close>

section \<open>The laws of the bus\<close>

text \<open>The devices among the listed objects.\<close>

definition devices_of :: "(string \<times> string list) list \<Rightarrow> string set" where
  "devices_of objs = fst ` set (filter is_device objs)"

text \<open>
  What the world does with the devices: which are connected in a state, which let themselves be
  connected, which BlueZ fails to disconnect (org.bluez.Error.Failed), and whose Connected
  property cannot be read.
\<close>

record 'w phones =
  connected_in :: "'w \<Rightarrow> string set"
  accepting :: "string set"
  stuck :: "string set"
  silent :: "string set"

text \<open>
  The objects are listed; reading a property changes nothing, and Connected, where it can be
  read, tells the truth.  Disconnect of a connected device disconnects it, or fails and changes
  nothing; of a device that is not connected it changes nothing, whatever the answer (BlueZ
  documents the error NotConnected).  ConnectProfile of a device that is not connected connects
  it, or fails and changes nothing.
\<close>

definition bluez :: "'w bus \<Rightarrow> (string \<times> string list) list \<Rightarrow> 'w phones \<Rightarrow> bool" where
  "bluez bus objs bz \<longleftrightarrow> (\<forall>w.
      fst (bus GetManagedObjects w) = Objects objs
    \<and> connected_in bz (snd (bus GetManagedObjects w)) = connected_in bz w
    \<and> (\<forall>p q. connected_in bz (snd (bus (Get p q) w)) = connected_in bz w)
    \<and> (\<forall>p \<in> devices_of objs. fst (bus (Get p ''Connected'') w)
         = (if p \<in> silent bz then Error else Bool (p \<in> connected_in bz w)))
    \<and> (\<forall>p \<in> devices_of objs. p \<in> connected_in bz w \<longrightarrow>
         (fst (bus (Disconnect p) w) = Error \<longleftrightarrow> p \<in> stuck bz))
    \<and> (\<forall>p \<in> devices_of objs. connected_in bz (snd (bus (Disconnect p) w))
         = (if p \<in> stuck bz then connected_in bz w else connected_in bz w - {p}))
    \<and> (\<forall>p \<in> devices_of objs. \<forall>u. p \<notin> connected_in bz w \<longrightarrow>
         (fst (bus (ConnectProfile p u) w) = Error \<longleftrightarrow> p \<notin> accepting bz)
       \<and> connected_in bz (snd (bus (ConnectProfile p u) w))
         = (if p \<in> accepting bz then insert p (connected_in bz w) else connected_in bz w)))"

lemma bluezD:
  assumes "bluez bus objs bz"
  shows "fst (bus GetManagedObjects w) = Objects objs"
    and "connected_in bz (snd (bus GetManagedObjects w)) = connected_in bz w"
    and "connected_in bz (snd (bus (Get p q) w)) = connected_in bz w"
    and "p \<in> devices_of objs \<Longrightarrow> fst (bus (Get p ''Connected'') w)
      = (if p \<in> silent bz then Error else Bool (p \<in> connected_in bz w))"
    and "p \<in> devices_of objs \<Longrightarrow> p \<in> connected_in bz w \<Longrightarrow>
      fst (bus (Disconnect p) w) = Error \<longleftrightarrow> p \<in> stuck bz"
    and "p \<in> devices_of objs \<Longrightarrow> connected_in bz (snd (bus (Disconnect p) w))
      = (if p \<in> stuck bz then connected_in bz w else connected_in bz w - {p})"
    and "p \<in> devices_of objs \<Longrightarrow> p \<notin> connected_in bz w \<Longrightarrow>
      fst (bus (ConnectProfile p u) w) = Error \<longleftrightarrow> p \<notin> accepting bz"
    and "p \<in> devices_of objs \<Longrightarrow> p \<notin> connected_in bz w \<Longrightarrow>
      connected_in bz (snd (bus (ConnectProfile p u) w))
      = (if p \<in> accepting bz then insert p (connected_in bz w) else connected_in bz w)"
  using assms unfolding bluez_def by blast+

section \<open>The specification\<close>

text \<open>
  D is the set of connected devices, V the devices BlueZ knows.  Disconnecting is best-effort:
  the devices that BlueZ cannot disconnect, or of which it does not say whether they are
  connected, stay as they are, and the others of V are disconnected whatever these do.
\<close>

definition spec_disconnect_all :: "'w phones \<Rightarrow> string set \<Rightarrow> string set \<Rightarrow> string set" where
  "spec_disconnect_all bz V D = D - (V - (stuck bz \<union> silent bz))"

text \<open>
  The answer to a switch to p, and the devices connected afterwards: all others are
  disconnected, and p is connected, and the answer true, if p accepts and its former connection,
  if it had one, could be found out and ended.
\<close>

definition spec_switch :: "'w phones \<Rightarrow> string set \<Rightarrow> string \<Rightarrow> string set \<Rightarrow> bool \<times> string set" where
  "spec_switch bz V p D =
     (if p \<in> accepting bz \<and> p \<notin> silent bz \<and> (p \<in> D \<longrightarrow> p \<notin> stuck bz)
      then (True, insert p (spec_disconnect_all bz V D)) else (False, spec_disconnect_all bz V D))"

lemma spec_switch_eq:
  "spec_switch bz V p D =
     (p \<in> accepting bz \<and> p \<notin> silent bz \<and> (p \<in> D \<longrightarrow> p \<notin> stuck bz),
      if p \<in> accepting bz \<and> p \<notin> silent bz \<and> (p \<in> D \<longrightarrow> p \<notin> stuck bz)
      then insert p (spec_disconnect_all bz V D) else spec_disconnect_all bz V D)"
  by (auto simp: spec_switch_def)

section \<open>Single calls\<close>

definition connected_now :: "('w \<Rightarrow> string set) \<Rightarrow> 'w bt \<Rightarrow> string set" where
  "connected_now conn b = conn (world b)"

definition leaves_connected :: "('w \<Rightarrow> string set) \<Rightarrow> ('w, 'a) bt_eff \<Rightarrow> bool" where
  "leaves_connected conn f \<longleftrightarrow> (\<forall>b. connected_now conn (snd (f b)) = connected_now conn b)"

named_theorems leaves \<open>operations that connect and disconnect nothing\<close>

lemma connected_now_upd [simp]:
  "connected_now conn (b\<lparr>m_preferredDeviceObjectPath := q\<rparr>) = connected_now conn b"
  "connected_now conn (stopped b) = connected_now conn b"
  by (simp_all add: connected_now_def stopped_def)

lemma leaves_ret [leaves]: "leaves_connected conn (ret x)"
  by (simp add: leaves_connected_def)

lemma leaves_andthen [leaves]:
  assumes "leaves_connected conn f" "\<And>x. leaves_connected conn (g x)"
  shows "leaves_connected conn (andthen f g)"
  using assms by (auto simp: leaves_connected_def andthen_def split: prod.split sum.split) (metis snd_conv)+

lemma leaves_typed:
  assumes "\<And>w. conn (snd (bus c w)) = conn w"
  shows "leaves_connected conn (dbus_typed bus c as)"
  using assms
  by (auto simp: leaves_connected_def connected_now_def dbus_typed_def dbus_def andthen_def throw_def
      split: prod.split sum.split option.split) (metis snd_conv)+

lemma leaves_get:
  assumes "bluez bus objs bz"
  shows "leaves_connected (connected_in bz) (dbus_string bus p prop)" "leaves_connected (connected_in bz) (dbus_bool bus p prop)"
    "leaves_connected (connected_in bz) (dbus_objects bus)"
  using bluezD(2,3) [OF assms] by (auto simp: dbus_string_def dbus_bool_def dbus_objects_def intro!: leaves_typed)

lemma leaves_read_into [leaves]:
  assumes "leaves_connected conn rd" "\<And>info. leaves_connected conn (go info)"
  shows "leaves_connected conn (read_into rd upd go info)"
  using assms by (auto simp: leaves_connected_def read_into_def split: prod.split sum.split) (metis snd_conv)+

lemma leaves_list_loop:
  assumes "bluez bus objs bz"
  shows "leaves_connected (connected_in bz) (list_loop bus os)"
proof (induction os)
  case Nil
  show ?case by (simp add: leaves_connected_def)
next
  case (Cons e os)
  have "leaves_connected (connected_in bz) (read_device_info bus p)" for p
    unfolding read_device_info_def by (intro leaves leaves_get [OF assms])
  then show ?case using Cons by (auto intro!: leaves leaves_ret simp del: ret_def)
qed

lemma leaves_listDevices:
  assumes "bluez bus objs bz"
  shows "leaves_connected (connected_in bz) (listDevices bus)"
proof -
  have l: "leaves_connected (connected_in bz) (andthen (getBluezObjects bus) (\<lambda>objects.
          andthen (list_loop bus objects) (\<lambda>devices. ret (stable_sort device_less devices))))"
    unfolding getBluezObjects_def by (intro leaves leaves_get [OF assms] leaves_list_loop [OF assms])
  show ?thesis unfolding leaves_connected_def
  proof
    fix b
    show "connected_now (connected_in bz) (snd (listDevices bus b)) = connected_now (connected_in bz) b"
      using l by (simp add: leaves_connected_def listDevices_def)
  qed
qed

text \<open>A call as an equation: the reply, and the state with the call logged.\<close>

definition after_call :: "'w bus \<Rightarrow> dbus_call \<Rightarrow> 'w bt \<Rightarrow> 'w bt" where
  "after_call bus c b = b\<lparr>world := snd (bus c (world b)),
     calls := calls b @ [(c, fst (bus c (world b)) \<noteq> Error)]\<rparr>"

lemma dbus_typed_eq:
  "dbus_typed bus c as b =
     (if fst (bus c (world b)) = Error then Inl DBus_Error
      else case as (fst (bus c (world b))) of None \<Rightarrow> Inl DBus_Error | Some v \<Rightarrow> Inr v, after_call bus c b)"
  by (cases "bus c (world b)")
     (auto simp: dbus_typed_def dbus_def andthen_def after_call_def throw_def split: option.split)

lemma connected_after_call [simp]: "connected_now conn (after_call bus c b) = conn (snd (bus c (world b)))"
  by (simp add: connected_now_def after_call_def)

lemma objects_now:
  assumes "bluez bus objs bz"
  shows "dbus_objects bus b = (Inr objs, after_call bus GetManagedObjects b)
    \<and> connected_now (connected_in bz) (after_call bus GetManagedObjects b) = connected_now (connected_in bz) b"
  by (simp add: dbus_objects_def dbus_typed_eq bluezD(1,2) [OF assms]) (simp add: connected_now_def)

lemma is_connected_now:
  assumes "bluez bus objs bz" "p \<in> devices_of objs"
  shows "dbus_bool bus p ''Connected'' b
      = (if p \<in> silent bz then Inl DBus_Error else Inr (p \<in> connected_now (connected_in bz) b),
         after_call bus (Get p ''Connected'') b)
    \<and> connected_now (connected_in bz) (after_call bus (Get p ''Connected'') b) = connected_now (connected_in bz) b"
  by (simp add: dbus_bool_def dbus_typed_eq bluezD(3) [OF assms(1)] bluezD(4) [OF assms]) (simp add: connected_now_def)

lemma disconnect_now:
  assumes "bluez bus objs bz" "p \<in> devices_of objs" "p \<in> connected_now (connected_in bz) b"
  shows "dbus_void bus (Disconnect p) b
      = (if p \<in> stuck bz then Inl DBus_Error else Inr (), after_call bus (Disconnect p) b)
    \<and> connected_now (connected_in bz) (after_call bus (Disconnect p) b)
      = (if p \<in> stuck bz then connected_now (connected_in bz) b else connected_now (connected_in bz) b - {p})"
  using assms(3) by (simp add: dbus_void_def dbus_typed_eq connected_now_def after_call_def bluezD(5,6) [OF assms(1,2)])

lemma connect_now:
  assumes "bluez bus objs bz" "p \<in> devices_of objs" "p \<notin> connected_now (connected_in bz) b"
  shows "dbus_void bus (ConnectProfile p u) b
      = (if p \<in> accepting bz then Inr () else Inl DBus_Error, after_call bus (ConnectProfile p u) b)
    \<and> connected_now (connected_in bz) (after_call bus (ConnectProfile p u) b)
      = (if p \<in> accepting bz then insert p (connected_now (connected_in bz) b) else connected_now (connected_in bz) b)"
  using assms(3) by (simp add: dbus_void_def dbus_typed_eq connected_now_def after_call_def bluezD(7,8) [OF assms(1,2)])

section \<open>Disconnecting\<close>

lemma disconnect_entry:
  assumes "bluez bus objs bz" "p \<in> devices_of objs"
  shows "\<exists>b'. catch (andthen (dbus_bool bus p ''Connected'') (\<lambda>isConnected.
        if isConnected then dbus_void bus (Disconnect p) else ret ())) (ret ()) b = (Inr (), b')
    \<and> connected_now (connected_in bz) b'
      = spec_disconnect_all bz {p} (connected_now (connected_in bz) b)"
proof -
  let ?b = "after_call bus (Get p ''Connected'') b"
  note c = is_connected_now [OF assms, of b] and d = disconnect_now [OF assms, of ?b]
  consider "p \<in> silent bz" | "p \<notin> silent bz" "p \<notin> connected_now (connected_in bz) b"
    | "p \<notin> silent bz" "p \<in> connected_now (connected_in bz) b" by blast
  then show ?thesis
  proof cases
    case 3
    with c d show ?thesis by (auto simp: catch_def andthen_def spec_disconnect_all_def)
  qed (use c in \<open>auto simp: catch_def andthen_def spec_disconnect_all_def\<close>)
qed

lemma disconnect_loop_now:
  assumes "bluez bus objs bz" "devices_of os \<subseteq> devices_of objs"
  shows "\<exists>b'. disconnect_loop bus os b = (Inr (), b')
    \<and> connected_now (connected_in bz) b'
      = spec_disconnect_all bz (devices_of os) (connected_now (connected_in bz) b)"
  using assms(2)
proof (induction os arbitrary: b)
  case Nil
  show ?case by (simp add: devices_of_def spec_disconnect_all_def)
next
  case (Cons e os)
  have sub: "devices_of os \<subseteq> devices_of objs" using Cons.prems by (auto simp: devices_of_def split: if_splits)
  show ?case
  proof (cases "is_device e")
    case False
    with Cons.IH [OF sub, of b] show ?thesis by (simp add: devices_of_def)
  next
    case True
    then have e: "fst e \<in> devices_of objs" and d: "devices_of (e # os) = insert (fst e) (devices_of os)"
      using Cons.prems by (auto simp: devices_of_def)
    obtain b1 where 1: "catch (andthen (dbus_bool bus (fst e) ''Connected'') (\<lambda>isConnected.
        if isConnected then dbus_void bus (Disconnect (fst e)) else ret ())) (ret ()) b = (Inr (), b1)"
      "connected_now (connected_in bz) b1 = spec_disconnect_all bz {fst e} (connected_now (connected_in bz) b)"
      using disconnect_entry [OF assms(1) e] by blast
    obtain b2 where 2: "disconnect_loop bus os b1 = (Inr (), b2)"
      "connected_now (connected_in bz) b2 = spec_disconnect_all bz (devices_of os) (connected_now (connected_in bz) b1)"
      using Cons.IH [OF sub] by blast
    have "disconnect_loop bus (e # os) b = (Inr (), b2)" using 1(1) 2(1) True by (simp add: andthen_def)
    moreover have "connected_now (connected_in bz) b2
        = spec_disconnect_all bz (devices_of (e # os)) (connected_now (connected_in bz) b)"
      unfolding 2(2) 1(2) d by (auto simp: spec_disconnect_all_def)
    ultimately show ?thesis by blast
  qed
qed

lemma disconnectAll_now:
  assumes "bluez bus objs bz"
  shows "\<exists>b'. disconnectAllConnectedDevices bus b = (Inr (), b')
    \<and> connected_now (connected_in bz) b'
      = spec_disconnect_all bz (devices_of objs) (connected_now (connected_in bz) b)"
proof -
  let ?b1 = "after_call bus GetManagedObjects b"
  from disconnect_loop_now [OF assms subset_refl, of ?b1] obtain b' where
    "disconnect_loop bus objs ?b1 = (Inr (), b')"
    "connected_now (connected_in bz) b' = spec_disconnect_all bz (devices_of objs) (connected_now (connected_in bz) ?b1)"
    by blast
  with objects_now [OF assms, of b] show ?thesis
    by (simp add: disconnectAllConnectedDevices_def getBluezObjects_def andthen_def)
qed

text \<open>
  One attempt on a known device: it ends the device's connection if there is one, and connects
  it; it answers false as soon as one of the three calls fails.
\<close>

lemma connectByPath_now:
  assumes "bluez bus objs bz" "p \<in> devices_of objs"
  defines "D \<equiv> \<lambda>b. connected_now (connected_in bz) b"
  shows "\<exists>b'. connectDeviceByObjectPath bus p b
        = (Inr (p \<in> accepting bz \<and> p \<notin> silent bz \<and> (p \<in> D b \<longrightarrow> p \<notin> stuck bz)), b')
    \<and> D b' = (if p \<in> silent bz \<or> p \<in> D b \<and> p \<in> stuck bz then D b
             else if p \<in> accepting bz then insert p (D b) else D b - {p})"
proof -
  define u where "u = (if strategy b = DONGLE_MODE then [] else HSP_AG_UUID)"
  let ?b1 = "after_call bus (Get p ''Connected'') b"
  have c: "dbus_bool bus p ''Connected'' b = (if p \<in> silent bz then Inl DBus_Error else Inr (p \<in> D b), ?b1)"
    "D ?b1 = D b" using is_connected_now [OF assms(1,2), of b] by (simp_all add: D_def)
  have run: "connectDeviceByObjectPath bus p b = catch (andthen (dbus_bool bus p ''Connected'') (\<lambda>c.
      andthen (if c then dbus_void bus (Disconnect p) else ret ())
        (\<lambda>_. andthen (dbus_void bus (ConnectProfile p u)) (\<lambda>_. ret True)))) (ret False) b"
    by (simp add: connectDeviceByObjectPath_def Let_def u_def)
  consider "p \<in> silent bz" | (off) "p \<notin> silent bz" "p \<notin> D b" | (stuck) "p \<notin> silent bz" "p \<in> D b" "p \<in> stuck bz"
    | (on) "p \<notin> silent bz" "p \<in> D b" "p \<notin> stuck bz" by blast
  then show ?thesis
  proof cases
    case 1
    with c run show ?thesis by (simp add: catch_def andthen_def)
  next
    case off
    with c connect_now [OF assms(1,2), of ?b1 u] run show ?thesis
      by (simp add: catch_def andthen_def D_def)
  next
    case stuck
    with c disconnect_now [OF assms(1,2), of ?b1] run show ?thesis
      by (simp add: catch_def andthen_def D_def)
  next
    case on
    let ?b2 = "after_call bus (Disconnect p) ?b1"
    have d: "dbus_void bus (Disconnect p) ?b1 = (Inr (), ?b2)" "D ?b2 = D b - {p}"
      using on c disconnect_now [OF assms(1,2), of ?b1] by (simp_all add: D_def)
    with on c connect_now [OF assms(1,2), of ?b2 u] run show ?thesis
      by (auto simp: catch_def andthen_def D_def)
  qed
qed

section \<open>The operations implement the specification\<close>

lemma listDevices_now:
  assumes "bluez bus objs bz" "m_connection b"
  obtains ds b1 where "listDevices bus b = (Inr ds, b1)"
    "connected_now (connected_in bz) b1 = connected_now (connected_in bz) b"
    "\<forall>d \<in> set ds. objectPath d \<in> devices_of objs" "strategy b1 = strategy b"
proof -
  obtain ds b1 cs where l: "list_loop bus objs (after_call bus GetManagedObjects b) = (Inr ds, b1)"
    "map objectPath ds = map fst (filter is_device objs)"
    "bt_frame (after_call bus GetManagedObjects b) cs b1" using list_loop_ok by blast
  let ?ds = "stable_sort device_less ds"
  have run: "listDevices bus b = (Inr ?ds, b1)"
    using objects_now [OF assms(1), of b] l(1) assms(2)
    by (simp add: listDevices_def getBluezObjects_def andthen_def)
  have "connected_now (connected_in bz) b1 = connected_now (connected_in bz) b"
    using leaves_listDevices [OF assms(1)] run unfolding leaves_connected_def by (metis snd_conv)
  moreover have "\<forall>d \<in> set ?ds. objectPath d \<in> devices_of objs"
    using arg_cong [OF l(2), of set] by (auto simp: devices_of_def)
  moreover have "strategy b1 = strategy b" using bt_frameD(2) [OF l(3)] by (simp add: after_call_def)
  ultimately show thesis using run that by blast
qed

lemma switch_now:
  assumes "bluez bus objs bz" "m_connection b" "connectWithRetryPromise b \<noteq> Some True"
  shows "\<exists>ok b' ds b1. switchToDevice bus sel b = (Inr ok, b') \<and> listDevices bus (stopped b) = (Inr ds, b1)
    \<and> (case find (device_matches sel) ds of
        None \<Rightarrow> \<not> ok \<and> connected_now (connected_in bz) b' = connected_now (connected_in bz) b
      | Some d \<Rightarrow> objectPath d \<in> devices_of objs \<and> (ok, connected_now (connected_in bz) b')
          = spec_switch bz (devices_of objs) (objectPath d) (connected_now (connected_in bz) b))"
proof -
  have "m_connection (stopped b)" using assms(2) by simp
  from listDevices_now [OF assms(1) this] obtain ds b1 where
    l: "listDevices bus (stopped b) = (Inr ds, b1)"
    "connected_now (connected_in bz) b1 = connected_now (connected_in bz) b"
    "\<forall>d \<in> set ds. objectPath d \<in> devices_of objs" by (metis connected_now_upd(2))
  show ?thesis
  proof (cases "find (device_matches sel) ds")
    case None
    with l assms(2,3) show ?thesis
      by (intro exI [of _ False] exI [of _ b1] exI [of _ ds])
         (simp add: switchToDevice_def switch_rest_def stopConnectWithRetry_result)
  next
    case (Some d)
    let ?b = "b1\<lparr>m_preferredDeviceObjectPath := Some (objectPath d)\<rparr>" and ?V = "devices_of objs"
      and ?D = "connected_now (connected_in bz) b" and ?p = "objectPath d"
    obtain b2 where 2: "disconnectAllConnectedDevices bus ?b = (Inr (), b2)"
      "connected_now (connected_in bz) b2 = spec_disconnect_all bz ?V (connected_now (connected_in bz) ?b)"
      using disconnectAll_now [OF assms(1)] by blast
    have V: "?p \<in> ?V" using l(3) find_some_in [OF Some] by blast
    let ?ok = "?p \<in> accepting bz \<and> ?p \<notin> silent bz \<and> (?p \<in> ?D \<longrightarrow> ?p \<notin> stuck bz)"
    have D2: "connected_now (connected_in bz) b2 = spec_disconnect_all bz ?V ?D" using 2(2) l(2) by simp
    have p2: "?p \<in> connected_now (connected_in bz) b2 \<longleftrightarrow> ?p \<in> ?D \<and> (?p \<in> stuck bz \<or> ?p \<in> silent bz)"
      using V by (auto simp: D2 spec_disconnect_all_def)
    obtain b3 where b3: "connectDeviceByObjectPath bus ?p b2 = (Inr ?ok, b3)"
      "connected_now (connected_in bz) b3 = (if ?ok then insert ?p (connected_now (connected_in bz) b2)
         else connected_now (connected_in bz) b2)"
      using connectByPath_now [OF assms(1) V, of b2] unfolding p2 by (auto simp: p2 split: if_splits)
    define ok where "ok = ?ok"
    have 3: "connectDeviceByObjectPath bus ?p b2 = (Inr ok, b3)" using b3(1) by (simp add: ok_def)
    have 4: "(ok, connected_now (connected_in bz) b3) = spec_switch bz ?V ?p ?D"
      by (simp only: ok_def b3(2) D2 spec_switch_eq)
    have "switchToDevice bus sel b = (Inr ok, b3)"
      using l(1) assms(2,3) Some 2(1) 3
      by (simp add: switchToDevice_def switch_rest_def stopConnectWithRetry_result andthen_def)
    with l(1) Some V 4 show ?thesis
      by (intro exI [of _ ok] exI [of _ b3] exI [of _ ds] exI [of _ b1]) simp
  qed
qed

text \<open>
  C18. disconnectAll implements its specification: over a bus with BlueZ's laws it always
  succeeds, and afterwards the devices BlueZ knows are disconnected, but for those that BlueZ
  cannot disconnect or does not answer for, which keep no other device connected.
\<close>

theorem disconnectAll_refines:
  assumes "bluez bus objs bz" "m_connection b" "connectWithRetryPromise b \<noteq> Some True"
  shows "\<exists>b'. disconnectAll bus b = (Inr (), b')
    \<and> connected_now (connected_in bz) b'
      = spec_disconnect_all bz (devices_of objs) (connected_now (connected_in bz) b)"
  using disconnectAll_now [OF assms(1), of "(stopped b)\<lparr>m_preferredDeviceObjectPath := None\<rparr>"] assms(2,3)
  by (simp add: disconnectAll_def stopConnectWithRetry_result)

text \<open>
  C17. switchToDevice implements the handover: over a bus with BlueZ's laws it always returns;
  without a match for the selector nothing changes and the answer is false; otherwise the
  matching device is one BlueZ knows, and the answer and the devices connected afterwards are
  those of the specification: true exactly when the device accepts the connection (and an
  earlier one could be ended), with the others disconnected.
\<close>

theorem switchToDevice_refines:
  assumes "bluez bus objs bz" "m_connection b" "connectWithRetryPromise b \<noteq> Some True"
  shows "\<exists>ok b' ds b1. switchToDevice bus sel b = (Inr ok, b') \<and> listDevices bus (stopped b) = (Inr ds, b1)
    \<and> (case find (device_matches sel) ds of
        None \<Rightarrow> \<not> ok \<and> connected_now (connected_in bz) b' = connected_now (connected_in bz) b
      | Some d \<Rightarrow> objectPath d \<in> devices_of objs \<and> (ok, connected_now (connected_in bz) b')
          = spec_switch bz (devices_of objs) (objectPath d) (connected_now (connected_in bz) b))"
  using assms by (rule switch_now)

section \<open>A world with two phones\<close>

text \<open>
  The state is the set of connected devices; every device is paired, the first phone refuses
  connections, and Disconnect fails with NotConnected where BlueZ documents it.
\<close>

fun phones_bus :: "string set bus" where
  "phones_bus GetManagedObjects D = (Objects demo_objects, D)"
| "phones_bus (Get p prop) D =
     (if prop = ''Address'' then String (''00:'' @ p) else if prop = ''Name'' then String (''Phone '' @ p)
      else if prop = ''Connected'' then Bool (p \<in> D) else Bool (prop = ''Paired''), D)"
| "phones_bus (ConnectProfile p u) D = (if p = ''d1'' then (Error, D) else (Done, insert p D))"
| "phones_bus (Disconnect p) D = (if p \<in> D then (Done, D - {p}) else (Error, D))"
| "phones_bus _ D = (Done, D)"

definition two_phones :: "string set phones" where
  "two_phones = \<lparr>connected_in = (\<lambda>D. D), accepting = {''d2''}, stuck = {}, silent = {}\<rparr>"

lemma two_phones_sel [simp]:
  "connected_in two_phones = (\<lambda>D. D)" "accepting two_phones = {''d2''}" "stuck two_phones = {}" "silent two_phones = {}"
  by (simp_all add: two_phones_def)

lemma phones_devices: "devices_of demo_objects = {''d1'', ''d2''}"
  by (simp add: devices_of_def demo_objects_def is_device_def INTERFACE_BLUEZ_DEVICE_def
      INTERFACE_BLUEZ_ADAPTER_def)

lemma phones_bluez: "bluez phones_bus demo_objects two_phones"
  by (auto simp: bluez_def phones_devices)

definition phones_bt :: "string set bt" where
  "phones_bt = \<lparr>world = {''d1''}, calls = [], strategy = PHONE_FIRST, m_connection = True,
     m_adapter = Some ''a'', m_adapterAlias = ''WirelessAADongle-cd1234'',
     m_preferredDeviceObjectPath = None, connectWithRetryPromise = Some False\<rparr>"

lemma phones_bt_sel [simp]:
  "m_connection phones_bt" "connectWithRetryPromise phones_bt = Some False"
  "connected_now (\<lambda>D. D) phones_bt = {''d1''}"
  by (simp_all add: phones_bt_def connected_now_def)

theorem disconnectAll_refines_witness:
  "\<exists>b'. disconnectAll phones_bus phones_bt = (Inr (), b') \<and> connected_now (\<lambda>D. D) b' = {}"
proof -
  have "connectWithRetryPromise phones_bt \<noteq> Some True" by simp
  from disconnectAll_refines [OF phones_bluez phones_bt_sel(1) this] show ?thesis
    by (simp add: phones_devices spec_disconnect_all_def)
qed

text \<open>The listing of that world: both phones are paired and the connected one comes first.\<close>

lemma phones_listed:
  "\<exists>ds b1. listDevices phones_bus (stopped phones_bt) = (Inr ds, b1)
    \<and> (\<exists>d. find (device_matches ''00:d2'') ds = Some d \<and> objectPath d = ''d2'')"
  by (simp add: phones_bt_def stopped_def listDevices_def getBluezObjects_def demo_objects_def dbus_objects_def
      dbus_typed_def dbus_def andthen_def is_device_def INTERFACE_BLUEZ_DEVICE_def INTERFACE_BLUEZ_ADAPTER_def
      read_device_info_def read_into_def dbus_string_def dbus_bool_def device_less_def device_matches_def)

lemma phones_spec: "spec_switch two_phones {''d1'', ''d2''} ''d2'' {''d1''} = (True, {''d2''})"
  by (simp add: spec_switch_def spec_disconnect_all_def)

theorem switchToDevice_refines_witness:
  "\<exists>b'. switchToDevice phones_bus ''00:d2'' phones_bt = (Inr True, b') \<and> connected_now (\<lambda>D. D) b' = {''d2''}"
proof -
  have p: "connectWithRetryPromise phones_bt \<noteq> Some True" by simp
  from phones_listed obtain ds b1 d where l: "listDevices phones_bus (stopped phones_bt) = (Inr ds, b1)"
    "find (device_matches ''00:d2'') ds = Some d" "objectPath d = ''d2''" by blast
  obtain ok b' ds' b1' where r: "switchToDevice phones_bus ''00:d2'' phones_bt = (Inr ok, b')"
    "listDevices phones_bus (stopped phones_bt) = (Inr ds', b1')"
    "case find (device_matches ''00:d2'') ds' of
        None \<Rightarrow> \<not> ok \<and> connected_now (connected_in two_phones) b' = connected_now (connected_in two_phones) phones_bt
      | Some d \<Rightarrow> objectPath d \<in> devices_of demo_objects \<and> (ok, connected_now (connected_in two_phones) b')
          = spec_switch two_phones (devices_of demo_objects) (objectPath d) (connected_now (connected_in two_phones) phones_bt)"
    using switchToDevice_refines [OF phones_bluez phones_bt_sel(1) p] by blast
  from r(2) l(1) have "ds' = ds" by simp
  with r(3) l(2,3) have "(ok, connected_now (\<lambda>D. D) b') = (True, {''d2''})"
    by (simp add: phones_devices phones_spec)
  with r(1) show ?thesis by simp
qed

end
