(* ===== verification/RetryProtocol.thy ===== *)
theory RetryProtocol
  imports Prelude Transition
begin

text \<open>
  The protocol by which the threads of the daemon end the Bluetooth retry thread: the promise
  connectWithRetryPromise of BluetoothHandler, made by the main thread (connectWithRetry),
  satisfied by whoever wants the retrying to stop (stopConnectWithRetry, called by the main
  thread, by the thread of the proxy and by the thread of the control socket), waited for and
  dropped by the retry thread (retryConnectLoop).  Nothing but the order of the steps protects
  it, so the model is a step relation on the program counters of the four threads, in which
  the test of the pointer and the call of set_value behind it are two steps.
\<close>

section \<open>States and steps\<close>

text \<open>Main loop of aawgd.cpp: lines 34-35, 45, 47, 50 (test, set_value) and 51.\<close>

datatype main_pc = M_Proxy | M_Connect | M_JoinProxy | M_Test | M_Set | M_JoinRetry

text \<open>handleClient: accept, stopConnectWithRetry (test, set_value), the rest, returned.\<close>

datatype proxy_pc = P_Accept | P_Test | P_Set | P_Forward | P_Done

text \<open>retryConnectLoop: get_future, connectDevice, wait_for, the power-off, returned.\<close>

datatype retry_pc = R_Future | R_Connect | R_Wait | R_PowerOff | R_Done

text \<open>The control socket's thread: outside stopConnectWithRetry, and between its two steps.\<close>

datatype control_pc = C_Idle | C_Set

datatype thread_id = Main_thread | Proxy_thread | Retry_thread | Control_thread

text \<open>
  The promise is None for nullptr, Some False before and Some True after set_value; has_adapter
  says whether the handler found an adapter, without which there is no retry thread.  seen is a
  ghost that counts the tests that found a promise and whose set_value falls into this round;
  crashed is the exception that left a thread, which ends the process.
\<close>

record threads =
  has_adapter :: bool
  main_at :: main_pc
  proxy_at :: proxy_pc
  retry_at :: retry_pc
  control_at :: control_pc
  the_promise :: "bool option"
  seen :: nat
  crashed :: "fault option"

definition init_threads :: "bool \<Rightarrow> threads" where
  "init_threads adapter = \<lparr>has_adapter = adapter, main_at = M_Proxy, proxy_at = P_Done,
     retry_at = R_Done, control_at = C_Idle, the_promise = None, seen = 0, crashed = None\<rparr>"

text \<open>set_value through the pointer as it is now.\<close>

definition set_value :: "threads \<Rightarrow> threads" where
  "set_value s = (case the_promise s of
      None \<Rightarrow> s\<lparr>crashed := Some Null_promise\<rparr>
    | Some True \<Rightarrow> s\<lparr>crashed := Some Promise_already_satisfied\<rparr>
    | Some False \<Rightarrow> s\<lparr>the_promise := Some True\<rparr>)"

text \<open>The test found a promise: the caller goes on to set_value.\<close>

definition saw :: "threads \<Rightarrow> threads" where
  "saw s = s\<lparr>seen := Suc (seen s)\<rparr>"

text \<open>
  The steps of the threads.  accept may fail, a connection attempt may throw (the listing of the
  devices is not inside a try block), and so may the power-off; a wait of the retry thread times
  out only while the promise is not satisfied.
\<close>

inductive step :: "thread_id \<Rightarrow> threads \<Rightarrow> threads \<Rightarrow> bool" where
  main_proxy: "crashed s = None \<Longrightarrow> main_at s = M_Proxy \<Longrightarrow>
    step Main_thread s (s\<lparr>main_at := M_Connect, proxy_at := P_Accept\<rparr>)"
| main_connect: "crashed s = None \<Longrightarrow> main_at s = M_Connect \<Longrightarrow> has_adapter s \<Longrightarrow>
    step Main_thread s (s\<lparr>main_at := M_JoinProxy, retry_at := R_Future, the_promise := Some False,
              seen := (if control_at s = C_Set then 1 else 0)\<rparr>)"
| main_no_adapter: "crashed s = None \<Longrightarrow> main_at s = M_Connect \<Longrightarrow> \<not> has_adapter s \<Longrightarrow>
    step Main_thread s (s\<lparr>main_at := M_JoinProxy\<rparr>)"
| main_join_proxy: "crashed s = None \<Longrightarrow> main_at s = M_JoinProxy \<Longrightarrow> proxy_at s = P_Done \<Longrightarrow>
    step Main_thread s (s\<lparr>main_at := (if has_adapter s then M_Test else M_Proxy)\<rparr>)"
| main_test: "crashed s = None \<Longrightarrow> main_at s = M_Test \<Longrightarrow>
    step Main_thread s (if the_promise s = None then s\<lparr>main_at := M_JoinRetry\<rparr>
                 else saw (s\<lparr>main_at := M_Set\<rparr>))"
| main_set: "crashed s = None \<Longrightarrow> main_at s = M_Set \<Longrightarrow>
    step Main_thread s (set_value (s\<lparr>main_at := M_JoinRetry\<rparr>))"
| main_join_retry: "crashed s = None \<Longrightarrow> main_at s = M_JoinRetry \<Longrightarrow> retry_at s = R_Done \<Longrightarrow>
    step Main_thread s (s\<lparr>main_at := M_Proxy\<rparr>)"
| proxy_accept: "crashed s = None \<Longrightarrow> proxy_at s = P_Accept \<Longrightarrow>
    step Proxy_thread s (s\<lparr>proxy_at := P_Test\<rparr>)"
| proxy_accept_fails: "crashed s = None \<Longrightarrow> proxy_at s = P_Accept \<Longrightarrow>
    step Proxy_thread s (s\<lparr>proxy_at := P_Done\<rparr>)"
| proxy_test: "crashed s = None \<Longrightarrow> proxy_at s = P_Test \<Longrightarrow>
    step Proxy_thread s (if the_promise s = None then s\<lparr>proxy_at := P_Forward\<rparr>
                  else saw (s\<lparr>proxy_at := P_Set\<rparr>))"
| proxy_set: "crashed s = None \<Longrightarrow> proxy_at s = P_Set \<Longrightarrow>
    step Proxy_thread s (set_value (s\<lparr>proxy_at := P_Forward\<rparr>))"
| proxy_end: "crashed s = None \<Longrightarrow> proxy_at s = P_Forward \<Longrightarrow>
    step Proxy_thread s (s\<lparr>proxy_at := P_Done\<rparr>)"
| retry_future: "crashed s = None \<Longrightarrow> retry_at s = R_Future \<Longrightarrow>
    step Retry_thread s (if the_promise s = None then s\<lparr>crashed := Some Null_promise\<rparr>
                  else s\<lparr>retry_at := R_Connect\<rparr>)"
| retry_connect: "crashed s = None \<Longrightarrow> retry_at s = R_Connect \<Longrightarrow>
    step Retry_thread s (s\<lparr>retry_at := R_Wait\<rparr>)"
| retry_connect_throws: "crashed s = None \<Longrightarrow> retry_at s = R_Connect \<Longrightarrow>
    step Retry_thread s (s\<lparr>crashed := Some DBus_Error\<rparr>)"
| retry_timeout: "crashed s = None \<Longrightarrow> retry_at s = R_Wait \<Longrightarrow> the_promise s \<noteq> Some True \<Longrightarrow>
    step Retry_thread s (s\<lparr>retry_at := R_Connect\<rparr>)"
| retry_ready: "crashed s = None \<Longrightarrow> retry_at s = R_Wait \<Longrightarrow> the_promise s = Some True \<Longrightarrow>
    step Retry_thread s (s\<lparr>retry_at := R_PowerOff, the_promise := None\<rparr>)"
| retry_power_off: "crashed s = None \<Longrightarrow> retry_at s = R_PowerOff \<Longrightarrow>
    step Retry_thread s (s\<lparr>retry_at := R_Done\<rparr>)"
| retry_power_off_throws: "crashed s = None \<Longrightarrow> retry_at s = R_PowerOff \<Longrightarrow>
    step Retry_thread s (s\<lparr>crashed := Some DBus_Error\<rparr>)"
| control_test: "crashed s = None \<Longrightarrow> control_at s = C_Idle \<Longrightarrow>
    step Control_thread s (if the_promise s = None then s else saw (s\<lparr>control_at := C_Set\<rparr>))"
| control_set: "crashed s = None \<Longrightarrow> control_at s = C_Set \<Longrightarrow>
    step Control_thread s (set_value (s\<lparr>control_at := C_Idle\<rparr>))"

inductive_cases stepE: "step t s s'"
inductive_cases main_stepE: "step Main_thread s s'"
inductive_cases proxy_stepE: "step Proxy_thread s s'"
inductive_cases retry_stepE: "step Retry_thread s s'"
inductive_cases control_stepE: "step Control_thread s s'"
inductive_simps step_retry [simp]: "step Retry_thread s s'"

text \<open>Runs: the threads in the order of their steps.\<close>

abbreviation run :: "threads \<Rightarrow> thread_id list \<Rightarrow> threads \<Rightarrow> bool" where
  "run \<equiv> trace step"

lemmas run_intros = trace.intros [of step] and run_nil = trace_nil [of step] and run_append = trace_append [of step]

text \<open>The states the daemon can reach, with or without an adapter.\<close>

definition reachable :: "threads \<Rightarrow> bool" where
  "reachable s \<longleftrightarrow> (\<exists>adapter ts. run (init_threads adapter) ts s)"

lemma reachable_initial: "reachable (init_threads adapter)"
  unfolding reachable_def by (blast intro: run_nil)

lemma run_reachable: "run s ts s' \<Longrightarrow> reachable s \<Longrightarrow> reachable s'"
  unfolding reachable_def by (blast intro: run_append)

section \<open>The invariant\<close>

definition pending :: "threads \<Rightarrow> nat" where
  "pending s = of_bool (main_at s = M_Set) + of_bool (proxy_at s = P_Set) + of_bool (control_at s = C_Set)"

text \<open>Which threads are where, and how many calls of set_value may still come.\<close>

definition shape_inv :: "threads \<Rightarrow> bool" where
  "shape_inv s \<longleftrightarrow>
     (the_promise s \<noteq> None \<longleftrightarrow> retry_at s \<in> {R_Future, R_Connect, R_Wait})
   \<and> (\<not> has_adapter s \<longrightarrow> retry_at s = R_Done \<and> main_at s \<notin> {M_Test, M_Set, M_JoinRetry})
   \<and> (main_at s \<in> {M_Proxy, M_Connect} \<longrightarrow> retry_at s = R_Done)
   \<and> (main_at s \<notin> {M_Connect, M_JoinProxy} \<longrightarrow> proxy_at s = P_Done)
   \<and> (main_at s = M_Connect \<longrightarrow> proxy_at s \<noteq> P_Set)"

definition count_inv :: "threads \<Rightarrow> bool" where
  "count_inv s \<longleftrightarrow> (case the_promise s of
        None \<Rightarrow> pending s = 0 \<or> Suc (pending s) \<le> seen s
      | Some satisfied \<Rightarrow> pending s + (if satisfied then 1 else 0) \<le> seen s)"

definition thread_inv :: "threads \<Rightarrow> bool" where
  "thread_inv s \<longleftrightarrow> shape_inv s \<and> count_inv s"

lemma thread_inv_init: "thread_inv (init_threads adapter)"
  by (simp add: thread_inv_def shape_inv_def count_inv_def init_threads_def pending_def)

lemma promise_cases:
  fixes p :: "bool option"
  obtains "p = None" | "p = Some True" | "p = Some False"
  by (cases p) auto

lemmas step_eval = set_value_def saw_def pending_def shape_inv_def count_inv_def

lemma shape_step:
  assumes "step t s s'" "shape_inv s" "crashed s' = None"
  shows "shape_inv s'"
  by (rule stepE [OF assms(1)]; cases "the_promise s" rule: promise_cases)
     (use assms(2,3) in \<open>simp_all add: set_value_def saw_def shape_inv_def del: step_retry split: if_splits\<close>, auto)

lemma count_step:
  assumes "step t s s'" "thread_inv s" "crashed s' = None"
  shows "count_inv s'"
  by (rule stepE [OF assms(1)]; cases "the_promise s" rule: promise_cases)
     (use assms(2,3) in \<open>simp_all add: thread_inv_def step_eval del: step_retry split: if_splits\<close>, auto?)

lemma crash_step:
  assumes "step t s s'" "thread_inv s" "crashed s' \<noteq> None"
  shows "crashed s' = Some DBus_Error \<or> 2 \<le> seen s'"
  by (rule stepE [OF assms(1)]; cases "the_promise s" rule: promise_cases)
     (use assms(2,3) in \<open>simp_all add: thread_inv_def step_eval del: step_retry split: if_splits\<close>, auto?)

lemma thread_inv_step:
  assumes "step t s s'" "thread_inv s"
  shows "if crashed s' = None then thread_inv s'
    else crashed s' = Some DBus_Error \<or> 2 \<le> seen s'"
  using shape_step [OF assms(1)] count_step [OF assms] crash_step [OF assms] assms(2)
  by (simp add: thread_inv_def del: step_retry)

definition protocol_inv :: "threads \<Rightarrow> bool" where
  "protocol_inv s \<longleftrightarrow>
     (if crashed s = None then thread_inv s else crashed s = Some DBus_Error \<or> 2 \<le> seen s)"

lemma step_running: "step t s s' \<Longrightarrow> crashed s = None"
  by (erule stepE) simp_all

interpretation retrying: invariant_system "\<lambda>s. \<exists>adapter. s = init_threads adapter" step protocol_inv
proof
  fix s show "\<exists>adapter. s = init_threads adapter \<Longrightarrow> protocol_inv s"
    using thread_inv_init by (auto simp: protocol_inv_def init_threads_def)
next
  fix t s s' assume "protocol_inv s" "step t s s'"
  with step_running [of t s s'] thread_inv_step [of t s s'] show "protocol_inv s'"
    by (simp add: protocol_inv_def)
qed

lemma reachable_inv:
  assumes "reachable s"
  shows "if crashed s = None then thread_inv s else crashed s = Some DBus_Error \<or> 2 \<le> seen s"
  using assms retrying.inv_reached unfolding reachable_def protocol_inv_def by blast

text \<open>
  C15. The life of the promise.  In every state the threads can reach, the promise exists exactly
  while the retry thread is before its wake-up, and there is none, nor a retry thread, when the
  main thread starts a round: two retry threads never run at once, and the future the retry
  thread takes is never that of a missing promise.
\<close>

theorem promise_lifetime:
  assumes "reachable s" "crashed s = None"
  shows "(the_promise s \<noteq> None \<longleftrightarrow> retry_at s \<in> {R_Future, R_Connect, R_Wait})
    \<and> (main_at s \<in> {M_Proxy, M_Connect} \<longrightarrow> retry_at s = R_Done \<and> the_promise s = None)
    \<and> (\<not> has_adapter s \<longrightarrow> retry_at s = R_Done \<and> the_promise s = None)"
proof -
  have "thread_inv s" using reachable_inv [OF assms(1)] assms(2) by simp
  then show ?thesis by (auto simp: thread_inv_def shape_inv_def)
qed

text \<open>
  C14. One stop per round is safe.  However the threads are scheduled, an exception that ends the
  process and is not an error of the bus needs two calls of stopConnectWithRetry that found a
  promise and whose set_value falls into the same round.
\<close>

theorem crash_needs_two_stops:
  assumes "reachable s" "crashed s = Some f" "f \<noteq> DBus_Error"
  shows "2 \<le> seen s"
  using reachable_inv [OF assms(1)] assms(2,3) by simp

section \<open>Schedules that go wrong\<close>

text \<open>
  The same steps as a function, to run schedules: the thread to move and, where the outside
  world decides (accept, the connection attempt, the power-off), whether things go well.
\<close>

definition advance :: "thread_id \<times> bool \<Rightarrow> threads \<Rightarrow> threads option" where
  "advance = (\<lambda>(t, well) s. if crashed s \<noteq> None then None else
     (case t of
       Main_thread \<Rightarrow> (case main_at s of
           M_Proxy \<Rightarrow> Some (s\<lparr>main_at := M_Connect, proxy_at := P_Accept\<rparr>)
         | M_Connect \<Rightarrow> Some (if has_adapter s
             then s\<lparr>main_at := M_JoinProxy, retry_at := R_Future, the_promise := Some False,
                    seen := (if control_at s = C_Set then 1 else 0)\<rparr>
             else s\<lparr>main_at := M_JoinProxy\<rparr>)
         | M_JoinProxy \<Rightarrow> (if proxy_at s = P_Done
             then Some (s\<lparr>main_at := (if has_adapter s then M_Test else M_Proxy)\<rparr>) else None)
         | M_Test \<Rightarrow> Some (if the_promise s = None then s\<lparr>main_at := M_JoinRetry\<rparr>
             else saw (s\<lparr>main_at := M_Set\<rparr>))
         | M_Set \<Rightarrow> Some (set_value (s\<lparr>main_at := M_JoinRetry\<rparr>))
         | M_JoinRetry \<Rightarrow> (if retry_at s = R_Done then Some (s\<lparr>main_at := M_Proxy\<rparr>) else None))
     | Proxy_thread \<Rightarrow> (case proxy_at s of
           P_Accept \<Rightarrow> Some (s\<lparr>proxy_at := (if well then P_Test else P_Done)\<rparr>)
         | P_Test \<Rightarrow> Some (if the_promise s = None then s\<lparr>proxy_at := P_Forward\<rparr>
             else saw (s\<lparr>proxy_at := P_Set\<rparr>))
         | P_Set \<Rightarrow> Some (set_value (s\<lparr>proxy_at := P_Forward\<rparr>))
         | P_Forward \<Rightarrow> Some (s\<lparr>proxy_at := P_Done\<rparr>)
         | P_Done \<Rightarrow> None)
     | Retry_thread \<Rightarrow> (case retry_at s of
           R_Future \<Rightarrow> Some (if the_promise s = None then s\<lparr>crashed := Some Null_promise\<rparr>
             else s\<lparr>retry_at := R_Connect\<rparr>)
         | R_Connect \<Rightarrow> Some (if well then s\<lparr>retry_at := R_Wait\<rparr> else s\<lparr>crashed := Some DBus_Error\<rparr>)
         | R_Wait \<Rightarrow> Some (if the_promise s = Some True
             then s\<lparr>retry_at := R_PowerOff, the_promise := None\<rparr> else s\<lparr>retry_at := R_Connect\<rparr>)
         | R_PowerOff \<Rightarrow> Some (if well then s\<lparr>retry_at := R_Done\<rparr> else s\<lparr>crashed := Some DBus_Error\<rparr>)
         | R_Done \<Rightarrow> None)
     | Control_thread \<Rightarrow> (case control_at s of
           C_Idle \<Rightarrow> Some (if the_promise s = None then s else saw (s\<lparr>control_at := C_Set\<rparr>))
         | C_Set \<Rightarrow> Some (set_value (s\<lparr>control_at := C_Idle\<rparr>)))))"

fun schedule :: "(thread_id \<times> bool) list \<Rightarrow> threads \<Rightarrow> threads option" where
  "schedule [] s = Some s"
| "schedule (c # cs) s = (case advance c s of None \<Rightarrow> None | Some s' \<Rightarrow> schedule cs s')"

text \<open>The function takes exactly the steps of the relation.\<close>

lemma advance_step: "advance (t, well) s = Some s' \<Longrightarrow> step t s s'"
  by (auto simp: advance_def step.simps split: thread_id.splits main_pc.splits proxy_pc.splits
      retry_pc.splits control_pc.splits if_splits)

lemma step_advance: "step t s s' \<Longrightarrow> \<exists>well. advance (t, well) s = Some s'"
  by (erule stepE) (auto simp: advance_def)

text \<open>One equation for each place of each thread, to evaluate schedules with.\<close>

lemma advance_main:
  assumes "crashed s = None"
  shows "main_at s = M_Proxy \<Longrightarrow> advance (Main_thread, w) s = Some (s\<lparr>main_at := M_Connect, proxy_at := P_Accept\<rparr>)"
    "main_at s = M_Connect \<Longrightarrow> advance (Main_thread, w) s = Some (if has_adapter s
       then s\<lparr>main_at := M_JoinProxy, retry_at := R_Future, the_promise := Some False,
              seen := (if control_at s = C_Set then 1 else 0)\<rparr>
       else s\<lparr>main_at := M_JoinProxy\<rparr>)"
    "main_at s = M_JoinProxy \<Longrightarrow> proxy_at s = P_Done \<Longrightarrow>
       advance (Main_thread, w) s = Some (s\<lparr>main_at := (if has_adapter s then M_Test else M_Proxy)\<rparr>)"
    "main_at s = M_Test \<Longrightarrow> advance (Main_thread, w) s =
       Some (if the_promise s = None then s\<lparr>main_at := M_JoinRetry\<rparr> else saw (s\<lparr>main_at := M_Set\<rparr>))"
    "main_at s = M_Set \<Longrightarrow> advance (Main_thread, w) s = Some (set_value (s\<lparr>main_at := M_JoinRetry\<rparr>))"
    "main_at s = M_JoinRetry \<Longrightarrow> retry_at s = R_Done \<Longrightarrow> advance (Main_thread, w) s = Some (s\<lparr>main_at := M_Proxy\<rparr>)"
  using assms by (simp_all add: advance_def)

lemma advance_others:
  assumes "crashed s = None"
  shows "proxy_at s = P_Accept \<Longrightarrow> advance (Proxy_thread, w) s = Some (s\<lparr>proxy_at := (if w then P_Test else P_Done)\<rparr>)"
    "proxy_at s = P_Test \<Longrightarrow> advance (Proxy_thread, w) s =
       Some (if the_promise s = None then s\<lparr>proxy_at := P_Forward\<rparr> else saw (s\<lparr>proxy_at := P_Set\<rparr>))"
    "proxy_at s = P_Set \<Longrightarrow> advance (Proxy_thread, w) s = Some (set_value (s\<lparr>proxy_at := P_Forward\<rparr>))"
    "proxy_at s = P_Forward \<Longrightarrow> advance (Proxy_thread, w) s = Some (s\<lparr>proxy_at := P_Done\<rparr>)"
    "retry_at s = R_Future \<Longrightarrow> advance (Retry_thread, w) s =
       Some (if the_promise s = None then s\<lparr>crashed := Some Null_promise\<rparr> else s\<lparr>retry_at := R_Connect\<rparr>)"
    "retry_at s = R_Connect \<Longrightarrow> advance (Retry_thread, w) s =
       Some (if w then s\<lparr>retry_at := R_Wait\<rparr> else s\<lparr>crashed := Some DBus_Error\<rparr>)"
    "retry_at s = R_Wait \<Longrightarrow> advance (Retry_thread, w) s = Some (if the_promise s = Some True
       then s\<lparr>retry_at := R_PowerOff, the_promise := None\<rparr> else s\<lparr>retry_at := R_Connect\<rparr>)"
    "retry_at s = R_PowerOff \<Longrightarrow> advance (Retry_thread, w) s =
       Some (if w then s\<lparr>retry_at := R_Done\<rparr> else s\<lparr>crashed := Some DBus_Error\<rparr>)"
    "control_at s = C_Idle \<Longrightarrow> advance (Control_thread, w) s =
       Some (if the_promise s = None then s else saw (s\<lparr>control_at := C_Set\<rparr>))"
    "control_at s = C_Set \<Longrightarrow> advance (Control_thread, w) s = Some (set_value (s\<lparr>control_at := C_Idle\<rparr>))"
  using assms by (simp_all add: advance_def)

lemmas schedule_eval = advance_main advance_others init_threads_def set_value_def saw_def

lemma schedule_run: "schedule cs s = Some s' \<Longrightarrow> run s (map fst cs) s'"
proof (induction cs arbitrary: s)
  case (Cons c cs)
  then obtain s1 where "advance c s = Some s1" "schedule cs s1 = Some s'"
    by (auto split: option.splits)
  with Cons.IH advance_step [of "fst c" "snd c" s s1] show ?case by (auto intro: run_intros)
qed (auto intro: run_intros)

text \<open>
  The main thread on its way to its stop, in a round whose retry thread has been stopped already:
  the steps it has left up to its set_value.
\<close>

fun to_second_stop :: "main_pc \<Rightarrow> nat" where
  "to_second_stop M_JoinProxy = 3"
| "to_second_stop M_Test = 2"
| "to_second_stop M_Set = 1"
| "to_second_stop _ = 0"

definition stops_twice :: "threads \<Rightarrow> bool" where
  "stops_twice s \<longleftrightarrow> has_adapter s \<and> proxy_at s = P_Done \<and> the_promise s = Some True
     \<and> crashed s = None \<and> main_at s \<in> {M_JoinProxy, M_Test, M_Set}"

lemma stops_twice_step:
  assumes "step t s s'" "stops_twice s" "t \<noteq> Retry_thread"
  shows "crashed s' = Some Promise_already_satisfied
    \<or> stops_twice s' \<and> to_second_stop (main_at s) = to_second_stop (main_at s') + (if t = Main_thread then 1 else 0)"
  by (rule stepE [OF assms(1)])
     (use assms(2,3) in \<open>simp_all add: stops_twice_def set_value_def saw_def del: step_retry split: if_splits\<close>)

lemma crashed_run: "run s ts s' \<Longrightarrow> crashed s \<noteq> None \<Longrightarrow> ts = [] \<and> s' = s"
  by (induction rule: trace.induct) (auto dest: step_running)

lemma stops_twice_run:
  "run s ts s' \<Longrightarrow> stops_twice s \<Longrightarrow> Retry_thread \<notin> set ts \<Longrightarrow>
   crashed s' = Some Promise_already_satisfied
   \<or> stops_twice s' \<and> to_second_stop (main_at s) = to_second_stop (main_at s') + count_list ts Main_thread"
proof (induction rule: trace.induct)
  case (trace_cons t s s1 ts s2)
  have t: "t \<noteq> Retry_thread" using trace_cons.prems(2) by auto
  from stops_twice_step [OF trace_cons.hyps(1) trace_cons.prems(1) t] show ?case
  proof
    assume "crashed s1 = Some Promise_already_satisfied"
    with crashed_run [OF trace_cons.hyps(2)] show ?thesis by simp
  next
    assume "stops_twice s1 \<and> to_second_stop (main_at s) = to_second_stop (main_at s1) + (if t = Main_thread then 1 else 0)"
    with trace_cons.IH trace_cons.prems(2) show ?thesis by auto
  qed
qed simp

text \<open>
  C33. Two stops in one round.  When the retrying has been stopped (by the thread of the proxy, when
  the phone connected, or over the control socket) and the session is over before the retry
  thread has woken up (an attempt lasts as long as BlueZ takes), the main thread's own stop is
  fatal: however the other threads move, as long as the retry thread does not, the process dies of
  set_value on the satisfied promise by the main thread's third step, and of nothing else.
\<close>

theorem main_stops_again_crash:
  assumes "crashed s = None" "has_adapter s" "the_promise s = Some True"
    and "main_at s = M_JoinProxy" "proxy_at s = P_Done"
    and "run s ts s'" "Retry_thread \<notin> set ts"
  shows "(crashed s' \<noteq> None \<longrightarrow> crashed s' = Some Promise_already_satisfied)
    \<and> (3 \<le> count_list ts Main_thread \<longrightarrow> crashed s' = Some Promise_already_satisfied)"
proof -
  have "stops_twice s" using assms(1-5) by (simp add: stops_twice_def)
  from stops_twice_run [OF assms(6) this assms(7)] assms(4) show ?thesis
    by (auto simp: stops_twice_def)
qed

text \<open>
  Such a round, from the start of the program: the phone connects while the retry thread is in an
  attempt, and forwarding ends before the attempt does.
\<close>

theorem main_stops_again_crash_witness:
  "\<exists>s s'. run (init_threads True) [Main_thread, Main_thread, Retry_thread, Proxy_thread, Proxy_thread,
        Proxy_thread, Proxy_thread] s \<and> retry_at s = R_Connect
    \<and> run s [Main_thread, Main_thread, Main_thread] s' \<and> crashed s' = Some Promise_already_satisfied"
proof -
  let ?pre = "map (\<lambda>t. (t, True)) [Main_thread, Main_thread, Retry_thread, Proxy_thread, Proxy_thread, Proxy_thread, Proxy_thread]"
  let ?post = "map (\<lambda>t. (t, True)) [Main_thread, Main_thread, Main_thread]"
  let ?s = "(init_threads True)\<lparr>main_at := M_JoinProxy, retry_at := R_Connect, the_promise := Some True, seen := 1\<rparr>"
  have pre: "schedule ?pre (init_threads True) = Some ?s" by (simp add: schedule_eval)
  obtain s' where "schedule ?post ?s = Some s'" by (simp add: schedule_eval)
  then have post: "run ?s [Main_thread, Main_thread, Main_thread] s'" using schedule_run [of ?post] by simp
  have no_retry: "Retry_thread \<notin> set [Main_thread, Main_thread, Main_thread]" by simp
  have at: "crashed ?s = None" "has_adapter ?s" "the_promise ?s = Some True" "main_at ?s = M_JoinProxy"
    "proxy_at ?s = P_Done" by (simp_all add: init_threads_def)
  have "3 \<le> count_list [Main_thread, Main_thread, Main_thread] Main_thread" by simp
  with main_stops_again_crash [OF at post no_retry] have "crashed s' = Some Promise_already_satisfied" by blast
  moreover have "run (init_threads True) [Main_thread, Main_thread, Retry_thread, Proxy_thread, Proxy_thread,
        Proxy_thread, Proxy_thread] ?s" using schedule_run [OF pre] by simp
  moreover have "retry_at ?s = R_Connect" by simp
  ultimately show ?thesis using post by blast
qed

text \<open>
  The same round with the retry thread waking up between the main thread's test of the
  pointer and its set_value: the promise is gone and the call goes through a null pointer.
\<close>

lemma wake_up_between_test_and_set:
  "\<exists>s. run (init_threads True)
      [Main_thread, Main_thread, Retry_thread, Retry_thread, Proxy_thread, Proxy_thread, Proxy_thread, Proxy_thread, Main_thread, Main_thread, Retry_thread, Main_thread] s
    \<and> retry_at s = R_PowerOff \<and> control_at s = C_Idle \<and> crashed s = Some Null_promise"
proof -
  let ?cs = "map (\<lambda>t. (t, True))
    [Main_thread, Main_thread, Retry_thread, Retry_thread, Proxy_thread, Proxy_thread, Proxy_thread, Proxy_thread, Main_thread, Main_thread, Retry_thread, Main_thread]"
  have "\<exists>s. schedule ?cs (init_threads True) = Some s \<and> retry_at s = R_PowerOff
      \<and> control_at s = C_Idle \<and> crashed s = Some Null_promise"
    by (simp add: schedule_eval)
  then show ?thesis using schedule_run [of ?cs "init_threads True"] by fastforce
qed

text \<open>
  C34. A stop that comes too early is lost.  When the phone connects before the main thread has
  started the retry thread, the proxy's stop finds no promise, and the retry thread then makes
  connection attempts without bound while the phone is being served.
\<close>

theorem early_stop_is_lost:
  "\<exists>s. run (init_threads True) ([Main_thread, Proxy_thread, Proxy_thread, Main_thread, Retry_thread] @ concat (replicate n [Retry_thread, Retry_thread])) s
    \<and> proxy_at s = P_Forward \<and> retry_at s = R_Connect \<and> the_promise s = Some False"
proof -
  let ?s = "(init_threads True)\<lparr>main_at := M_JoinProxy, proxy_at := P_Forward, retry_at := R_Connect,
      the_promise := Some False\<rparr>"
  have "schedule (map (\<lambda>t. (t, True)) [Main_thread, Proxy_thread, Proxy_thread, Main_thread, Retry_thread]) (init_threads True) = Some ?s"
    by (simp add: schedule_eval)
  from schedule_run [OF this] have start: "run (init_threads True) [Main_thread, Proxy_thread, Proxy_thread, Main_thread, Retry_thread] ?s" by simp
  have "schedule (map (\<lambda>t. (t, True)) [Retry_thread, Retry_thread]) ?s = Some ?s"
    by (simp add: schedule_eval)
  from schedule_run [OF this] have round: "run ?s [Retry_thread, Retry_thread] ?s" by simp
  have "run ?s (concat (replicate n [Retry_thread, Retry_thread])) ?s"
  proof (induction n)
    case 0
    show ?case by (simp add: run_nil)
  next
    case (Suc n)
    with run_append [OF round] show ?case by simp
  qed
  from run_append [OF start this] show ?thesis
    by (intro exI [of _ ?s]) (simp add: init_threads_def)
qed

section \<open>The end of the retrying\<close>

text \<open>The steps the retry thread has left once it has been stopped.\<close>

fun steps_left :: "retry_pc \<Rightarrow> nat" where
  "steps_left R_Future = 4"
| "steps_left R_Connect = 3"
| "steps_left R_Wait = 2"
| "steps_left R_PowerOff = 1"
| "steps_left R_Done = 0"

definition ending :: "threads \<Rightarrow> bool" where
  "ending s \<longleftrightarrow> thread_inv s \<and> (the_promise s = Some True \<or> retry_at s = R_PowerOff)"

lemma ending_step:
  assumes "step t s s'" "ending s" "crashed s' = None"
  shows "steps_left (retry_at s) = steps_left (retry_at s') + (if t = Retry_thread then 1 else 0)
    \<and> (ending s' \<or> retry_at s' = R_Done)"
proof -
  have inv: "thread_inv s'" using thread_inv_step [OF assms(1)] assms(2,3) by (simp add: ending_def)
  have "steps_left (retry_at s) = steps_left (retry_at s') + (if t = Retry_thread then 1 else 0)
    \<and> ((the_promise s' = Some True \<or> retry_at s' = R_PowerOff) \<or> retry_at s' = R_Done)"
    by (rule stepE [OF assms(1)]; cases "the_promise s" rule: promise_cases)
       (use assms(2,3) in \<open>simp_all add: ending_def thread_inv_def shape_inv_def set_value_def saw_def
          del: step_retry split: if_splits\<close>)
  with inv show ?thesis by (auto simp: ending_def)
qed

lemma run_crashed: "run s ts s' \<Longrightarrow> crashed s' = None \<Longrightarrow> crashed s = None"
  by (induction rule: trace.induct) (auto elim: stepE)

lemma ending_run:
  assumes "run s ts s'" "ending s" "crashed s' = None" "steps_left (retry_at s) \<le> count_list ts Retry_thread"
  shows "\<exists>us vs s1. ts = us @ vs \<and> run s us s1 \<and> run s1 vs s' \<and> retry_at s1 = R_Done
    \<and> count_list us Retry_thread = steps_left (retry_at s)"
  using assms
proof (induction rule: trace.induct)
  case (trace_nil s)
  then have "retry_at s = R_Done" by (cases "retry_at s") simp_all
  then show ?case by (intro exI [of _ "[]"] exI [of _ s]) (auto intro: trace.trace_nil)
next
  case (trace_cons t s s1 ts s2)
  have c: "crashed s1 = None" using run_crashed [OF trace_cons.hyps(2)] trace_cons.prems by simp
  note e = ending_step [OF trace_cons.hyps(1) trace_cons.prems(1) c]
  show ?case
  proof (cases "retry_at s1 = R_Done")
    case True
    with e trace_cons.hyps show ?thesis
      by (intro exI [of _ "[t]"] exI [of _ ts] exI [of _ s1]) (auto intro: run_intros)
  next
    case False
    with e trace_cons.IH trace_cons.prems(2,3) obtain us vs s3 where
      "ts = us @ vs" "run s1 us s3" "run s3 vs s2" "retry_at s3 = R_Done"
      "count_list us Retry_thread = steps_left (retry_at s1)" by (auto split: if_splits)
    with e trace_cons.hyps(1) show ?thesis
      by (intro exI [of _ "t # us"] exI [of _ vs] exI [of _ s3]) (auto intro: run_intros)
  qed
qed

text \<open>
  C13. A stop that arrives ends the retrying.  From any reachable state in which the promise is
  satisfied, the retry thread can always take a step, whatever the other threads do, and once it
  has taken its next few (at most four, so at most one more connection attempt) it has
  returned, unless the process crashed on the way.
\<close>

theorem stop_ends_retry:
  assumes "reachable s" "the_promise s = Some True" "run s ts s'" "crashed s' = None"
    "4 \<le> count_list ts Retry_thread"
  shows "(\<exists>s2. step Retry_thread s s2)
    \<and> (\<exists>us vs s1. ts = us @ vs \<and> run s us s1 \<and> run s1 vs s' \<and> retry_at s1 = R_Done
        \<and> count_list us Retry_thread = steps_left (retry_at s) \<and> steps_left (retry_at s) \<le> 4)"
proof -
  have c: "crashed s = None" using run_crashed assms(3,4) by blast
  with reachable_inv [OF assms(1)] have inv: "thread_inv s" by simp
  with assms(2) have e: "ending s" by (simp add: ending_def)
  have le: "steps_left (retry_at s) \<le> 4" by (cases "retry_at s") simp_all
  have "retry_at s \<in> {R_Future, R_Connect, R_Wait}" using inv assms(2) by (simp add: thread_inv_def shape_inv_def)
  then have "\<exists>s2. step Retry_thread s s2"
    using c assms(2) by (auto simp del: step_retry intro: step.intros)
  with ending_run [OF assms(3) e assms(4)] assms(5) le show ?thesis by auto
qed

text \<open>A round that goes well: the proxy's stop is acknowledged before the main thread's.\<close>

lemma good_round_stopped:
  "\<exists>s s'. reachable s \<and> the_promise s = Some True \<and> crashed s = None
    \<and> run s [Retry_thread, Retry_thread, Retry_thread, Retry_thread, Proxy_thread, Main_thread, Main_thread, Main_thread] s'
    \<and> crashed s' = None \<and> main_at s' = M_Proxy"
proof -
  let ?pre = "map (\<lambda>t. (t, True)) [Main_thread, Main_thread, Proxy_thread, Proxy_thread, Proxy_thread]"
  let ?post = "map (\<lambda>t. (t, True)) [Retry_thread, Retry_thread, Retry_thread, Retry_thread, Proxy_thread, Main_thread, Main_thread, Main_thread]"
  let ?s = "(init_threads True)\<lparr>main_at := M_JoinProxy, proxy_at := P_Forward, retry_at := R_Future,
      the_promise := Some True, seen := 1\<rparr>"
  have "schedule ?pre (init_threads True) = Some ?s" by (simp add: schedule_eval)
  moreover have "\<exists>s'. schedule ?post ?s = Some s' \<and> crashed s' = None \<and> main_at s' = M_Proxy"
    by (simp add: schedule_eval)
  moreover have "the_promise ?s = Some True" "crashed ?s = None" by (simp_all add: init_threads_def)
  ultimately obtain s s' where "schedule ?pre (init_threads True) = Some s" "the_promise s = Some True"
    "crashed s = None" "schedule ?post s = Some s'" "crashed s' = None" "main_at s' = M_Proxy"
    by blast
  moreover from this have "reachable s"
    using run_reachable [OF schedule_run] reachable_initial by blast
  ultimately show ?thesis using schedule_run [of ?post s s'] by auto
qed

theorem promise_lifetime_witness:
  "\<exists>s. reachable s \<and> the_promise s = Some True \<and> retry_at s \<in> {R_Future, R_Connect, R_Wait}"
  using good_round_stopped promise_lifetime by blast

theorem crash_needs_two_stops_witness:
  "\<exists>s. reachable s \<and> crashed s = Some Promise_already_satisfied \<and> 2 \<le> seen s"
proof -
  let ?cs = "map (\<lambda>t. (t, True)) [Main_thread, Main_thread, Proxy_thread, Control_thread, Control_thread, Proxy_thread, Proxy_thread]"
  have "\<exists>s. schedule ?cs (init_threads True) = Some s \<and> crashed s = Some Promise_already_satisfied"
    by (simp add: schedule_eval)
  then obtain s where s: "reachable s" "crashed s = Some Promise_already_satisfied"
    using run_reachable [OF schedule_run] reachable_initial by blast
  with crash_needs_two_stops [OF s] show ?thesis by blast
qed

theorem stop_ends_retry_witness:
  "\<exists>s us vs s1. reachable s \<and> the_promise s = Some True
    \<and> [Retry_thread, Retry_thread, Retry_thread, Retry_thread, Proxy_thread, Main_thread, Main_thread, Main_thread] = us @ vs
    \<and> run s us s1 \<and> retry_at s1 = R_Done"
proof -
  obtain s s' where s: "reachable s" "the_promise s = Some True"
    "run s [Retry_thread, Retry_thread, Retry_thread, Retry_thread, Proxy_thread, Main_thread, Main_thread, Main_thread] s'" "crashed s' = None"
    using good_round_stopped by blast
  from stop_ends_retry [OF s] show ?thesis using s(1,2) by auto
qed

end
