(* ===== verification/Launcher.thy ===== *)
theory Launcher
  imports Reader Config
begin

text \<open>
  AAWirelessLauncher (bluetoothProfiles.cpp): the handshake over
  the RFCOMM channel that hands the phone the Wi-Fi credentials.  A message on the wire is its
  body's length and its id, both 16 bits in network order, and the body.  The protobuf library
  is a parameter: ser gives the bytes a message serialises to, whose number ByteSizeLong
  returns; SerializeToArray writes them, or nothing when the array is too short.  junk is the
  content of memory that has not been written yet.
\<close>

named_theorems launcher_simps \<open>evaluation of the launcher\<close>

section \<open>readFully\<close>

text \<open>Unlike the proxy's routine this one returns the bytes read so far at end of file.\<close>

function profile_readFully_loop ::
    "byte rstream \<Rightarrow> byte list \<Rightarrow> nat \<Rightarrow> nat \<Rightarrow> nat \<Rightarrow> (int \<times> byte list \<times> byte rstream) option" where
  "profile_readFully_loop s buf off got n =
     (if got < n then
        (case sys_read (n - got) s of (r, bs, s') \<Rightarrow>
          (case put_bytes (off + got) bs buf of
             None \<Rightarrow> None
           | Some buf' \<Rightarrow>
               if r < 0 then Some (r, buf', s')
               else if r = 0 then Some (int got, buf', s')
               else profile_readFully_loop s' buf' off (got + nat r) n))
      else Some (int n, buf, s))"
  by pat_completeness auto
termination
  by (relation "measure (\<lambda>(s, buf, off, got, n). n - got)") auto

declare profile_readFully_loop.simps [simp del]

definition profile_readFully ::
    "byte rstream \<Rightarrow> byte list \<Rightarrow> nat \<Rightarrow> nat \<Rightarrow> (int \<times> byte list \<times> byte rstream) option" where
  "profile_readFully s buf off n = profile_readFully_loop s buf off 0 n"

lemma profile_readFully_loop_full:
  assumes "off + n \<le> length buf" "n \<le> got + length (avail s)" "got \<le> n"
  shows "\<exists>s'. profile_readFully_loop s buf off got n =
      Some (int n, take (off + got) buf @ take (n - got) (avail s) @ drop (off + n) buf, s')
    \<and> avail s' = drop (n - got) (avail s) \<and> rsize s' + (n - got) \<le> rsize s"
  using assms
proof (induction s buf off got n rule: profile_readFully_loop.induct)
  case (1 s buf off got n)
  show ?case
  proof (cases "got < n")
    case False
    then have "profile_readFully_loop s buf off got n = Some (int n, buf, s)"
      by (simp add: profile_readFully_loop.simps [of s buf off got n])
    with False "1.prems" show ?thesis by simp
  next
    case True
    with "1.prems" have "avail s \<noteq> []" by auto
    then obtain bs s' where rd: "sys_read (n - got) s = (int (length bs), bs, s')" and ne: "bs \<noteq> []"
      using sys_read_progress [of "n - got" s] True by (auto dest: meta_mp)
    from sys_read_avail [OF rd] ne have av: "avail s = bs @ avail s'" and le: "length bs \<le> n - got"
      by auto
    from sys_read_rsize [OF rd] ne have rs: "rsize s' + length bs \<le> rsize s" by simp
    define b1 where "b1 = take (off + got) buf @ bs @ drop (off + got + length bs) buf"
    have put: "put_bytes (off + got) bs buf = Some b1" and len1: "length b1 = length buf"
      using "1.prems" le True by (auto simp: put_bytes_def b1_def)
    have "\<exists>s''. profile_readFully_loop s' b1 off (got + nat (int (length bs))) n =
        Some (int n, take (off + (got + length bs)) b1 @ take (n - (got + length bs)) (avail s')
              @ drop (off + n) b1, s'')
      \<and> avail s'' = drop (n - (got + length bs)) (avail s')
      \<and> rsize s'' + (n - (got + length bs)) \<le> rsize s'"
      using "1.IH" [OF True rd [symmetric] refl put] ne "1.prems" le len1 av True by auto
    moreover have "take (off + (got + length bs)) b1 @ take (n - (got + length bs)) (avail s')
        @ drop (off + n) b1
      = take (off + got) buf @ take (n - got) (avail s) @ drop (off + n) buf"
      using "1.prems" le av True by (simp add: b1_def add.commute [of n off])
    ultimately show ?thesis
      using True rd put ne av rs le by (auto simp: profile_readFully_loop.simps [of s buf off got n])
  qed
qed

lemma profile_readFully_loop_short:
  assumes "off + n \<le> length buf" "got + length (avail s) < n"
  shows "\<exists>k buf' s'. profile_readFully_loop s buf off got n = Some (k, buf', s') \<and> k < int n
    \<and> length buf' = length buf"
  using assms
proof (induction s buf off got n rule: profile_readFully_loop.induct)
  case (1 s buf off got n)
  from "1.prems" have less: "got < n" by simp
  obtain r bs s' where rd: "sys_read (n - got) s = (r, bs, s')" by (metis prod_cases3)
  from sys_read_len [OF rd] have fits: "off + got + length bs \<le> length buf" using "1.prems" by auto
  then obtain b1 where put: "put_bytes (off + got) bs buf = Some b1" using put_bytes_defined by blast
  note len1 = put_bytes_length [OF put]
  show ?case
  proof (cases "r \<le> 0")
    case True
    then show ?thesis using less rd put len1
      by (auto simp: profile_readFully_loop.simps [of s buf off got n])
  next
    case False
    then have "0 < r" by simp
    from sys_read_avail [OF rd this] have av: "avail s = bs @ avail s'"
      and len: "r = int (length bs)" "length bs \<le> n - got" by auto
    have "\<exists>k buf' s''. profile_readFully_loop s' b1 off (got + nat r) n = Some (k, buf', s'')
        \<and> k < int n \<and> length buf' = length b1"
      using "1.IH" [OF less rd [symmetric] refl put] False "1.prems" len av len1 by auto
    with less rd put False len1 show ?thesis
      by (auto simp: profile_readFully_loop.simps [of s buf off got n])
  qed
qed

interpretation rfcomm_reader: exact_reader profile_readFully
proof
  fix off n :: nat and buf :: "byte list" and s :: "byte rstream"
  assume a: "off + n \<le> length buf" "n \<le> length (avail s)"
  show "\<exists>s'. profile_readFully s buf off n =
      Some (int n, take off buf @ take n (avail s) @ drop (off + n) buf, s')
    \<and> avail s' = drop n (avail s) \<and> rsize s' + n \<le> rsize s"
    using profile_readFully_loop_full [of off n buf 0 s] a by (simp add: profile_readFully_def)
next
  fix off n :: nat and buf :: "byte list" and s :: "byte rstream"
  assume "off + n \<le> length buf" "length (avail s) < n"
  then show "\<exists>k buf' s'. profile_readFully s buf off n = Some (k, buf', s') \<and> k < int n
      \<and> length buf' = length buf"
    using profile_readFully_loop_short [of off n buf 0 s] by (simp add: profile_readFully_def)
qed

section \<open>Messages\<close>

definition MessageId_Invalid :: int where "MessageId_Invalid = - 1"
definition MessageId_WifiStartRequest :: int where "MessageId_WifiStartRequest = 1"
definition MessageId_WifiInfoRequest :: int where "MessageId_WifiInfoRequest = 2"
definition MessageId_WifiInfoResponse :: int where "MessageId_WifiInfoResponse = 3"
definition MessageId_WifiVersionRequest :: int where "MessageId_WifiVersionRequest = 4"
definition MessageId_WifiVersionResponse :: int where "MessageId_WifiVersionResponse = 5"
definition MessageId_WifiConnectStatus :: int where "MessageId_WifiConnectStatus = 6"
definition MessageId_WifiStartResponse :: int where "MessageId_WifiStartResponse = 7"

lemmas MessageId_defs [launcher_simps] = MessageId_Invalid_def MessageId_WifiStartRequest_def
  MessageId_WifiInfoRequest_def MessageId_WifiInfoResponse_def MessageId_WifiVersionRequest_def
  MessageId_WifiVersionResponse_def MessageId_WifiConnectStatus_def MessageId_WifiStartResponse_def

definition MessageName :: "int \<Rightarrow> string" where
  "MessageName messageId =
     (if messageId = MessageId_WifiStartRequest then ''WifiStartRequest''
      else if messageId = MessageId_WifiInfoRequest then ''WifiInfoRequest''
      else if messageId = MessageId_WifiInfoResponse then ''WifiInfoResponse''
      else if messageId = MessageId_WifiVersionRequest then ''WifiVersionRequest''
      else if messageId = MessageId_WifiVersionResponse then ''WifiVersionResponse''
      else if messageId = MessageId_WifiConnectStatus then ''WifiConnectStatus''
      else if messageId = MessageId_WifiStartResponse then ''WifiStartResponse''
      else ''UNKNOWN'')"

text \<open>The two messages the dongle sends (proto/WifiStartRequest.proto, proto/WifiInfoResponse.proto).\<close>

datatype proto_message =
    WifiStartRequest string i32
  | WifiInfoResponse string string string SecurityMode AccessPointType

text \<open>A 16-bit number in network order, as htons and ntohs with memcpy lay it out and read it.\<close>

definition be16 :: "u16 \<Rightarrow> byte list" where
  "be16 w = [ucast (drop_bit 8 w), ucast w]"

definition from_be16 :: "byte list \<Rightarrow> nat" where
  "from_be16 bs = 256 * unat (bs ! 0) + unat (bs ! 1)"

record rfcomm =
  rf_in :: "byte rstream"
  rf_out :: "byte sink"

type_synonym 'a rf_eff = "(rfcomm, fault, 'a) eff"
type_synonym serialiser = "proto_message \<Rightarrow> byte list"

definition uninit :: "(nat \<Rightarrow> byte) \<Rightarrow> nat \<Rightarrow> byte list" where
  "uninit junk n = map junk [0..<n]"

definition SerializeToArray :: "byte list \<Rightarrow> nat \<Rightarrow> nat \<Rightarrow> byte list \<Rightarrow> byte list option" where
  "SerializeToArray bytes off n buffer =
     (if length bytes \<le> n then put_bytes off bytes buffer else Some buffer)"

definition SendMessage :: "(nat \<Rightarrow> byte) \<Rightarrow> serialiser \<Rightarrow> int \<Rightarrow> proto_message \<Rightarrow> unit rf_eff" where
  "SendMessage junk ser messageId message = (\<lambda>st.
     let messageSize = of_nat (length (ser message)) :: u16;
         len = messageSize + 4;
         buffer = uninit junk (unat len)
     in case put_bytes 0 (be16 messageSize) buffer of None \<Rightarrow> throw Buffer_overflow st
        | Some buffer \<Rightarrow>
       (case put_bytes 2 (be16 (of_int messageId)) buffer of None \<Rightarrow> throw Buffer_overflow st
        | Some buffer \<Rightarrow>
       (case SerializeToArray (ser message) 4 (unat messageSize) buffer of
          None \<Rightarrow> throw Buffer_overflow st
        | Some buffer \<Rightarrow> ret () (st\<lparr>rf_out := snd (sys_write buffer (rf_out st))\<rparr>))))"

definition ReadMessage :: "(nat \<Rightarrow> byte) \<Rightarrow> int rf_eff" where
  "ReadMessage junk = (\<lambda>st.
     case profile_readFully (rf_in st) (uninit junk 2) 0 2 of None \<Rightarrow> throw Buffer_overflow st
     | Some (readBytes, wire, s) \<Rightarrow>
       if readBytes \<noteq> 2 then ret MessageId_Invalid (st\<lparr>rf_in := s\<rparr>)
       else let len = from_be16 wire in
     (case profile_readFully s wire 0 2 of None \<Rightarrow> throw Buffer_overflow st
     | Some (readBytes, wire, s) \<Rightarrow>
       if readBytes \<noteq> 2 then ret MessageId_Invalid (st\<lparr>rf_in := s\<rparr>)
       else let messageId = int (from_be16 wire) in
     if 0 < len then
       (case profile_readFully s (uninit junk len) 0 len of None \<Rightarrow> throw Buffer_overflow st
        | Some (readBytes, buffer, s) \<Rightarrow>
          if readBytes \<noteq> int len then ret MessageId_Invalid (st\<lparr>rf_in := s\<rparr>)
          else ret messageId (st\<lparr>rf_in := s\<rparr>))
     else ret messageId (st\<lparr>rf_in := s\<rparr>)))"

text \<open>The message at the head of a byte sequence: its id, its body, and what follows it.\<close>

definition parse_message :: "byte list \<Rightarrow> (int \<times> byte list \<times> byte list) option" where
  "parse_message bs =
     (let n = from_be16 bs
      in if length bs < 4 \<or> length bs < 4 + n then None
         else Some (int (from_be16 (drop 2 bs)), take n (drop 4 bs), drop (4 + n) bs))"

definition message_bytes :: "int \<Rightarrow> byte list \<Rightarrow> byte list" where
  "message_bytes messageId body = be16 (of_nat (length body)) @ be16 (of_int messageId) @ body"

lemma from_be16_bound: "from_be16 bs < 65536"
  using unat_byte_bound [of "bs ! 0"] unat_byte_bound [of "bs ! 1"] unfolding from_be16_def by linarith

lemma be16_length [simp]: "length (be16 w) = 2"
  by (simp add: be16_def)

lemma from_be16_append [simp]: "from_be16 (be16 w @ bs) = unat w"
proof -
  have "unat w div 256 < 256" using unsigned_less [of w, where ?'a = nat] by simp
  then have "unat (ucast (drop_bit 8 w) :: byte) = unat w div 256"
    by (simp add: unsigned_ucast_eq unsigned_drop_bit_eq take_bit_eq_mod drop_bit_eq_div [of 8 "unat w"])
  moreover have "unat (ucast w :: byte) = unat w mod 256"
    by (simp add: unsigned_ucast_eq take_bit_eq_mod)
  ultimately show ?thesis by (simp add: from_be16_def be16_def)
qed

lemma uninit_length [simp]: "length (uninit junk n) = n"
  by (simp add: uninit_def)

lemma from_be16_take: "2 \<le> n \<Longrightarrow> from_be16 (take n bs) = from_be16 bs"
  by (simp add: from_be16_def)

lemma from_be16_overwritten:
  assumes "2 \<le> length bs" shows "from_be16 (take 2 bs @ xs) = from_be16 bs"
  using assms by (simp add: from_be16_def nth_append)

lemma parse_message_bytes:
  assumes "length body < 65536" "0 \<le> i" "i < 65536"
  shows "parse_message (message_bytes i body @ rest) = Some (i, body, rest)"
proof -
  have "unat (of_nat (length body) :: u16) = length body"
    using assms(1) by (simp add: unsigned_of_nat take_bit_eq_mod)
  moreover have "unat (of_int i :: u16) = nat i"
  proof -
    have "uint (of_int i :: u16) = i" using assms(2,3) by (simp add: unsigned_of_int take_bit_eq_mod)
    then show ?thesis by (metis nat_uint_eq)
  qed
  moreover have "drop 2 (message_bytes i body @ rest) = be16 (of_int i) @ body @ rest"
    "drop 4 (message_bytes i body @ rest) = body @ rest"
    "drop (4 + length body) (message_bytes i body @ rest) = rest"
    by (simp_all add: message_bytes_def numeral_2_eq_2 eval_nat_numeral be16_def)
  ultimately show ?thesis using assms(2)
    by (simp add: parse_message_def message_bytes_def)
qed

text \<open>ReadMessage is parse_message, however the channel cuts the bytes up, and never faults.\<close>

lemma ReadMessage_parses:
  "\<exists>s'. ReadMessage junk st =
      (Inr (case parse_message (avail (rf_in st)) of None \<Rightarrow> MessageId_Invalid | Some (i, _, _) \<Rightarrow> i),
       st\<lparr>rf_in := s'\<rparr>)
    \<and> (\<forall>i body rest. parse_message (avail (rf_in st)) = Some (i, body, rest) \<longrightarrow>
        avail s' = rest \<and> rsize s' < rsize (rf_in st) \<and> 0 \<le> i)"
proof -
  let ?s = "rf_in st" and ?b = "uninit junk 2"
  obtain k1 b1 s1 where r1: "profile_readFully ?s ?b 0 2 = Some (k1, b1, s1)"
    using rfcomm_reader.rd_defined [of 0 2 ?b ?s] by auto
  note c1 = rfcomm_reader.rd_complete_iff [OF _ r1]
  show ?thesis
  proof (cases "k1 = 2")
    case False
    with c1 r1 show ?thesis
      by (intro exI [of _ s1]) (auto simp: ReadMessage_def parse_message_def Let_def)
  next
    case True
    note g1 = rfcomm_reader.rd_got [of 0 2 ?b ?s b1 s1]
    have a1: "2 \<le> length (avail ?s)" "b1 = take 2 (avail ?s)" "avail s1 = drop 2 (avail ?s)"
      "rsize s1 + 2 \<le> rsize ?s" using g1 r1 True by simp_all
    have n: "from_be16 b1 = from_be16 (avail ?s)" by (simp add: a1(2) from_be16_take)
    have l1: "length b1 = 2" using a1(1,2) by simp
    obtain k2 b2 s2 where r2: "profile_readFully s1 b1 0 2 = Some (k2, b2, s2)"
      using rfcomm_reader.rd_defined [of 0 2 b1 s1] l1 by auto
    note c2 = rfcomm_reader.rd_complete_iff [OF _ r2]
    show ?thesis
    proof (cases "k2 = 2")
      case False
      with c2 l1 a1 have "length (avail ?s) < 4" by simp
      with False r1 r2 True show ?thesis
        by (intro exI [of _ s2]) (auto simp: ReadMessage_def parse_message_def Let_def)
    next
      case t2: True
      have a2: "2 \<le> length (avail s1)" "b2 = take 2 (avail s1)" "avail s2 = drop 2 (avail s1)"
        "rsize s2 + 2 \<le> rsize s1"
        using rfcomm_reader.rd_got [of 0 2 b1 s1 b2 s2] r2 t2 l1 by simp_all
      have i: "from_be16 b2 = from_be16 (drop 2 (avail ?s))"
        by (simp add: a2(2) a1(3) from_be16_take)
      have four: "4 \<le> length (avail ?s)" "avail s2 = drop 4 (avail ?s)" using a1 a2 by simp_all
      show ?thesis
      proof (cases "from_be16 b1 = 0")
        case True
        with r1 r2 \<open>k1 = 2\<close> t2 n i four a1 a2 show ?thesis
          by (intro exI [of _ s2]) (auto simp: ReadMessage_def parse_message_def Let_def)
      next
        case False
        let ?n = "from_be16 b1"
        obtain k3 b3 s3 where r3: "profile_readFully s2 (uninit junk ?n) 0 ?n = Some (k3, b3, s3)"
          using rfcomm_reader.rd_defined [of 0 ?n "uninit junk ?n" s2] by auto
        have c3: "k3 = int ?n \<longleftrightarrow> ?n \<le> length (avail s2)"
          using rfcomm_reader.rd_complete_iff [OF _ r3] by simp
        have run: "ReadMessage junk st =
            (Inr (if k3 = int ?n then int (from_be16 b2) else MessageId_Invalid), st\<lparr>rf_in := s3\<rparr>)"
          using r1 r2 r3 \<open>k1 = 2\<close> t2 False by (simp add: ReadMessage_def Let_def)
        show ?thesis
        proof (cases "k3 = int ?n")
          case True
          have "avail s3 = drop ?n (avail s2)" "rsize s3 + ?n \<le> rsize s2"
            using rfcomm_reader.rd_got(3,4) [of 0 ?n "uninit junk ?n" s2 b3 s3] r3 True by simp_all
          with run True c3 n i four a1(4) a2(4) show ?thesis
            by (intro exI [of _ s3]) (auto simp: parse_message_def Let_def add.commute)
        next
          case False
          with run c3 n four show ?thesis
            by (intro exI [of _ s3]) (auto simp: parse_message_def Let_def)
        qed
      qed
    qed
  qed
qed

lemma ReadMessage_progress:
  assumes "ReadMessage junk st = (Inr i, st')" "i \<noteq> MessageId_Invalid"
  shows "rsize (rf_in st') < rsize (rf_in st)"
  using ReadMessage_parses [of junk st] assms by (auto split: option.splits)

section \<open>Sending\<close>

lemma put_header:
  assumes "4 \<le> length buf"
  shows "put_bytes 0 (be16 a) buf = Some (be16 a @ drop 2 buf)"
    "put_bytes 2 (be16 b) (be16 a @ drop 2 buf) = Some (be16 a @ be16 b @ drop 4 buf)"
proof -
  show "put_bytes 0 (be16 a) buf = Some (be16 a @ drop 2 buf)"
    using assms by (simp add: put_bytes_def numeral_2_eq_2)
  show "put_bytes 2 (be16 b) (be16 a @ drop 2 buf) = Some (be16 a @ be16 b @ drop 4 buf)"
    using assms by (simp add: put_bytes_def)
qed

text \<open>
  The 16-bit arithmetic of SendMessage: the sum is at least 4 exactly when it has not wrapped.
\<close>

lemma message_len_unat:
  "unat (of_nat n + 4 :: u16) = (n mod 65536 + 4) mod 65536"
  "unat (of_nat n :: u16) = n mod 65536"
  by (simp_all add: unat_word_ariths(1) unsigned_of_nat take_bit_eq_mod)

lemma SendMessage_sends:
  assumes "length (ser m) < 65532"
  shows "SendMessage junk ser i m st =
    (Inr (), st\<lparr>rf_out := snd (sys_write (message_bytes i (ser m)) (rf_out st))\<rparr>)"
proof -
  let ?n = "length (ser m)"
  let ?buf = "uninit junk (?n + 4)"
  let ?b = "be16 (of_nat ?n) @ be16 (of_int i) @ drop 4 ?buf"
  have l: "unat (of_nat ?n + 4 :: u16) = ?n + 4" "unat (of_nat ?n :: u16) = ?n"
    using assms by (simp_all only: message_len_unat) simp_all
  have "put_bytes 4 (ser m) ?b = Some (message_bytes i (ser m))"
    by (simp add: put_bytes_def message_bytes_def)
  then show ?thesis
    using put_header(1) [where buf = ?buf and a = "of_nat ?n"]
        put_header(2) [where buf = ?buf and a = "of_nat ?n" and b = "of_int i"] l
    by (simp add: SendMessage_def Let_def SerializeToArray_def)
qed

text \<open>
  C31. Serialised messages of fewer than 65532 bytes go out in one write, and ReadMessage at the
  other end gives the id back and leaves the rest of the channel, whatever pieces the channel
  delivers the bytes in.
\<close>

theorem message_roundtrip:
  assumes "length (ser m) < 65532" "0 \<le> i" "i < 65536"
    and "avail (rf_in peer) = message_bytes i (ser m) @ rest"
  shows "SendMessage junk ser i m st =
      (Inr (), st\<lparr>rf_out := snd (sys_write (message_bytes i (ser m)) (rf_out st))\<rparr>)
    \<and> (\<exists>s'. ReadMessage junk' peer = (Inr i, peer\<lparr>rf_in := s'\<rparr>) \<and> avail s' = rest)"
proof
  show "SendMessage junk ser i m st =
      (Inr (), st\<lparr>rf_out := snd (sys_write (message_bytes i (ser m)) (rf_out st))\<rparr>)"
    using assms(1) by (rule SendMessage_sends)
  have "parse_message (avail (rf_in peer)) = Some (i, ser m, rest)"
    using assms parse_message_bytes by simp
  with ReadMessage_parses [of junk' peer]
  show "\<exists>s'. ReadMessage junk' peer = (Inr i, peer\<lparr>rf_in := s'\<rparr>) \<and> avail s' = rest" by auto
qed

text \<open>
  The width of the length field.  SendMessage stores outside its buffer exactly when the
  serialised size, cut to 16 bits, is above 65531: the addition of the header size wraps and the
  buffer is shorter than the header.
\<close>

lemma SendMessage_overflow:
  "fst (SendMessage junk ser i m st) = Inl Buffer_overflow
     \<longleftrightarrow> 65532 \<le> length (ser m) mod 65536"
proof -
  let ?n = "length (ser m)"
  let ?len = "(?n mod 65536 + 4) mod 65536"
  let ?size = "of_nat ?n :: u16"
  have l: "unat (?size + 4) = ?len" "unat ?size = ?n mod 65536" by (rule message_len_unat)+
  show ?thesis
  proof (cases "65532 \<le> ?n mod 65536")
    case True
    have "r < 65536 \<Longrightarrow> 65532 \<le> r \<Longrightarrow> (r + 4) mod 65536 < 4" for r :: nat
      using le_mod_geq [of 65536 "r + 4"] by simp
    with True have "?len < 4" by simp
    then have "put_bytes 0 (be16 ?size) (uninit junk ?len) = None
        \<or> (\<exists>b. put_bytes 0 (be16 ?size) (uninit junk ?len) = Some b
              \<and> put_bytes 2 (be16 (of_int i)) b = None)"
      by (auto simp: put_bytes_def)
    with True show ?thesis by (auto simp: SendMessage_def Let_def l)
  next
    case False
    then have len: "?len = ?n mod 65536 + 4" by simp
    let ?b = "be16 ?size @ be16 (of_int i) @ drop 4 (uninit junk ?len)"
    have "length ?b = ?n mod 65536 + 4" by (simp add: len)
    then have "\<exists>b. SerializeToArray (ser m) 4 (?n mod 65536) ?b = Some b"
      by (simp add: SerializeToArray_def put_bytes_def)
    with False show ?thesis
      using put_header(1) [where buf = "uninit junk ?len" and a = ?size]
        put_header(2) [where buf = "uninit junk ?len" and a = ?size and b = "of_int i"] len
      by (auto simp: SendMessage_def Let_def l)
  qed
qed

section \<open>The handshake\<close>

text \<open>
  The loop after the WifiInfoResponse.  Every message read takes bytes off the channel, so the
  loop ends on every script.
\<close>

function await_start :: "(nat \<Rightarrow> byte) \<Rightarrow> unit rf_eff" where
  "await_start junk st = (case ReadMessage junk st of
      (Inl e, st') \<Rightarrow> (Inl e, st')
    | (Inr postInfoId, st') \<Rightarrow>
        if postInfoId = MessageId_Invalid then (Inr (), st')
        else if postInfoId = MessageId_WifiStartResponse then (Inr (), st')
        else await_start junk st')"
  by pat_completeness auto
termination
  by (relation "measure (\<lambda>(junk, st). rsize (rf_in st))")
     (auto intro: ReadMessage_progress [OF sym])

declare await_start.simps [simp del]

definition launch :: "(nat \<Rightarrow> byte) \<Rightarrow> serialiser \<Rightarrow> host \<Rightarrow> unit rf_eff" where
  "launch junk ser h =
     (let wifiInfo = getWifiInfo h in
      andthen (SendMessage junk ser MessageId_WifiStartRequest
                 (WifiStartRequest (ipAddress wifiInfo) (of_int (port wifiInfo)))) (\<lambda>_.
      andthen (ReadMessage junk) (\<lambda>messageId.
      if messageId \<noteq> MessageId_WifiInfoRequest then ret ()
      else andthen (SendMessage junk ser MessageId_WifiInfoResponse
             (WifiInfoResponse (ssid wifiInfo) (key wifiInfo) (bssid wifiInfo)
                (securityMode wifiInfo) (accessPointType wifiInfo)))
           (\<lambda>_. await_start junk))))"

text \<open>The two frames the dongle may send.\<close>

definition start_frame :: "serialiser \<Rightarrow> host \<Rightarrow> byte list" where
  "start_frame ser h = (let w = getWifiInfo h in
     message_bytes MessageId_WifiStartRequest (ser (WifiStartRequest (ipAddress w) (of_int (port w)))))"

definition info_frame :: "serialiser \<Rightarrow> host \<Rightarrow> byte list" where
  "info_frame ser h = (let w = getWifiInfo h in
     message_bytes MessageId_WifiInfoResponse (ser (WifiInfoResponse (ssid w) (key w) (bssid w)
       (securityMode w) (accessPointType w))))"

definition sizes_ok :: "serialiser \<Rightarrow> host \<Rightarrow> bool" where
  "sizes_ok ser h \<longleftrightarrow> length (start_frame ser h) < 65536 \<and> length (info_frame ser h) < 65536"

lemma message_bytes_length: "length (message_bytes i body) = 4 + length body"
  by (simp add: message_bytes_def)

lemma sizes_okD:
  assumes "sizes_ok ser h"
  shows "SendMessage junk ser MessageId_WifiStartRequest
      (WifiStartRequest (ipAddress (getWifiInfo h)) (of_int (port (getWifiInfo h)))) st
    = (Inr (), st\<lparr>rf_out := snd (sys_write (start_frame ser h) (rf_out st))\<rparr>)"
    "SendMessage junk ser MessageId_WifiInfoResponse
      (WifiInfoResponse (ssid (getWifiInfo h)) (key (getWifiInfo h)) (bssid (getWifiInfo h))
        (securityMode (getWifiInfo h)) (accessPointType (getWifiInfo h))) st
    = (Inr (), st\<lparr>rf_out := snd (sys_write (info_frame ser h) (rf_out st))\<rparr>)"
  using assms
  by (simp_all add: sizes_ok_def start_frame_def info_frame_def Let_def message_bytes_length SendMessage_sends)

text \<open>What the loop behind the WifiInfoResponse does to the bytes it gets.\<close>

lemma parse_message_shorter:
  "parse_message bs = Some (i, body, rest) \<Longrightarrow> length rest < length bs"
  by (auto simp: parse_message_def Let_def split: if_splits)

function await_bytes :: "byte list \<Rightarrow> byte list option" where
  "await_bytes bs = (case parse_message bs of
      None \<Rightarrow> None
    | Some (i, body, rest) \<Rightarrow> if i = MessageId_WifiStartResponse then Some rest else await_bytes rest)"
  by pat_completeness auto
termination
  by (relation "measure length") (auto intro: parse_message_shorter)

declare await_bytes.simps [simp del]

lemma await_start_bytes:
  "\<exists>s'. await_start junk st = (Inr (), st\<lparr>rf_in := s'\<rparr>)
    \<and> (\<forall>rest. await_bytes (avail (rf_in st)) = Some rest \<longrightarrow> avail s' = rest)"
proof (induction junk st rule: await_start.induct)
  case (1 junk st)
  obtain s1 where r: "ReadMessage junk st =
      (Inr (case parse_message (avail (rf_in st)) of None \<Rightarrow> MessageId_Invalid | Some (i, _, _) \<Rightarrow> i),
       st\<lparr>rf_in := s1\<rparr>)"
    "\<And>i body rest. parse_message (avail (rf_in st)) = Some (i, body, rest) \<Longrightarrow> avail s1 = rest \<and> 0 \<le> i"
    using ReadMessage_parses [of junk st] by blast
  show ?case
  proof (cases "parse_message (avail (rf_in st))")
    case None
    with r(1) show ?thesis
      by (intro exI [of _ s1]) (simp add: await_start.simps [of junk st] await_bytes.simps [of "avail (rf_in st)"])
  next
    case (Some p)
    then obtain i body rest where p: "parse_message (avail (rf_in st)) = Some (i, body, rest)"
      by (cases p) auto
    with r have s1: "avail s1 = rest" "0 \<le> i" and
      run: "ReadMessage junk st = (Inr i, st\<lparr>rf_in := s1\<rparr>)" by auto
    show ?thesis
    proof (cases "i = MessageId_WifiStartResponse")
      case True
      with p s1 run show ?thesis
        by (intro exI [of _ s1])
           (simp add: await_start.simps [of junk st] await_bytes.simps [of "avail (rf_in st)"] MessageId_defs)
    next
      case False
      have ni: "i \<noteq> MessageId_Invalid" using s1(2) by (simp add: MessageId_defs)
      with "1.IH" [OF run [symmetric] refl ni False] obtain s2 where
        "await_start junk (st\<lparr>rf_in := s1\<rparr>) = (Inr (), st\<lparr>rf_in := s2\<rparr>)"
        "\<forall>rest'. await_bytes rest = Some rest' \<longrightarrow> avail s2 = rest'"
        using s1 by auto
      with p run ni False show ?thesis
        by (intro exI [of _ s2])
           (simp add: await_start.simps [of junk st] await_bytes.simps [of "avail (rf_in st)"])
    qed
  qed
qed

lemma launch_run:
  assumes "sizes_ok ser h"
  defines "asked bs \<equiv> (case parse_message bs of None \<Rightarrow> False | Some (i, _, _) \<Rightarrow> i = MessageId_WifiInfoRequest)"
  shows "\<exists>s'. launch junk ser h st = (Inr (), \<lparr>rf_in = s', rf_out =
      (if asked (avail (rf_in st))
       then snd (sys_write (info_frame ser h) (snd (sys_write (start_frame ser h) (rf_out st))))
       else snd (sys_write (start_frame ser h) (rf_out st)))\<rparr>)
    \<and> (\<forall>i body rest rest'. parse_message (avail (rf_in st)) = Some (i, body, rest) \<longrightarrow>
        asked (avail (rf_in st)) \<longrightarrow> await_bytes rest = Some rest' \<longrightarrow> avail s' = rest')"
proof -
  let ?w1 = "snd (sys_write (start_frame ser h) (rf_out st))"
  let ?st1 = "st\<lparr>rf_out := ?w1\<rparr>"
  obtain s1 where r: "ReadMessage junk ?st1 =
      (Inr (case parse_message (avail (rf_in st)) of None \<Rightarrow> MessageId_Invalid | Some (i, _, _) \<Rightarrow> i),
       ?st1\<lparr>rf_in := s1\<rparr>)"
    "\<And>i body rest. parse_message (avail (rf_in st)) = Some (i, body, rest) \<Longrightarrow> avail s1 = rest"
    using ReadMessage_parses [of junk ?st1] by auto
  show ?thesis
  proof (cases "asked (avail (rf_in st))")
    case False
    then have "(case parse_message (avail (rf_in st)) of None \<Rightarrow> MessageId_Invalid | Some (i, _, _) \<Rightarrow> i)
        \<noteq> MessageId_WifiInfoRequest"
      by (auto simp: asked_def MessageId_defs split: option.splits)
    with False r(1) sizes_okD [OF assms(1)] show ?thesis
      by (intro exI [of _ s1]) (simp add: launch_def Let_def)
  next
    case True
    then obtain body rest where p: "parse_message (avail (rf_in st)) = Some (MessageId_WifiInfoRequest, body, rest)"
      by (auto simp: asked_def split: option.splits)
    let ?st2 = "st\<lparr>rf_in := s1, rf_out := snd (sys_write (info_frame ser h) ?w1)\<rparr>"
    obtain s2 where "await_start junk ?st2 = (Inr (), ?st2\<lparr>rf_in := s2\<rparr>)"
      "\<forall>rest'. await_bytes rest = Some rest' \<longrightarrow> avail s2 = rest'"
      using await_start_bytes [of junk ?st2] r(2) [OF p] by auto
    with True p r(1) sizes_okD [OF assms(1)] show ?thesis
      by (intro exI [of _ s2]) (simp add: launch_def Let_def)
  qed
qed

text \<open>
  C20. The handshake always returns, and it depends only on the bytes of the channel.  The
  start request is always sent; the credentials are sent exactly when the first message of the
  phone is a complete WifiInfoRequest, and nothing else is ever written.
\<close>

theorem launch_sends_credentials_on_request:
  assumes "sizes_ok ser h"
  shows "\<exists>s'. launch junk ser h st = (Inr (), \<lparr>rf_in = s', rf_out =
      (if \<exists>body rest. parse_message (avail (rf_in st)) = Some (MessageId_WifiInfoRequest, body, rest)
       then snd (sys_write (info_frame ser h) (snd (sys_write (start_frame ser h) (rf_out st))))
       else snd (sys_write (start_frame ser h) (rf_out st)))\<rparr>)"
proof -
  have "(\<exists>body rest. parse_message (avail (rf_in st)) = Some (MessageId_WifiInfoRequest, body, rest))
    \<longleftrightarrow> (case parse_message (avail (rf_in st)) of None \<Rightarrow> False | Some (i, _, _) \<Rightarrow> i = MessageId_WifiInfoRequest)"
    by (auto split: option.splits)
  with launch_run [OF assms, of junk st] show ?thesis by (auto simp only:)
qed

lemma await_bytes_skips:
  assumes "\<forall>(i, body) \<in> set ms. 0 \<le> i \<and> i < 65536 \<and> i \<noteq> MessageId_WifiStartResponse \<and> length body < 65536"
    "length body7 < 65536"
  shows "await_bytes (concat (map (\<lambda>(i, body). message_bytes i body) ms)
      @ message_bytes MessageId_WifiStartResponse body7 @ rest) = Some rest"
  using assms(1)
proof (induction ms)
  case Nil
  from assms(2) show ?case
    by (simp add: await_bytes.simps [of "message_bytes _ _ @ _"] parse_message_bytes MessageId_defs)
next
  case (Cons m ms)
  then show ?case
    by (cases m) (simp add: await_bytes.simps [of "message_bytes _ _ @ _"] parse_message_bytes)
qed

text \<open>
  C19. A phone that keeps to the protocol is served: it asks for the credentials, may send any
  number of other messages, and ends with WifiStartResponse.  Then both frames are written, in
  this order, and exactly the messages of the handshake are taken off the channel.
\<close>

theorem launch_completes:
  assumes "sizes_ok ser h" "wscript (rf_out st) = []"
    and "length body2 < 65536" "length body7 < 65536"
    and "\<forall>(i, body) \<in> set ms. 0 \<le> i \<and> i < 65536 \<and> i \<noteq> MessageId_WifiStartResponse \<and> length body < 65536"
    and "avail (rf_in st) = message_bytes MessageId_WifiInfoRequest body2
        @ concat (map (\<lambda>(i, body). message_bytes i body) ms)
        @ message_bytes MessageId_WifiStartResponse body7 @ rest"
  shows "\<exists>st'. launch junk ser h st = (Inr (), st')
    \<and> wlog (rf_out st') = wlog (rf_out st) @ [start_frame ser h, info_frame ser h]
    \<and> avail (rf_in st') = rest"
proof -
  have p: "parse_message (avail (rf_in st)) = Some (MessageId_WifiInfoRequest, body2,
      concat (map (\<lambda>(i, body). message_bytes i body) ms) @ message_bytes MessageId_WifiStartResponse body7 @ rest)"
    unfolding assms(6) by (rule parse_message_bytes) (simp_all add: assms(3) MessageId_defs)
  obtain s' where s': "launch junk ser h st = (Inr (), \<lparr>rf_in = s', rf_out =
      snd (sys_write (info_frame ser h) (snd (sys_write (start_frame ser h) (rf_out st))))\<rparr>)"
    "avail s' = rest"
    using launch_run [OF assms(1), of junk st] await_bytes_skips [OF assms(5,4), of rest] p by auto
  then show ?thesis using assms(2) by (intro exI [of _ "\<lparr>rf_in = s', rf_out =
      snd (sys_write (info_frame ser h) (snd (sys_write (start_frame ser h) (rf_out st))))\<rparr>"])
      (simp add: sys_write_reliable)
qed

section \<open>Concrete runs\<close>

text \<open>A serialiser in the style of protobuf for short strings, and a phone that cuts its bytes up.\<close>

definition field :: "byte \<Rightarrow> string \<Rightarrow> byte list" where
  "field tag s = tag # of_nat (length s) # map of_char s"

fun demo_ser :: serialiser where
  "demo_ser (WifiStartRequest ip p) = field 10 ip @ [16, ucast p]"
| "demo_ser (WifiInfoResponse s k b m a) = field 10 s @ field 18 k @ field 26 b
     @ [32, of_int (SecurityMode_value m), 40, of_int (AccessPointType_value a)]"

definition demo_phone :: "byte rstream" where
  "demo_phone = [Data [0], Data [0, 0, 2, 0], Data [2, 0, 6], Data [8, 0, 0, 0], Data [0, 7, 99]]"

lemma demo_sizes: "sizes_ok demo_ser demo_host"
  by (simp add: sizes_ok_def start_frame_def info_frame_def message_bytes_length Let_def field_def
      getWifiInfo_def getInterfaceIpv4Address_def getMacAddress_def first_line_of_def getenv_string_def
      demo_host_def getline_def inet_ntop_def)

lemma demo_messages:
  "avail demo_phone = message_bytes MessageId_WifiInfoRequest []
     @ concat (map (\<lambda>(i, body). message_bytes i body) [(6, [8, 0])])
     @ message_bytes MessageId_WifiStartResponse [] @ [99]"
  by (simp add: demo_phone_def message_bytes_def be16_def MessageId_defs)

theorem message_roundtrip_witness:
  "\<exists>s'. ReadMessage (\<lambda>_. 0) \<lparr>rf_in = [Data (message_bytes 1 (demo_ser (WifiStartRequest ''10.0.0.1'' 5288)) @ [7])],
      rf_out = fresh_sink\<rparr> = (Inr 1, \<lparr>rf_in = s', rf_out = fresh_sink\<rparr>) \<and> avail s' = [7]"
  using message_roundtrip [of demo_ser "WifiStartRequest ''10.0.0.1'' 5288" 1
      "\<lparr>rf_in = [Data (message_bytes 1 (demo_ser (WifiStartRequest ''10.0.0.1'' 5288)) @ [7])],
        rf_out = fresh_sink\<rparr>" "[7]"]
  by (auto simp: field_def message_bytes_def)

theorem launch_sends_credentials_on_request_witness:
  "\<exists>s'. launch (\<lambda>_. 0) demo_ser demo_host \<lparr>rf_in = [Fail], rf_out = fresh_sink\<rparr>
    = (Inr (), \<lparr>rf_in = s', rf_out = snd (sys_write (start_frame demo_ser demo_host) fresh_sink)\<rparr>)"
  using launch_sends_credentials_on_request [OF demo_sizes, of "\<lambda>_. 0" "\<lparr>rf_in = [Fail], rf_out = fresh_sink\<rparr>"]
  by (simp add: parse_message_def)

theorem launch_completes_witness:
  "\<exists>st'. launch (\<lambda>_. 0) demo_ser demo_host \<lparr>rf_in = demo_phone, rf_out = fresh_sink\<rparr> = (Inr (), st')
    \<and> wlog (rf_out st') = [start_frame demo_ser demo_host, info_frame demo_ser demo_host]
    \<and> avail (rf_in st') = [99]"
  using launch_completes [OF demo_sizes, of "\<lparr>rf_in = demo_phone, rf_out = fresh_sink\<rparr>" "[]" "[]"
      "[(6, [8, 0])]" "[99]" "\<lambda>_. 0"] demo_messages
  by (simp add: MessageId_defs)

end
