(* ===== verification/Profiles.thy ===== *)
theory Profiles
  imports Launcher Bluetooth Transition
begin

text \<open>
  The Bluetooth profiles at work (AAWirelessProfile and HSPHSProfile in bluetoothProfiles.cpp,
  their export in bluetoothHandler.cpp).  BlueZ calls the exported objects; a NewConnection of
  the Android Auto profile copies the descriptor and starts a detached thread that makes the
  copy blocking, runs the handshake of Launcher over it and closes it.  The descriptor table and
  the open file descriptions are the process's; several handshakes, the library that owns the
  original descriptors and the rest of the daemon may move in any order.
\<close>

named_theorems profile_simps \<open>evaluation of the profile model\<close>

section \<open>Descriptors\<close>

record open_file =
  status_flags :: i32
  channel :: rfcomm

text \<open>
  A detached thread: its captured descriptor and where it is.  fileOf is a ghost, the open file
  the descriptor it was started with stood for.
\<close>

datatype worker_pc = W_Start | W_Blocking | W_Launched | W_Closed | W_Fault

record worker =
  fdCopy :: nat
  fileOf :: nat
  worker_at :: worker_pc

text \<open>others is a ghost: the descriptors that belong to the rest of the process.\<close>

record process =
  fd_limit :: nat
  fd_table :: "nat \<Rightarrow> nat option"
  open_files :: "nat \<Rightarrow> open_file"
  others :: "nat set"
  workers :: "worker list"

definition lowest_free :: "process \<Rightarrow> nat option" where
  "lowest_free p = find (\<lambda>n. fd_table p n = None) [0..<fd_limit p]"

text \<open>dup(2): the lowest free descriptor for the same open file, -1 for a bad descriptor or a full table.\<close>

definition dup :: "nat \<Rightarrow> process \<Rightarrow> int \<times> process" where
  "dup fd p = (case (fd_table p fd, lowest_free p) of
      (Some f, Some n) \<Rightarrow> (int n, p\<lparr>fd_table := (fd_table p)(n \<mapsto> f)\<rparr>)
    | _ \<Rightarrow> (- 1, p))"

definition O_NONBLOCK :: i32 where "O_NONBLOCK = 0x800"

definition fcntl_getfl :: "nat \<Rightarrow> process \<Rightarrow> i32" where
  "fcntl_getfl fd p = (case fd_table p fd of None \<Rightarrow> - 1 | Some f \<Rightarrow> status_flags (open_files p f))"

definition on_file :: "nat \<Rightarrow> (open_file \<Rightarrow> open_file) \<Rightarrow> process \<Rightarrow> process" where
  "on_file fd g p = (case fd_table p fd of
      None \<Rightarrow> p
    | Some f \<Rightarrow> p\<lparr>open_files := (open_files p)(f := g (open_files p f))\<rparr>)"

definition fcntl_setfl :: "nat \<Rightarrow> i32 \<Rightarrow> process \<Rightarrow> process" where
  "fcntl_setfl fd v = on_file fd (\<lambda>x. x\<lparr>status_flags := v\<rparr>)"

definition close_descriptor :: "nat \<Rightarrow> process \<Rightarrow> process" where
  "close_descriptor fd p = p\<lparr>fd_table := (fd_table p)(fd := None)\<rparr>"

section \<open>The thread of a connection\<close>

text \<open>launch on a descriptor: without an open file every read and write on it fails.\<close>

definition dead_channel :: rfcomm where
  "dead_channel = \<lparr>rf_in = [Fail], rf_out = \<lparr>wscript = [WFail], wlog = []\<rparr>\<rparr>"

definition channel_of :: "nat \<Rightarrow> process \<Rightarrow> rfcomm" where
  "channel_of fd p = (case fd_table p fd of None \<Rightarrow> dead_channel | Some f \<Rightarrow> channel (open_files p f))"

definition make_blocking :: "nat \<Rightarrow> process \<Rightarrow> process" where
  "make_blocking fd p = fcntl_setfl fd (and (fcntl_getfl fd p) (not O_NONBLOCK)) p"

definition worker_step ::
    "(nat \<Rightarrow> byte) \<Rightarrow> serialiser \<Rightarrow> host \<Rightarrow> nat \<Rightarrow> process \<Rightarrow> process option" where
  "worker_step junk ser h i p =
     (let w = workers p ! i;
          goes = (\<lambda>pc q. Some (q\<lparr>workers := (workers q)[i := w\<lparr>worker_at := pc\<rparr>]\<rparr>))
      in case worker_at w of
           W_Start \<Rightarrow> goes W_Blocking (make_blocking (fdCopy w) p)
         | W_Blocking \<Rightarrow> (case launch junk ser h (channel_of (fdCopy w) p) of (r, c) \<Rightarrow>
             goes (if r = Inr () then W_Launched else W_Fault)
               (on_file (fdCopy w) (\<lambda>x. x\<lparr>channel := c\<rparr>) p))
         | W_Launched \<Rightarrow> goes W_Closed (close_descriptor (fdCopy w) p)
         | W_Closed \<Rightarrow> None
         | W_Fault \<Rightarrow> None)"

section \<open>Calls from BlueZ\<close>

datatype profile_call =
    Release
  | NewConnection string nat properties
  | RequestDisconnection string

text \<open>AAWirelessProfile::NewConnection; when dup fails there is no thread.\<close>

definition AAWirelessProfile_NewConnection :: "nat \<Rightarrow> process \<Rightarrow> process" where
  "AAWirelessProfile_NewConnection rawFd p = (case dup rawFd p of (fd, q) \<Rightarrow>
     if fd < 0 then q
     else q\<lparr>workers := workers q @
       [\<lparr>fdCopy = nat fd, fileOf = the (fd_table p rawFd), worker_at = W_Start\<rparr>]\<rparr>)"

text \<open>The other methods of the two profiles only log; an advertisement has none of these.\<close>

fun profile_method :: "dbus_object \<Rightarrow> profile_call \<Rightarrow> process \<Rightarrow> process" where
  "profile_method AAWirelessProfile Release p = p"
| "profile_method AAWirelessProfile (NewConnection path fd fdProperties) p =
     AAWirelessProfile_NewConnection fd p"
| "profile_method AAWirelessProfile (RequestDisconnection path) p = p"
| "profile_method HSPHSProfile Release p = p"
| "profile_method HSPHSProfile (NewConnection path fd fdProperties) p = p"
| "profile_method HSPHSProfile (RequestDisconnection path) p = p"
| "profile_method (Advertisement a) call p = p"

text \<open>
  Who may move.  A connection is handed over once, on a descriptor that dbus-cxx has received
  and owns; the rest of the process opens descriptors and closes its own.
\<close>

datatype profile_actor = Bluez dbus_object profile_call | Worker nat | Opens nat | Closes nat

fun handed_over :: "profile_call \<Rightarrow> process \<Rightarrow> bool" where
  "handed_over (NewConnection path fd props) p \<longleftrightarrow>
     fd \<in> others p \<and> (\<forall>w \<in> set (workers p). fd_table p fd \<noteq> Some (fileOf w))"
| "handed_over _ p \<longleftrightarrow> True"

fun profile_step ::
    "(nat \<Rightarrow> byte) \<Rightarrow> serialiser \<Rightarrow> host \<Rightarrow> profile_actor \<Rightarrow> process \<Rightarrow> process option" where
  "profile_step junk ser h (Bluez obj call) p =
     (if handed_over call p then Some (profile_method obj call p) else None)"
| "profile_step junk ser h (Worker i) p =
     (if i < length (workers p) then worker_step junk ser h i p else None)"
| "profile_step junk ser h (Opens f) p = (case lowest_free p of
      None \<Rightarrow> None
    | Some n \<Rightarrow> Some (p\<lparr>fd_table := (fd_table p)(n \<mapsto> f), others := insert n (others p)\<rparr>))"
| "profile_step junk ser h (Closes fd) p =
     (if fd \<in> others p then Some (close_descriptor fd p\<lparr>others := others p - {fd}\<rparr>) else None)"

section \<open>The invariant\<close>

definition live :: "worker \<Rightarrow> bool" where
  "live w \<longleftrightarrow> worker_at w \<noteq> W_Closed"

text \<open>What the thread has done to its open file so far.\<close>

definition blocking :: "open_file \<Rightarrow> open_file" where
  "blocking x = x\<lparr>status_flags := and (status_flags x) (not O_NONBLOCK)\<rparr>"

definition launched :: "(nat \<Rightarrow> byte) \<Rightarrow> serialiser \<Rightarrow> host \<Rightarrow> open_file \<Rightarrow> open_file" where
  "launched junk ser h x = (blocking x)\<lparr>channel := snd (launch junk ser h (channel x))\<rparr>"

fun progress :: "(nat \<Rightarrow> byte) \<Rightarrow> serialiser \<Rightarrow> host \<Rightarrow> worker_pc \<Rightarrow> open_file \<Rightarrow> open_file" where
  "progress junk ser h W_Start x = x"
| "progress junk ser h W_Blocking x = blocking x"
| "progress junk ser h _ x = launched junk ser h x"

definition live_fds :: "process \<Rightarrow> nat set" where
  "live_fds p = fdCopy ` {w \<in> set (workers p). live w}"

text \<open>Who owns which descriptor.\<close>

definition owned :: "process \<Rightarrow> bool" where
  "owned p \<longleftrightarrow> dom (fd_table p) = others p \<union> live_fds p \<and> others p \<inter> live_fds p = {}
    \<and> (\<forall>i < length (workers p). \<forall>j < length (workers p). i \<noteq> j \<longrightarrow>
        fileOf (workers p ! i) \<noteq> fileOf (workers p ! j)
        \<and> (live (workers p ! i) \<longrightarrow> live (workers p ! j) \<longrightarrow> fdCopy (workers p ! i) \<noteq> fdCopy (workers p ! j)))
    \<and> (\<forall>w \<in> set (workers p). live w \<longrightarrow> fd_table p (fdCopy w) = Some (fileOf w))"

text \<open>What has happened to the open files since the state p0.\<close>

definition undisturbed ::
    "(nat \<Rightarrow> byte) \<Rightarrow> serialiser \<Rightarrow> host \<Rightarrow> (nat \<Rightarrow> open_file) \<Rightarrow> process \<Rightarrow> bool" where
  "undisturbed junk ser h files0 p \<longleftrightarrow>
     (\<forall>w \<in> set (workers p). open_files p (fileOf w) = progress junk ser h (worker_at w) (files0 (fileOf w))
        \<and> (worker_at w = W_Fault \<longleftrightarrow> worker_at w \<notin> {W_Start, W_Blocking}
             \<and> fst (launch junk ser h (channel (files0 (fileOf w)))) \<noteq> Inr ()))
     \<and> (\<forall>f. f \<notin> fileOf ` set (workers p) \<longrightarrow> open_files p f = files0 f)"

definition profile_inv ::
    "(nat \<Rightarrow> byte) \<Rightarrow> serialiser \<Rightarrow> host \<Rightarrow> (nat \<Rightarrow> open_file) \<Rightarrow> process \<Rightarrow> bool" where
  "profile_inv junk ser h files0 p \<longleftrightarrow> owned p \<and> undisturbed junk ser h files0 p"

definition profile_start :: "(nat \<Rightarrow> open_file) \<Rightarrow> process \<Rightarrow> bool" where
  "profile_start files0 p \<longleftrightarrow> workers p = [] \<and> dom (fd_table p) = others p \<and> open_files p = files0"

lemma profile_inv_start: "profile_start files0 p \<Longrightarrow> profile_inv junk ser h files0 p"
  by (auto simp: profile_start_def profile_inv_def owned_def undisturbed_def live_fds_def)

lemma lowest_free_fresh: "lowest_free p = Some n \<Longrightarrow> fd_table p n = None"
  unfolding lowest_free_def by (drule find_some_in) simp

text \<open>The ownership of the descriptors.\<close>

lemma live_fds_nth:
  "fd \<in> live_fds p \<longleftrightarrow> (\<exists>i < length (workers p). live (workers p ! i) \<and> fdCopy (workers p ! i) = fd)"
  by (force simp: live_fds_def in_set_conv_nth)

lemma ownedD:
  assumes "owned p"
  shows "fd_table p fd \<noteq> None \<longleftrightarrow> fd \<in> others p \<or> fd \<in> live_fds p" "fd \<in> others p \<Longrightarrow> fd \<notin> live_fds p"
    "i < length (workers p) \<Longrightarrow> live (workers p ! i) \<Longrightarrow>
      fd_table p (fdCopy (workers p ! i)) = Some (fileOf (workers p ! i))"
    "i < length (workers p) \<Longrightarrow> j < length (workers p) \<Longrightarrow> i \<noteq> j \<Longrightarrow>
      fileOf (workers p ! i) \<noteq> fileOf (workers p ! j)"
    "i < length (workers p) \<Longrightarrow> j < length (workers p) \<Longrightarrow> i \<noteq> j \<Longrightarrow>
      live (workers p ! i) \<Longrightarrow> live (workers p ! j) \<Longrightarrow> fdCopy (workers p ! i) \<noteq> fdCopy (workers p ! j)"
  using assms by (auto simp: owned_def dom_def)

lemma owned_opens:
  assumes "owned p" "lowest_free p = Some n"
  shows "owned (p\<lparr>fd_table := (fd_table p)(n \<mapsto> f), others := insert n (others p)\<rparr>)"
proof -
  have "n \<notin> live_fds p" "n \<notin> others p"
    using ownedD(1) [OF assms(1), of n] lowest_free_fresh [OF assms(2)] by auto
  moreover from this have "live w \<Longrightarrow> w \<in> set (workers p) \<Longrightarrow> fdCopy w \<noteq> n" for w
    by (auto simp: live_fds_def)
  ultimately show ?thesis using assms(1) by (auto simp: owned_def live_fds_def)
qed

lemma owned_closes:
  assumes "owned p" "fd \<in> others p"
  shows "owned (close_descriptor fd p\<lparr>others := others p - {fd}\<rparr>)"
proof -
  have "fd \<notin> live_fds p" using assms ownedD(2) by blast
  then have "live w \<Longrightarrow> w \<in> set (workers p) \<Longrightarrow> fdCopy w \<noteq> fd" for w
    by (auto simp: live_fds_def)
  then show ?thesis using assms(1) \<open>fd \<notin> live_fds p\<close>
    by (auto simp: owned_def live_fds_def close_descriptor_def)
qed

lemma owned_starts:
  assumes "owned p" "lowest_free p = Some n" "\<forall>w \<in> set (workers p). fileOf w \<noteq> f"
  shows "owned (p\<lparr>fd_table := (fd_table p)(n \<mapsto> f),
    workers := workers p @ [\<lparr>fdCopy = n, fileOf = f, worker_at = W_Start\<rparr>]\<rparr>)"
proof -
  have n: "n \<notin> live_fds p" "n \<notin> others p"
    using ownedD(1) [OF assms(1), of n] lowest_free_fresh [OF assms(2)] by auto
  then have ne: "live w \<Longrightarrow> w \<in> set (workers p) \<Longrightarrow> fdCopy w \<noteq> n" for w
    by (auto simp: live_fds_def)
  have ne_nth: "live (workers p ! j) \<Longrightarrow> j < length (workers p) \<Longrightarrow> fdCopy (workers p ! j) \<noteq> n" for j
    using ne by simp
  let ?q = "p\<lparr>fd_table := (fd_table p)(n \<mapsto> f),
    workers := workers p @ [\<lparr>fdCopy = n, fileOf = f, worker_at = W_Start\<rparr>]\<rparr>"
  have "live_fds ?q = insert n (live_fds p)" by (auto simp: live_fds_def live_def intro: rev_image_eqI)
  moreover have "fileOf (workers ?q ! i) \<noteq> fileOf (workers ?q ! j)
      \<and> (live (workers ?q ! i) \<longrightarrow> live (workers ?q ! j) \<longrightarrow> fdCopy (workers ?q ! i) \<noteq> fdCopy (workers ?q ! j))"
    if "i < length (workers ?q)" "j < length (workers ?q)" "i \<noteq> j" for i j
    using that ownedD(4,5) [OF assms(1), of i j] ne_nth [of i] ne_nth [of j] assms(3)
      nth_mem [of i "workers p"] nth_mem [of j "workers p"]
    by (cases "i = length (workers p)"; cases "j = length (workers p)") (auto simp: nth_append)
  ultimately show ?thesis using assms(1) n ne by (simp add: owned_def)
qed

lemma owned_moves:
  assumes "owned p" "i < length (workers p)" "live (workers p ! i)" "pc \<noteq> W_Closed"
  shows "owned (p\<lparr>open_files := fs, workers := (workers p)[i := (workers p ! i)\<lparr>worker_at := pc\<rparr>]\<rparr>)"
proof -
  let ?ws = "(workers p)[i := (workers p ! i)\<lparr>worker_at := pc\<rparr>]"
  have same: "fdCopy (?ws ! j) = fdCopy (workers p ! j)" "fileOf (?ws ! j) = fileOf (workers p ! j)"
    "live (?ws ! j) = live (workers p ! j)" if "j < length (workers p)" for j
    using that assms(2-4) by (auto simp: nth_list_update live_def)
  have "live_fds (p\<lparr>open_files := fs, workers := ?ws\<rparr>) = live_fds p"
    unfolding set_eq_iff live_fds_nth by (simp add: same cong: conj_cong)
  with assms(1) show ?thesis by (simp add: owned_def all_set_conv_all_nth same)
qed

lemma owned_ends:
  assumes "owned p" "i < length (workers p)" "live (workers p ! i)"
  shows "owned (close_descriptor (fdCopy (workers p ! i)) p
    \<lparr>workers := (workers p)[i := (workers p ! i)\<lparr>worker_at := W_Closed\<rparr>]\<rparr>)"
proof -
  let ?ws = "(workers p)[i := (workers p ! i)\<lparr>worker_at := W_Closed\<rparr>]"
  let ?fd = "fdCopy (workers p ! i)"
  have same: "fdCopy (?ws ! j) = fdCopy (workers p ! j)" "fileOf (?ws ! j) = fileOf (workers p ! j)"
    "live (?ws ! j) \<longleftrightarrow> live (workers p ! j) \<and> j \<noteq> i" if "j < length (workers p)" for j
    using that assms(2) by (auto simp: nth_list_update live_def)
  have fd: "?fd \<in> live_fds p" using assms(2,3) by (auto simp: live_fds_nth)
  then have no: "?fd \<notin> others p" using ownedD(2) [OF assms(1)] by blast
  have other: "fdCopy (workers p ! j) \<noteq> ?fd" if "j < length (workers p)" "live (workers p ! j)" "j \<noteq> i" for j
    using ownedD(5) [OF assms(1,2), of j] that assms(3) by metis
  have "live_fds (close_descriptor ?fd p\<lparr>workers := ?ws\<rparr>) = live_fds p - {?fd}"
    unfolding set_eq_iff live_fds_nth Diff_iff using other
    by (simp add: same close_descriptor_def cong: conj_cong) (metis singletonD singletonI)
  with assms(1) no other show ?thesis
    by (auto simp: owned_def all_set_conv_all_nth same close_descriptor_def)
qed

text \<open>The open files.\<close>

lemma undisturbed_nth:
  assumes "undisturbed junk ser h files0 p" "i < length (workers p)"
  defines "w \<equiv> workers p ! i"
  shows "open_files p (fileOf w) = progress junk ser h (worker_at w) (files0 (fileOf w))"
    "worker_at w = W_Fault \<longleftrightarrow> worker_at w \<notin> {W_Start, W_Blocking}
      \<and> fst (launch junk ser h (channel (files0 (fileOf w)))) \<noteq> Inr ()"
  using assms(1) nth_mem [OF assms(2)] unfolding w_def undisturbed_def by blast+

lemma undisturbed_moves:
  assumes "owned p" "undisturbed junk ser h files0 p" "i < length (workers p)"
    and "open_files q = (open_files p)(fileOf (workers p ! i) := progress junk ser h pc (files0 (fileOf (workers p ! i))))"
    and "pc = W_Fault \<longleftrightarrow> pc \<notin> {W_Start, W_Blocking}
      \<and> fst (launch junk ser h (channel (files0 (fileOf (workers p ! i))))) \<noteq> Inr ()"
    and "workers q = (workers p)[i := (workers p ! i)\<lparr>worker_at := pc\<rparr>]"
  shows "undisturbed junk ser h files0 q"
proof -
  let ?f = "fileOf (workers p ! i)"
  have files: "fileOf (workers q ! j) = fileOf (workers p ! j)" if "j < length (workers p)" for j
    using that assms(3,6) by (simp add: nth_list_update)
  have "fileOf ` set (workers q) = fileOf ` set (workers p)"
    using arg_cong [OF nth_equalityI [of "map fileOf (workers q)" "map fileOf (workers p)"], of set] files assms(6)
    by simp
  moreover have "open_files q (fileOf w) = progress junk ser h (worker_at w) (files0 (fileOf w))
      \<and> (worker_at w = W_Fault \<longleftrightarrow> worker_at w \<notin> {W_Start, W_Blocking}
           \<and> fst (launch junk ser h (channel (files0 (fileOf w)))) \<noteq> Inr ())" if w: "w \<in> set (workers q)" for w
  proof -
    from w obtain j where j: "j < length (workers p)" "w = workers q ! j"
      using assms(6) by (auto simp: in_set_conv_nth)
    show ?thesis
    proof (cases "j = i")
      case True
      with j assms(4-6) show ?thesis by simp
    next
      case False
      then have "w = workers p ! j" "fileOf (workers p ! j) \<noteq> ?f"
        using j assms(6) ownedD(4) [OF assms(1) j(1) assms(3)] by simp_all
      with undisturbed_nth [OF assms(2) j(1)] assms(4) show ?thesis by simp
    qed
  qed
  moreover have "open_files q f = files0 f" if "f \<notin> fileOf ` set (workers p)" for f
    using that assms(2-4) by (auto simp: undisturbed_def)
  ultimately show ?thesis unfolding undisturbed_def by simp
qed

lemma undisturbed_same:
  "undisturbed junk ser h files0 p \<Longrightarrow> open_files q = open_files p \<Longrightarrow> workers q = workers p \<Longrightarrow>
   undisturbed junk ser h files0 q"
  by (simp add: undisturbed_def)

lemma undisturbed_starts:
  assumes "undisturbed junk ser h files0 p" "\<forall>w \<in> set (workers p). fileOf w \<noteq> f"
    and "open_files q = open_files p" "workers q = workers p @ [\<lparr>fdCopy = n, fileOf = f, worker_at = W_Start\<rparr>]"
  shows "undisturbed junk ser h files0 q"
proof -
  have "f \<notin> fileOf ` set (workers p)" using assms(2) by auto
  then have "open_files p f = files0 f" using assms(1) by (simp add: undisturbed_def)
  with assms show ?thesis by (auto simp: undisturbed_def)
qed

lemma worker_keeps:
  assumes "profile_inv junk ser h files0 p" "i < length (workers p)" "worker_step junk ser h i p = Some q"
  shows "profile_inv junk ser h files0 q"
proof -
  let ?w = "workers p ! i"
  let ?x = "files0 (fileOf ?w)"
  from assms(1) have o: "owned p" and u: "undisturbed junk ser h files0 p"
    by (simp_all add: profile_inv_def)
  from assms(3) have live: "live ?w" by (auto simp: worker_step_def live_def Let_def split: worker_pc.splits)
  note fd = ownedD(3) [OF o assms(2) live]
  note now = undisturbed_nth [OF u assms(2)]
  show ?thesis
  proof (cases "worker_at ?w")
    case W_Start
    let ?fs = "(open_files p)(fileOf ?w := progress junk ser h W_Blocking ?x)"
    have q: "q = p\<lparr>open_files := ?fs, workers := (workers p)[i := ?w\<lparr>worker_at := W_Blocking\<rparr>]\<rparr>"
      using assms(3) W_Start fd now(1)
      by (simp add: worker_step_def Let_def make_blocking_def fcntl_setfl_def fcntl_getfl_def on_file_def blocking_def)
    show ?thesis unfolding profile_inv_def
      using owned_moves [OF o assms(2) live, of W_Blocking ?fs] undisturbed_moves [OF o u assms(2), of q W_Blocking] q
      by simp
  next
    case W_Blocking
    obtain r c where l: "launch junk ser h (channel ?x) = (r, c)" by fastforce
    let ?pc = "if r = Inr () then W_Launched else W_Fault"
    let ?fs = "(open_files p)(fileOf ?w := progress junk ser h ?pc ?x)"
    have q: "q = p\<lparr>open_files := ?fs, workers := (workers p)[i := ?w\<lparr>worker_at := ?pc\<rparr>]\<rparr>"
      using assms(3) W_Blocking fd now(1) l
      by (auto simp: worker_step_def Let_def on_file_def channel_of_def blocking_def launched_def)
    show ?thesis unfolding profile_inv_def
      using owned_moves [OF o assms(2) live, of ?pc ?fs] undisturbed_moves [OF o u assms(2), of q ?pc] q l
      by simp
  next
    case W_Launched
    have q: "q = close_descriptor (fdCopy ?w) p\<lparr>workers := (workers p)[i := ?w\<lparr>worker_at := W_Closed\<rparr>]\<rparr>"
      using assms(3) W_Launched by (simp add: worker_step_def Let_def close_descriptor_def)
    have "(open_files p)(fileOf ?w := progress junk ser h W_Closed ?x) = open_files p"
      using now(1) W_Launched by (intro ext) simp
    then show ?thesis unfolding profile_inv_def
      using owned_ends [OF o assms(2) live] undisturbed_moves [OF o u assms(2), of q W_Closed] q now(2) W_Launched
      by (simp add: close_descriptor_def)
  qed (use assms(3) in \<open>simp_all add: worker_step_def Let_def\<close>)
qed

lemma call_keeps:
  assumes "profile_inv junk ser h files0 p" "handed_over call p"
  shows "profile_inv junk ser h files0 (profile_method obj call p)"
proof (cases "(obj, call, p)" rule: profile_method.cases)
  case (2 path fd props q)
  then have "fd \<in> others p" and fresh: "\<forall>w \<in> set (workers p). fd_table p fd \<noteq> Some (fileOf w)"
    using assms(2) by simp_all
  moreover from assms(1) have o: "owned p" and u: "undisturbed junk ser h files0 p"
    by (simp_all add: profile_inv_def)
  ultimately obtain f where f: "fd_table p fd = Some f" using ownedD(1) [OF o, of fd] by blast
  show ?thesis
  proof (cases "lowest_free p")
    case None
    with f 2 assms(1) show ?thesis by (simp add: AAWirelessProfile_NewConnection_def dup_def)
  next
    case (Some n)
    from fresh f have new: "\<forall>w \<in> set (workers p). fileOf w \<noteq> f" by auto
    show ?thesis using f Some 2 owned_starts [OF o Some new] undisturbed_starts [OF u new]
      by (simp add: AAWirelessProfile_NewConnection_def dup_def profile_inv_def)
  qed
qed (use assms(1) in simp_all)

lemma profile_keeps:
  assumes "profile_inv junk ser h files0 p" "profile_step junk ser h a p = Some q"
  shows "profile_inv junk ser h files0 q"
proof (cases a)
  case (Bluez obj call)
  with assms call_keeps show ?thesis by (auto split: if_splits)
next
  case (Worker i)
  with assms worker_keeps show ?thesis by (auto split: if_splits)
next
  case (Opens f)
  with assms owned_opens [of p _ f] show ?thesis
    by (auto simp: profile_inv_def intro: undisturbed_same split: option.splits)
next
  case (Closes fd)
  with assms owned_closes [of p fd] show ?thesis
    by (auto simp: profile_inv_def close_descriptor_def intro: undisturbed_same split: if_splits)
qed

interpretation profiles: invariant_system "profile_start files0" "step_of (profile_step junk ser h)"
    "profile_inv junk ser h files0"
  for junk ser h files0
  by unfold_locales (auto simp: step_of_def intro: profile_inv_start profile_keeps)

section \<open>Properties\<close>

text \<open>
  C22. The descriptors of the handshakes, under every order of the calls from BlueZ, the
  handshake threads and the rest of the process.  As long as a handshake thread has not closed
  its descriptor, the descriptor still stands for the connection it was started for, whatever
  has become of the original; no two such threads share a descriptor, and none belongs to anyone
  else.  When all threads are done exactly the descriptors of the rest of the process are open:
  none is leaked, and none of the others was closed.
\<close>

theorem handshake_descriptors:
  assumes "profile_start files0 p0" "trace (step_of (profile_step junk ser h)) p0 actors p"
  shows "(\<forall>w \<in> set (workers p). live w \<longrightarrow> fd_table p (fdCopy w) = Some (fileOf w) \<and> fdCopy w \<notin> others p)
    \<and> (\<forall>i < length (workers p). \<forall>j < length (workers p). i \<noteq> j \<longrightarrow> live (workers p ! i) \<longrightarrow>
        live (workers p ! j) \<longrightarrow> fdCopy (workers p ! i) \<noteq> fdCopy (workers p ! j))
    \<and> ((\<forall>w \<in> set (workers p). \<not> live w) \<longrightarrow> dom (fd_table p) = others p)"
proof -
  have o: "owned p" using profiles.inv_reached [OF assms] by (simp add: profile_inv_def)
  then have "\<forall>w \<in> set (workers p). live w \<longrightarrow> fd_table p (fdCopy w) = Some (fileOf w) \<and> fdCopy w \<notin> others p"
    "(\<forall>w \<in> set (workers p). \<not> live w) \<longrightarrow> dom (fd_table p) = others p"
    by (auto simp: owned_def live_fds_def)
  with o show ?thesis by (simp add: owned_def)
qed

text \<open>With messages that fit, launch never faults.\<close>

lemma launch_returns: "sizes_ok ser h \<Longrightarrow> fst (launch junk ser h st) = Inr ()"
  using launch_run [of ser h] by (metis fst_conv)

text \<open>
  C21. Handshakes do not disturb each other.  Whatever else happens in the process, a thread
  whose work is done has run exactly the handshake of Launcher on the connection it was started
  for, as it was at the start, and has taken O_NONBLOCK off it and nothing else; no thread has
  faulted; and a connection that was only offered to the headset profile is untouched.
\<close>

theorem handshakes_are_isolated:
  assumes "sizes_ok ser h" "profile_start files0 p0"
    and "trace (step_of (profile_step junk ser h)) p0 actors p"
  shows "(\<forall>w \<in> set (workers p). worker_at w \<noteq> W_Fault
      \<and> (worker_at w \<in> {W_Launched, W_Closed} \<longrightarrow>
           channel (open_files p (fileOf w)) = snd (launch junk ser h (channel (files0 (fileOf w))))
           \<and> status_flags (open_files p (fileOf w)) = and (status_flags (files0 (fileOf w))) (not O_NONBLOCK)))
    \<and> (\<forall>f. f \<notin> fileOf ` set (workers p) \<longrightarrow> open_files p f = files0 f)"
proof (intro conjI ballI impI allI)
  have u: "undisturbed junk ser h files0 p"
    using profiles.inv_reached [OF assms(2,3)] by (simp add: profile_inv_def)
  fix w assume w: "w \<in> set (workers p)"
  with u launch_returns [OF assms(1), of junk "channel (files0 (fileOf w))"]
  show "worker_at w \<noteq> W_Fault" by (auto simp: undisturbed_def)
  assume "worker_at w \<in> {W_Launched, W_Closed}"
  moreover have "open_files p (fileOf w) = progress junk ser h (worker_at w) (files0 (fileOf w))"
    using u w by (simp add: undisturbed_def)
  ultimately show "channel (open_files p (fileOf w)) = snd (launch junk ser h (channel (files0 (fileOf w))))"
    "status_flags (open_files p (fileOf w)) = and (status_flags (files0 (fileOf w))) (not O_NONBLOCK)"
    by (auto simp: launched_def blocking_def)
next
  fix f assume "f \<notin> fileOf ` set (workers p)"
  then show "open_files p f = files0 f"
    using profiles.inv_reached [OF assms(2,3)] by (simp add: profile_inv_def undisturbed_def)
qed

section \<open>What is exported\<close>

text \<open>
  The objects on the bus after a list of calls, and whether every path that a call of the list
  announces to BlueZ has an object by then that implements the interface BlueZ will call.
\<close>

fun exported :: "(string \<Rightarrow> dbus_object option) \<Rightarrow> dbus_call list \<Rightarrow> string \<Rightarrow> dbus_object option" where
  "exported objs [] = objs"
| "exported objs (RegisterObject path obj # cs) = exported (objs(path \<mapsto> obj)) cs"
| "exported objs (_ # cs) = exported objs cs"

definition serves :: "dbus_object option \<Rightarrow> string \<Rightarrow> bool" where
  "serves found interface = (case found of None \<Rightarrow> False | Some obj \<Rightarrow> implements obj interface)"

fun announced :: "(string \<Rightarrow> dbus_object option) \<Rightarrow> dbus_call list \<Rightarrow> bool" where
  "announced objs [] \<longleftrightarrow> True"
| "announced objs (RegisterObject path obj # cs) \<longleftrightarrow> announced (objs(path \<mapsto> obj)) cs"
| "announced objs (RegisterProfile path uuid opts # cs) \<longleftrightarrow>
     serves (objs path) INTERFACE_BLUEZ_PROFILE \<and> announced objs cs"
| "announced objs (RegisterAdvertisement path opts # cs) \<longleftrightarrow>
     serves (objs path) INTERFACE_BLUEZ_LE_ADVERTISEMENT \<and> announced objs cs"
| "announced objs (_ # cs) \<longleftrightarrow> announced objs cs"

text \<open>The member of the adapter's proxy that a call goes through, with the type it is used at.\<close>

fun adapter_member :: "dbus_call \<Rightarrow> (string \<times> dbus_member) option" where
  "adapter_member (SetString path p v) = Some (INTERFACE_BLUEZ_ADAPTER, Property p Type_string ReadWrite)"
| "adapter_member (SetBool path p v) = Some (INTERFACE_BLUEZ_ADAPTER, Property p Type_bool ReadWrite)"
| "adapter_member (RegisterAdvertisement path opts) =
     Some (INTERFACE_BLUEZ_LE_ADVERTISING_MANAGER, Method ''RegisterAdvertisement'' [Type_path, Type_properties])"
| "adapter_member (UnregisterAdvertisement path) =
     Some (INTERFACE_BLUEZ_LE_ADVERTISING_MANAGER, Method ''UnregisterAdvertisement'' [Type_path])"
| "adapter_member _ = None"

definition well_typed :: "dbus_call \<Rightarrow> bool" where
  "well_typed c = (case adapter_member c of None \<Rightarrow> True | Some m \<Rightarrow> m \<in> set BluezAdapterProxy_members)"

lemma paths_differ [simp]:
  "HSP_HS_PROFILE_OBJECT_PATH \<noteq> AAWG_PROFILE_OBJECT_PATH" "AAWG_PROFILE_OBJECT_PATH \<noteq> HSP_HS_PROFILE_OBJECT_PATH"
  "LE_ADVERTISEMENT_OBJECT_PATH \<noteq> AAWG_PROFILE_OBJECT_PATH" "LE_ADVERTISEMENT_OBJECT_PATH \<noteq> HSP_HS_PROFILE_OBJECT_PATH"
  "AAWG_PROFILE_OBJECT_PATH \<noteq> LE_ADVERTISEMENT_OBJECT_PATH" "HSP_HS_PROFILE_OBJECT_PATH \<noteq> LE_ADVERTISEMENT_OBJECT_PATH"
  by (simp_all add: HSP_HS_PROFILE_OBJECT_PATH_def AAWG_PROFILE_OBJECT_PATH_def LE_ADVERTISEMENT_OBJECT_PATH_def)

text \<open>
  C23. Start-up and power-up with a BlueZ that answers, from a daemon that has made no call yet.
  The calls are, in this order: the first object with an adapter interface gets the configured or
  derived name; the Android Auto profile and outside dongle mode the headset profile are exported
  and announced; the adapter is made powered, discoverable and pairable; in dongle mode it
  advertises.  What is said to the adapter goes through members its proxy declares, at their
  types.  Every path is exported before it is announced, with an object that implements the interface
  BlueZ will call.  At the Android Auto path a NewConnection starts the handshake; outside dongle
  mode the headset path has the object that ignores it; in dongle mode with an adapter BlueZ
  reads from the advertisement a peripheral with the Android Auto service and the adapter's name.
\<close>

theorem start_up_exports:
  fixes h :: host
  assumes "answers bus os" "m_adapter b = None" "calls b = []"
  shows "\<exists>b1 b2. bt_init bus h b = (Inr (), b1) \<and> powerOn bus b1 = (Inr (), b2)
    \<and> map fst (calls b2) = [GetManagedObjects]
        @ (case chosen_adapter os of None \<Rightarrow> [] | Some a \<Rightarrow> [SetString a ''Alias'' (adapter_alias h (strategy b))])
        @ profile_calls (strategy b) @ power_on_calls (chosen_adapter os) (strategy b) (adapter_alias h (strategy b))
    \<and> (\<forall>c \<in> set (map fst (calls b2)). well_typed c)
    \<and> announced Map.empty (map fst (calls b2))
    \<and> exported Map.empty (map fst (calls b2)) AAWG_PROFILE_OBJECT_PATH = Some AAWirelessProfile
    \<and> exported Map.empty (map fst (calls b2)) HSP_HS_PROFILE_OBJECT_PATH
        = (if strategy b = DONGLE_MODE then None else Some HSPHSProfile)
    \<and> (if strategy b = DONGLE_MODE \<and> chosen_adapter os \<noteq> None
       then \<exists>obj. exported Map.empty (map fst (calls b2)) LE_ADVERTISEMENT_OBJECT_PATH = Some obj
         \<and> read_property obj ''Type'' = Some (Value_string ''peripheral'')
         \<and> read_property obj ''ServiceUUIDs'' = Some (Value_strings [AAWG_PROFILE_UUID])
         \<and> read_property obj ''LocalName'' = Some (Value_string (adapter_alias h (strategy b)))
       else exported Map.empty (map fst (calls b2)) LE_ADVERTISEMENT_OBJECT_PATH = None)"
proof -
  let ?nm = "adapter_alias h (strategy b)"
  obtain b1 where b1: "bt_init bus h b = (Inr (), b1)" "strategy b1 = strategy b"
    "m_adapter b1 = chosen_adapter os" "m_adapterAlias b1 = ?nm"
    "map fst (calls b1) = [GetManagedObjects]
      @ (case chosen_adapter os of None \<Rightarrow> [] | Some a \<Rightarrow> [SetString a ''Alias'' ?nm])
      @ profile_calls (strategy b)"
    by (rule bt_init_says [OF assms(1,2), of h]) (rule that, simp_all add: assms(3))
  obtain b2 where b2: "powerOn bus b1 = (Inr (), b2)"
    "map fst (calls b2) = map fst (calls b1) @ power_on_calls (m_adapter b1) (strategy b1) (m_adapterAlias b1)"
    by (rule powerOn_says [OF assms(1)])
  note calls = b2(2) [unfolded b1(2-5)]
  show ?thesis
    by (rule exI [of _ b1], rule exI [of _ b2])
       (auto simp: b1(1) b2(1) calls serves_def advertisement_def power_on_calls_def profile_calls_def
          advertising_calls_def well_typed_def BluezAdapterProxy_members_def split: option.split)
qed

section \<open>Concrete runs\<close>

text \<open>Two phones connect while the descriptors the library received them on are closed.\<close>

definition demo_process :: process where
  "demo_process = \<lparr>fd_limit = 8, fd_table = (\<lambda>n. if n < 5 then Some n else None),
     open_files = (\<lambda>f. \<lparr>status_flags = 0x802,
       channel = \<lparr>rf_in = (if f = 3 then demo_phone else [Fail]), rf_out = fresh_sink\<rparr>\<rparr>),
     others = {0, 1, 2, 3, 4}, workers = []\<rparr>"

definition demo_actors :: "profile_actor list" where
  "demo_actors = [Bluez AAWirelessProfile (NewConnection ''/dev_a'' 3 []), Closes 3, Worker 0,
     Bluez AAWirelessProfile (NewConnection ''/dev_b'' 4 []), Bluez HSPHSProfile Release, Worker 0,
     Worker 1, Closes 4, Worker 0, Opens 9, Worker 1, Worker 1]"

lemma demo_profile_start: "profile_start (open_files demo_process) demo_process"
  by (auto simp: profile_start_def demo_process_def split: if_splits)

theorem start_up_exports_witness:
  "\<exists>b1 b2. bt_init silent_bus demo_host (demo_bt\<lparr>m_adapter := None, calls := [], strategy := DONGLE_MODE\<rparr>) = (Inr (), b1)
    \<and> powerOn silent_bus b1 = (Inr (), b2) \<and> announced Map.empty (map fst (calls b2))
    \<and> exported Map.empty (map fst (calls b2)) AAWG_PROFILE_OBJECT_PATH = Some AAWirelessProfile"
  using start_up_exports [OF silent_answers, of "demo_bt\<lparr>m_adapter := None, calls := [], strategy := DONGLE_MODE\<rparr>" demo_host]
  by auto

lemma demo_launch: "\<exists>c. launch (\<lambda>_. 0) demo_ser demo_host st = (Inr (), c)"
  using launch_returns [OF demo_sizes, of "\<lambda>_. 0" st] by (metis prod.collapse)

lemmas profile_run_simps [profile_simps] = dup_def lowest_free_def on_file_def fcntl_getfl_def fcntl_setfl_def
  close_descriptor_def channel_of_def make_blocking_def worker_step_def AAWirelessProfile_NewConnection_def
  Let_def upt_conv_Cons

lemma demo_run:
  obtains p where "trace (step_of (profile_step (\<lambda>_. 0) demo_ser demo_host)) demo_process demo_actors p"
    "workers p = [\<lparr>fdCopy = 5, fileOf = 3, worker_at = W_Closed\<rparr>, \<lparr>fdCopy = 3, fileOf = 4, worker_at = W_Closed\<rparr>]"
    "others p = {0, 1, 2, 4}"
proof -
  obtain a b where ab: "launch (\<lambda>_. 0) demo_ser demo_host (channel (open_files demo_process 3)) = (Inr (), a)"
    "launch (\<lambda>_. 0) demo_ser demo_host (channel (open_files demo_process 4)) = (Inr (), b)"
    using demo_launch by blast
  have "\<exists>p. run_schedule (profile_step (\<lambda>_. 0) demo_ser demo_host) demo_actors demo_process = Some p
    \<and> workers p = [\<lparr>fdCopy = 5, fileOf = 3, worker_at = W_Closed\<rparr>, \<lparr>fdCopy = 3, fileOf = 4, worker_at = W_Closed\<rparr>]
    \<and> others p = {0, 1, 2, 4}"
    using ab by (simp add: demo_actors_def demo_process_def profile_simps) auto
  then show thesis using that by (auto simp: run_schedule_iff)
qed

theorem handshake_descriptors_witness:
  "\<exists>p. trace (step_of (profile_step (\<lambda>_. 0) demo_ser demo_host)) demo_process demo_actors p
    \<and> dom (fd_table p) = {0, 1, 2, 4}"
proof -
  obtain p where p: "trace (step_of (profile_step (\<lambda>_. 0) demo_ser demo_host)) demo_process demo_actors p"
    "workers p = [\<lparr>fdCopy = 5, fileOf = 3, worker_at = W_Closed\<rparr>, \<lparr>fdCopy = 3, fileOf = 4, worker_at = W_Closed\<rparr>]"
    "others p = {0, 1, 2, 4}"
    by (rule demo_run)
  from handshake_descriptors [OF demo_profile_start p(1)] p show ?thesis by (auto simp: live_def)
qed

theorem handshakes_are_isolated_witness:
  "\<exists>p. trace (step_of (profile_step (\<lambda>_. 0) demo_ser demo_host)) demo_process demo_actors p
    \<and> channel (open_files p 3)
        = snd (launch (\<lambda>_. 0) demo_ser demo_host \<lparr>rf_in = demo_phone, rf_out = fresh_sink\<rparr>)
    \<and> status_flags (open_files p 3) = 2 \<and> status_flags (open_files p 7) = 0x802"
proof -
  obtain p where p: "trace (step_of (profile_step (\<lambda>_. 0) demo_ser demo_host)) demo_process demo_actors p"
    "workers p = [\<lparr>fdCopy = 5, fileOf = 3, worker_at = W_Closed\<rparr>, \<lparr>fdCopy = 3, fileOf = 4, worker_at = W_Closed\<rparr>]"
    by (rule demo_run)
  have "channel (open_files demo_process 3) = \<lparr>rf_in = demo_phone, rf_out = fresh_sink\<rparr>"
    "and (status_flags (open_files demo_process 3)) (not O_NONBLOCK) = 2"
    "status_flags (open_files demo_process 7) = 0x802"
    by (simp_all add: demo_process_def O_NONBLOCK_def)
  with handshakes_are_isolated [OF demo_sizes demo_profile_start p(1)] p show ?thesis
    by (intro exI [of _ p]) auto
qed

end
