(* ===== verification/ControlSocket.thy ===== *)
theory ControlSocket
  imports Bluetooth
begin

text \<open>
  ControlSocketServer (controlSocket.cpp): the server behind /run/aawgd-control.sock.  A client
  is the script of what it sends and a sink for the answer; a command acts on the Bluetooth
  handler.  What the LIST command takes from outside the program is in a record: the host's
  files, the kernel release uname gives (None when it fails), the build constants, and what the
  output of the double read from /proc/uptime prints for a given line.
\<close>

named_theorems json_simps \<open>evaluation of the JSON output\<close>

section \<open>JSON strings\<close>

abbreviation NL :: char where "NL \<equiv> CHR 0x0A"
abbreviation CR :: char where "CR \<equiv> CHR 0x0D"
abbreviation TAB :: char where "TAB \<equiv> CHR 0x09"
abbreviation DQ :: char where "DQ \<equiv> CHR 0x22"
abbreviation BS :: char where "BS \<equiv> CHR 0x5C"

definition escape_char :: "char \<Rightarrow> string" where
  "escape_char c =
     (if c = BS then [BS, BS]
      else if c = DQ then [BS, DQ]
      else if c = NL then [BS, CHR ''n'']
      else if c = CR then [BS, CHR ''r'']
      else if c = TAB then [BS, CHR ''t'']
      else [c])"

definition jsonEscape :: "string \<Rightarrow> string" where
  "jsonEscape s = concat (map escape_char s)"

text \<open>
  A reader of JSON string literals, restricted to the escapes above: the content and what
  follows the closing quote.
\<close>

fun read_literal :: "string \<Rightarrow> (string \<times> string) option" where
  "read_literal [] = None"
| "read_literal (c # s) =
     (if c = DQ then Some ([], s)
      else if c = BS then
        (case s of [] \<Rightarrow> None
         | e # s' \<Rightarrow>
            (case (if e = BS \<or> e = DQ then Some e else if e = CHR ''n'' then Some NL
                   else if e = CHR ''r'' then Some CR else if e = CHR ''t'' then Some TAB else None)
             of None \<Rightarrow> None
              | Some d \<Rightarrow> map_option (\<lambda>(t, r). (d # t, r)) (read_literal s')))
      else map_option (\<lambda>(t, r). (c # t, r)) (read_literal s))"

lemma jsonEscape_Nil [json_simps]: "jsonEscape [] = []"
  and jsonEscape_Cons [json_simps]: "jsonEscape (c # s) = escape_char c @ jsonEscape s"
  by (simp_all add: jsonEscape_def)

text \<open>
  Escaping is undone by a reader, which stops at the quote the writer put: no value, whatever
  bytes a phone chose for its name, ends its string early or reads back as another value.
\<close>

lemma jsonEscape_roundtrip:
  "read_literal (jsonEscape s @ DQ # rest) = Some (s, rest)"
  by (induction s) (auto simp: json_simps escape_char_def)

definition is_control :: "char \<Rightarrow> bool" where
  "is_control c \<longleftrightarrow> (of_char c :: nat) < 32"

text \<open>
  JSON forbids control characters inside strings.  The escaped string is free of them
  exactly when the value holds no control character other than newline, carriage return and tab.
\<close>

lemma jsonEscape_control:
  "(\<forall>c \<in> set (jsonEscape s). \<not> is_control c) = (\<forall>c \<in> set s. is_control c \<longrightarrow> c \<in> {NL, CR, TAB})"
  by (induction s) (auto simp: json_simps escape_char_def is_control_def)

lemma jsonEscape_no_newline: "NL \<notin> set (jsonEscape s)"
  by (induction s) (auto simp: json_simps escape_char_def)

section \<open>Writing the answer\<close>

function writeAll :: "string \<Rightarrow> char sink \<Rightarrow> bool \<times> char sink" where
  "writeAll s w =
     (if s = [] then (True, w)
      else case sys_write s w of (k, w') \<Rightarrow>
        if k \<le> 0 then (False, w') else writeAll (drop (nat k) s) w')"
  by pat_completeness auto
termination
  by (relation "measure (\<lambda>(s, w). length s)") auto

declare writeAll.simps [simp del]

text \<open>
  writeAll, against a kernel that may cut any write short or fail it: what goes out is always
  a prefix of the answer, and the routine reports success exactly when it is the whole answer.
\<close>

lemma writeAll_prefix:
  "\<exists>pre. concat (wlog (snd (writeAll s w))) = concat (wlog w) @ pre \<and> take (length pre) s = pre
    \<and> (fst (writeAll s w) = (pre = s))"
proof (induction s w rule: writeAll.induct)
  case (1 s w)
  show ?case
  proof (cases "s = []")
    case True
    then show ?thesis by (simp add: writeAll.simps [of "[]"])
  next
    case False
    obtain k w' where k: "sys_write s w = (k, w')" by fastforce
    from sys_write_cases [OF k] consider (fail) "k = - 1" "wlog w' = wlog w"
      | (part) j where "k = int (length (take j s))" "wlog w' = wlog w @ [take j s]" by blast
    then show ?thesis
    proof cases
      case fail
      with False k show ?thesis by (simp add: writeAll.simps [of s w])
    next
      case (part j)
      show ?thesis
      proof (cases "k \<le> 0")
        case True
        then have "take j s = []" using part(1) by (metis length_0_conv of_nat_le_0_iff)
        with False k part True show ?thesis by (simp add: writeAll.simps [of s w])
      next
        case pos: False
        from "1.IH" [OF False k [symmetric] pos] obtain pre where
          pre: "concat (wlog (snd (writeAll (drop (nat k) s) w'))) = concat (wlog w') @ pre"
          "take (length pre) (drop (nat k) s) = pre"
          "fst (writeAll (drop (nat k) s) w') = (pre = drop (nat k) s)" by blast
        have kk: "take (nat k) s = take j s" "nat k = length (take j s)"
          using part(1) by (simp_all add: min_def)
        have "take (length (take j s @ pre)) s = take j s @ pre"
          using kk pre(2) by (metis length_append take_add)
        moreover have "(pre = drop (nat k) s) = (take j s @ pre = s)"
          using kk by (metis append_take_drop_id same_append_eq)
        ultimately show ?thesis using False k pos pre part(2)
          by (intro exI [of _ "take j s @ pre"]) (simp add: writeAll.simps [of s w])
      qed
    qed
  qed
qed

lemma writeAll_reliable:
  "wscript w = [] \<Longrightarrow> writeAll s w = (True, if s = [] then w else w\<lparr>wlog := wlog w @ [s]\<rparr>)"
  by (simp add: writeAll.simps [of s] writeAll.simps [of "[]"] sys_write_reliable)

section \<open>System information\<close>

record sysinfo =
  si_host :: host
  si_release :: "string option"
  si_build :: BuildInfo
  si_double :: "string \<Rightarrow> string"

definition getCmdlineTokenValue :: "host \<Rightarrow> string \<Rightarrow> string" where
  "getCmdlineTokenValue h k =
     (let prefix = k @ ''='' in
      case find (starts_with prefix) (stream_words (first_line_of h ''/proc/cmdline'')) of
        None \<Rightarrow> []
      | Some tok \<Rightarrow> drop (length prefix) tok)"

definition getUptimeSec :: "sysinfo \<Rightarrow> string" where
  "getUptimeSec si =
     (let up = first_line_of (si_host si) ''/proc/uptime''
      in if up = [] then ''0'' else si_double si up)"

definition getKernelRelease :: "sysinfo \<Rightarrow> string" where
  "getKernelRelease si = (case si_release si of None \<Rightarrow> [] | Some r \<Rightarrow> c_str r)"

definition slot_of :: "string \<Rightarrow> string" where
  "slot_of rootDev =
     (let slot = ''unknown'';
          slot = (if rootDev = ''/dev/mmcblk0p2'' then ''A'' else slot)
      in if rootDev = ''/dev/mmcblk0p3'' then ''B'' else slot)"

text \<open>A command line as the kernel has it: words, each followed by a blank.\<close>

definition cmdline_of :: "string list \<Rightarrow> string" where
  "cmdline_of ws = concat (map (\<lambda>w. w @ '' '') ws)"

lemma stream_words_cmdline:
  assumes "\<forall>w \<in> set ws. w \<noteq> [] \<and> (\<forall>c \<in> set w. \<not> isspace c)"
  shows "stream_words (cmdline_of ws) = ws"
  using assms
proof (induction ws)
  case Nil
  then show ?case by (simp add: cmdline_of_def stream_words.simps [of "[]"])
next
  case (Cons w ws)
  have sp: "isspace CHR 0x20" by (simp add: isspace_def)
  obtain c cs where w: "w = c # cs" "\<not> isspace c" using Cons.prems by (cases w) auto
  have c: "cmdline_of (w # ws) = w @ CHR 0x20 # cmdline_of ws" by (simp add: cmdline_of_def)
  have skip: "stream_words (CHR 0x20 # r) = stream_words r" for r
    by (simp add: stream_words.simps [of "CHR 0x20 # r"] stream_words.simps [of r] sp)
  have split: "dropWhile isspace (w @ CHR 0x20 # r) = w @ CHR 0x20 # r"
    "takeWhile (\<lambda>c. \<not> isspace c) (w @ CHR 0x20 # r) = w"
    "dropWhile (\<lambda>c. \<not> isspace c) (w @ CHR 0x20 # r) = CHR 0x20 # r" for r
    using Cons.prems w sp by (auto simp: takeWhile_append2 dropWhile_append2)
  have "stream_words (w @ CHR 0x20 # r) = w # stream_words (CHR 0x20 # r)" for r
    by (subst stream_words.simps) (simp only: Let_def split, simp)
  then have "stream_words (cmdline_of (w # ws)) = w # stream_words (cmdline_of ws)"
    by (simp only: c skip)
  with Cons show ?case by simp
qed

text \<open>
  The slot LIST reports is read off the root= parameter of the kernel's command line: the
  first word of the line that starts with root= decides, its value is slot A or B for the two
  partitions the images use, and unknown otherwise.
\<close>

lemma slot_from_cmdline:
  assumes "files h ''/proc/cmdline'' = Some (cmdline_of ws @ NL # rest)"
    and "\<forall>w \<in> set ws. w \<noteq> [] \<and> (\<forall>c \<in> set w. \<not> isspace c)"
    and "find (starts_with ''root='') ws = Some (''root='' @ dev)"
  shows "getCmdlineTokenValue h ''root'' = dev
    \<and> slot_of (getCmdlineTokenValue h ''root'')
        = (if dev = ''/dev/mmcblk0p2'' then ''A'' else if dev = ''/dev/mmcblk0p3'' then ''B'' else ''unknown'')"
proof -
  have "NL \<notin> set w" if "w \<in> set ws" for w
    using assms(2) that by (auto simp: isspace_def)
  then have "\<forall>c \<in> set (cmdline_of ws). c \<noteq> NL" by (auto simp: cmdline_of_def)
  then have "first_line_of h ''/proc/cmdline'' = cmdline_of ws"
    using assms(1) by (simp add: first_line_of_def getline_def takeWhile_append2)
  then have "getCmdlineTokenValue h ''root'' = dev"
    using assms(3) stream_words_cmdline [OF assms(2)] by (simp add: getCmdlineTokenValue_def)
  then show ?thesis by (simp add: slot_of_def)
qed

section \<open>Commands\<close>

definition device_json :: "BluetoothDeviceInfo \<Rightarrow> string" where
  \<open>device_json d =
     ''{''
     @ ''"objectPath":"'' @ jsonEscape (objectPath d) @ ''"''
     @ '',"address":"'' @ jsonEscape (address d) @ ''"''
     @ '',"name":"'' @ jsonEscape (name d) @ ''"''
     @ '',"paired":'' @ (if paired d then ''true'' else ''false'')
     @ '',"trusted":'' @ (if trusted d then ''true'' else ''false'')
     @ '',"connected":'' @ (if connected d then ''true'' else ''false'')
     @ ''}''\<close>

fun devices_json :: "BluetoothDeviceInfo list \<Rightarrow> string" where
  "devices_json [] = []"
| "devices_json [d] = device_json d"
| "devices_json (d # ds) = device_json d @ '','' @ devices_json ds"

definition list_json :: "sysinfo \<Rightarrow> BluetoothDeviceInfo list \<Rightarrow> string" where
  \<open>list_json si devices =
     (let rootDev = getCmdlineTokenValue (si_host si) ''root''; bi = si_build si
      in ''{''
         @ ''"ok":true''
         @ '',"uptimeSec":'' @ getUptimeSec si
         @ '',"rootDev":"'' @ jsonEscape rootDev @ ''"''
         @ '',"slot":"'' @ jsonEscape (slot_of rootDev) @ ''"''
         @ '',"kernelRelease":"'' @ jsonEscape (getKernelRelease si) @ ''"''
         @ '',"build":{''
         @ ''"version":"'' @ jsonEscape (version bi) @ ''"''
         @ '',"gitSha":"'' @ jsonEscape (gitSha bi) @ ''"''
         @ '',"buildTimeUtc":"'' @ jsonEscape (buildTimeUtc bi) @ ''"''
         @ ''}''
         @ '',"devices":['' @ devices_json devices @ '']}'' @ [NL])\<close>

definition ok_json :: "bool \<Rightarrow> string" where
  \<open>ok_json ok = ''{"ok":'' @ (if ok then ''true'' else ''false'') @ ''}'' @ [NL]\<close>

definition unknown_json :: string where
  \<open>unknown_json = ''{"ok":false,"error":"unknown command"}'' @ [NL]\<close>

definition handleCommand :: "'w bus \<Rightarrow> sysinfo \<Rightarrow> string \<Rightarrow> ('w, string) bt_eff" where
  "handleCommand bus si line =
     (if line = ''LIST'' then andthen (listDevices bus) (\<lambda>devices. ret (list_json si devices))
      else if line = ''DISCONNECT'' then andthen (disconnectAll bus) (\<lambda>_. ret (ok_json True))
      else if starts_with ''SWITCH '' line
        then andthen (switchToDevice bus (drop (length ''SWITCH '') line)) (\<lambda>ok. ret (ok_json ok))
      else ret unknown_json)"

section \<open>Serving a client\<close>

text \<open>The line read from a client: up to a newline, end of file, an error, or more than 4096 bytes.\<close>

function read_command :: "char rstream \<Rightarrow> string \<Rightarrow> string" where
  "read_command s line = (case sys_read 256 s of (r, bs, s') \<Rightarrow>
     if r \<le> 0 then line
     else let line = line @ bs in
       if NL \<in> set line then takeWhile (\<lambda>c. c \<noteq> NL) line
       else if length line > 4096 then line
       else read_command s' line)"
  by pat_completeness auto
termination
  by (relation "measure (\<lambda>(s, line). rsize s)") (auto intro: sys_read_rsize_less [OF sym])

declare read_command.simps [simp del]

definition trim_cr :: "string \<Rightarrow> string" where
  "trim_cr line = (if line \<noteq> [] \<and> last line = CR then butlast line else line)"

definition serve_client ::
    "'w bus \<Rightarrow> sysinfo \<Rightarrow> char rstream \<Rightarrow> char sink \<Rightarrow> ('w, char sink) bt_eff" where
  "serve_client bus si client_in client_out =
     andthen (handleCommand bus si (trim_cr (read_command client_in [])))
       (\<lambda>response. ret (snd (writeAll response client_out)))"

text \<open>
  run: the set-up of the server socket, and then one client after the other; None is a failed
  accept.  The result is the list of the clients' sinks, as far as the description goes.
\<close>

fun client_loop ::
    "'w bus \<Rightarrow> sysinfo \<Rightarrow> (char rstream \<times> char sink) option list \<Rightarrow> ('w, char sink list) bt_eff" where
  "client_loop bus si [] = ret []"
| "client_loop bus si (None # cs) = client_loop bus si cs"
| "client_loop bus si (Some (i, out) # cs) =
     andthen (serve_client bus si i out) (\<lambda>out'.
     andthen (client_loop bus si cs) (\<lambda>outs. ret (out' # outs)))"

record socket_setup =
  socket_ok :: bool
  bind_ok :: bool
  listen_ok :: bool

definition run_server ::
    "'w bus \<Rightarrow> sysinfo \<Rightarrow> socket_setup \<Rightarrow> (char rstream \<times> char sink) option list \<Rightarrow> ('w, char sink list) bt_eff" where
  "run_server bus si setup clients =
     (if \<not> socket_ok setup then ret []
      else if \<not> bind_ok setup then ret []
      else if \<not> listen_ok setup then ret []
      else client_loop bus si clients)"

section \<open>The request line\<close>

lemma read_command_line:
  assumes "line @ avail s = cmd @ NL # rest" "NL \<notin> set line" "NL \<notin> set cmd" "length cmd \<le> 4096"
  shows "read_command s line = cmd"
  using assms
proof (induction s line rule: read_command.induct)
  case (1 s line)
  have "avail s \<noteq> []" using "1.prems" by (auto simp: append_eq_Cons_conv append_eq_append_conv2)
  then obtain bs s' where rd: "sys_read 256 s = (int (length bs), bs, s')" "bs \<noteq> []"
    using sys_read_progress [of 256 s] by auto
  with sys_read_avail [OF rd(1)] have av: "avail s = bs @ avail s'" by simp
  let ?l = "line @ bs"
  have whole: "?l @ avail s' = cmd @ NL # rest" using "1.prems"(1) av by simp
  show ?case
  proof (cases "NL \<in> set ?l")
    case True
    have "takeWhile (\<lambda>c. c \<noteq> NL) (?l @ avail s') = cmd"
      unfolding whole using "1.prems"(3) by (subst takeWhile_append2) auto
    moreover have "takeWhile (\<lambda>c. c \<noteq> NL) (?l @ avail s') = takeWhile (\<lambda>c. c \<noteq> NL) ?l"
      using True by (subst takeWhile_append1 [of NL]) auto
    ultimately show ?thesis using rd True by (simp add: read_command.simps [of s line])
  next
    case False
    have "length ?l \<le> length cmd"
    proof (rule ccontr)
      assume "\<not> length ?l \<le> length cmd"
      then have "?l ! length cmd = (cmd @ NL # rest) ! length cmd"
        using whole by (metis not_le nth_append)
      then have "?l ! length cmd = NL" by simp
      with False \<open>\<not> length ?l \<le> length cmd\<close> show False by (metis not_le nth_mem)
    qed
    with rd False "1.IH" [OF rd(1) [symmetric] refl _ refl False] whole "1.prems"(3,4)
    show ?thesis by (auto simp: read_command.simps [of s line])
  qed
qed

text \<open>
  A request of at most 4096 bytes up to its newline is read as sent, whatever pieces it
  arrives in and whatever follows it.
\<close>

lemma request_line_read:
  assumes "avail s = cmd @ NL # rest" "NL \<notin> set cmd" "length cmd \<le> 4096"
  shows "read_command s [] = cmd"
  using assms by (intro read_command_line) auto

lemma read_command_length:
  assumes "length line \<le> 4096"
  shows "length (read_command s line) \<le> 4352"
  using assms
proof (induction s line rule: read_command.induct)
  case (1 s line)
  obtain r bs s' where rd: "sys_read 256 s = (r, bs, s')" by (metis prod_cases3)
  have "length bs \<le> 256" using sys_read_len [OF rd] by auto
  moreover have "length (takeWhile (\<lambda>c. c \<noteq> NL) (line @ bs)) \<le> length (line @ bs)"
    by (rule length_takeWhile_le)
  ultimately have le: "length (line @ bs) \<le> 4352"
    "length (takeWhile (\<lambda>c. c \<noteq> NL) (line @ bs)) \<le> 4352" using "1.prems" by auto
  show ?case
  proof (cases "r \<le> 0 \<or> NL \<in> set (line @ bs) \<or> length (line @ bs) > 4096")
    case True
    with rd le "1.prems" show ?thesis by (auto simp: read_command.simps [of s line] Let_def)
  next
    case False
    with rd "1.IH" [OF rd [symmetric] refl _ refl] show ?thesis
      by (simp add: read_command.simps [of s line] Let_def)
  qed
qed

text \<open>Whatever a client sends, the server never takes more than 4352 bytes of it as a command.\<close>

lemma request_line_bounded: "length (trim_cr (read_command s [])) \<le> 4352"
  using read_command_length [of "[]" s] by (auto simp: trim_cr_def)

section \<open>The answer\<close>

lemma devices_json_no_newline: "NL \<notin> set (devices_json ds)"
  by (induction ds rule: devices_json.induct) (auto simp: device_json_def jsonEscape_no_newline)

lemma handleCommand_one_line:
  assumes "\<And>l. NL \<notin> set (si_double si l)" "handleCommand bus si line b = (Inr resp, b')"
  shows "\<exists>body. resp = body @ [NL] \<and> NL \<notin> set body"
proof -
  have l: "\<exists>body. list_json si ds = body @ [NL] \<and> NL \<notin> set body" for ds
    using assms(1)
    by (auto simp: list_json_def Let_def getUptimeSec_def jsonEscape_no_newline devices_json_no_newline)
  have k: "\<exists>body. ok_json ok = body @ [NL] \<and> NL \<notin> set body" for ok
    by (auto simp: ok_json_def)
  have u: "\<exists>body. unknown_json = body @ [NL] \<and> NL \<notin> set body"
    by (auto simp: unknown_json_def)
  show ?thesis using assms(2) l k u
    by (auto simp: handleCommand_def andthen_def split: if_splits prod.splits sum.splits)
qed

text \<open>
  Every answer is one line: a newline at its end and none before, so a client that reads up
  to the first newline has the whole of it.
\<close>

lemma answer_is_one_line:
  assumes "\<And>l. NL \<notin> set (si_double si l)" "handleCommand bus si line b = (Inr resp, b')"
  shows "\<exists>body. resp = body @ [NL] \<and> NL \<notin> set body"
  using assms by (rule handleCommand_one_line)

lemma answer_not_empty: "handleCommand bus si line b = (Inr resp, b') \<Longrightarrow> resp \<noteq> []"
  by (auto simp: handleCommand_def andthen_def list_json_def ok_json_def unknown_json_def Let_def
      split: if_splits prod.splits sum.splits)

lemma serve_client_run:
  assumes "avail i = cmd @ eol @ NL # rest" "eol = [] \<or> eol = [CR]"
    "NL \<notin> set cmd" "length cmd < 4096" "cmd \<noteq> [] \<longrightarrow> last cmd \<noteq> CR"
    and "wscript out = []" "handleCommand bus si cmd b = (Inr resp, b')"
  shows "serve_client bus si i out b = (Inr (out\<lparr>wlog := wlog out @ [resp]\<rparr>), b')"
proof -
  have "read_command i [] = cmd @ eol"
    using assms(1-4) by (intro read_command_line [where rest = rest]) auto
  moreover have "trim_cr (cmd @ eol) = cmd" using assms(2,5) by (auto simp: trim_cr_def)
  moreover have "resp \<noteq> []" using assms(7) by (rule answer_not_empty)
  ultimately show ?thesis
    using assms(6,7) by (simp add: serve_client_def andthen_def writeAll_reliable)
qed

text \<open>
  C29. One exchange: a client that sends a command and a newline, or a carriage return and a
  newline, in any pieces, gets the whole answer of exactly that command, and the command's
  effect on the handler is the only one.
\<close>

theorem client_is_served:
  assumes "avail i = cmd @ eol @ NL # rest" "eol = [] \<or> eol = [CR]"
    "NL \<notin> set cmd" "length cmd < 4096" "cmd \<noteq> [] \<longrightarrow> last cmd \<noteq> CR"
    and "wscript out = []" "handleCommand bus si cmd b = (Inr resp, b')"
  shows "serve_client bus si i out b = (Inr (out\<lparr>wlog := wlog out @ [resp]\<rparr>), b')"
  using assms by (rule serve_client_run)

text \<open>
  DISCONNECT stops the retry thread, forgets the preferred device and connects nothing: the
  only calls it makes list the devices, ask which of them are connected, and disconnect those.
\<close>

lemma disconnect_command:
  assumes "m_connection b" "connectWithRetryPromise b \<noteq> Some True"
    and "handleCommand bus si ''DISCONNECT'' b = (r, b')"
  shows "\<exists>cs. calls b' = calls b @ cs \<and> connected_devices cs = []
    \<and> m_preferredDeviceObjectPath b' = None \<and> m_adapter b' = m_adapter b
    \<and> connectWithRetryPromise b' = map_option (\<lambda>_. True) (connectWithRetryPromise b)
    \<and> (r = Inr (ok_json True) \<or> r = Inl DBus_Error)"
proof -
  let ?b = "(stopped b)\<lparr>m_preferredDeviceObjectPath := None\<rparr>"
  obtain x b1 cs where d: "disconnectAllConnectedDevices bus ?b = (x, b1)" "bt_frame ?b cs b1"
    "connected_devices cs = []" using disconnectAllConnectedDevices_any by blast
  have x: "x = Inr () \<or> x = Inl DBus_Error"
    using d(1) disconnectAllConnectedDevices_result [of bus ?b] by auto
  have "disconnectAll bus b = (x, b1)"
    using assms(1,2) d(1) by (simp add: disconnectAll_def stopConnectWithRetry_result)
  then have "r = (case x of Inl e \<Rightarrow> Inl e | Inr _ \<Rightarrow> Inr (ok_json True))" "b' = b1"
    using assms(3) by (auto simp: handleCommand_def andthen_def split: sum.splits)
  with x d(3) bt_frameD [OF d(2)] show ?thesis by auto
qed

section \<open>Concrete runs\<close>

definition demo_sysinfo :: sysinfo where
  "demo_sysinfo = \<lparr>si_host = demo_host, si_release = Some ''6.1.0'',
     si_build = getBuildInfo ''1.0'' ''abc'' ''now'', si_double = (\<lambda>l. ''1'')\<rparr>"

definition demo_client :: "char rstream" where
  "demo_client = [Data ''ST'', Data (''OP'' @ [CR]), Data (NL # ''x'')]"

lemma demo_client_avail: "avail demo_client = ''STOP'' @ [CR] @ NL # ''x''"
  by (simp add: demo_client_def)

lemma slot_from_cmdline_witness:
  "getCmdlineTokenValue \<lparr>environ = \<lambda>_. None,
      files = [''/proc/cmdline'' \<mapsto> cmdline_of [''quiet'', ''root=/dev/mmcblk0p3'', ''root=x''] @ NL # []],
      ifaddrs = None\<rparr> ''root'' = ''/dev/mmcblk0p3''"
  using slot_from_cmdline [of "\<lparr>environ = \<lambda>_. None,
      files = [''/proc/cmdline'' \<mapsto> cmdline_of [''quiet'', ''root=/dev/mmcblk0p3'', ''root=x''] @ NL # []],
      ifaddrs = None\<rparr>" "[''quiet'', ''root=/dev/mmcblk0p3'', ''root=x'']" "[]" "''/dev/mmcblk0p3''"]
  by (simp add: isspace_def)

lemma request_line_read_witness: "read_command demo_client [] = ''STOP'' @ [CR]"
  using request_line_read [of demo_client "''STOP'' @ [CR]" "''x''"] demo_client_avail by simp

lemma answer_is_one_line_witness:
  "\<exists>body. unknown_json = body @ [NL] \<and> NL \<notin> set body"
  using answer_is_one_line [of demo_sysinfo demo_bus "''STOP''" demo_bt unknown_json demo_bt]
  by (simp add: demo_sysinfo_def handleCommand_def)

theorem client_is_served_witness:
  "serve_client demo_bus demo_sysinfo demo_client fresh_sink demo_bt
    = (Inr (fresh_sink\<lparr>wlog := [unknown_json]\<rparr>), demo_bt)"
  using client_is_served [of demo_client "''STOP''" "[CR]" "''x''" fresh_sink demo_bus demo_sysinfo
      demo_bt unknown_json demo_bt] demo_client_avail
  by (simp add: handleCommand_def)

lemma disconnect_command_witness:
  "\<exists>cs. calls (snd (handleCommand demo_bus demo_sysinfo ''DISCONNECT'' demo_bt)) = calls demo_bt @ cs
    \<and> connected_devices cs = []"
proof -
  have "connectWithRetryPromise demo_bt \<noteq> Some True" by simp
  from disconnect_command [OF demo_bt_sel(4) this, of demo_bus demo_sysinfo] show ?thesis
    by (metis prod.collapse)
qed

end
