(* ===== verification/Json.thy ===== *)
theory Json
  imports ControlSocket
begin

text \<open>
  The answers of the control socket as JSON (RFC 8259): a datatype of JSON values, a printer and
  a strict reader for them, the proof that the reader undoes the printer, and the identification
  of what the server streams out piece by piece with the printed form of one JSON object.
\<close>

section \<open>Values and texts\<close>

datatype json =
    JStr string
  | JNum string
  | JBool bool
  | JArr "json list"
  | JObj "(string \<times> json) list"

fun commas :: "string list \<Rightarrow> string" where
  "commas [] = []"
| "commas [x] = x"
| "commas (x # y # zs) = x @ CHR '','' # commas (y # zs)"

fun show_json :: "json \<Rightarrow> string" where
  "show_json (JStr s) = DQ # jsonEscape s @ [DQ]"
| "show_json (JNum t) = t"
| "show_json (JBool b) = (if b then ''true'' else ''false'')"
| "show_json (JArr vs) = CHR ''['' # commas (map show_json vs) @ '']''"
| "show_json (JObj ms) =
     CHR ''{'' # commas (map (\<lambda>(k, v). DQ # jsonEscape k @ DQ # CHR '':'' # show_json v) ms) @ ''}''"

section \<open>A strict reader\<close>

text \<open>The number grammar: sign, integer part without leading zeros, fraction, exponent.\<close>

definition digits1 :: "string \<Rightarrow> bool" where
  "digits1 s \<longleftrightarrow> s \<noteq> [] \<and> list_all isdigit s"

definition exponent_ok :: "string \<Rightarrow> bool" where
  "exponent_ok s \<longleftrightarrow> s = [] \<or> hd s \<in> {CHR ''e'', CHR ''E''}
     \<and> digits1 (if tl s \<noteq> [] \<and> hd (tl s) \<in> {CHR ''+'', CHR ''-''} then tl (tl s) else tl s)"

definition json_number :: "string \<Rightarrow> bool" where
  "json_number s =
     (let s = (if s \<noteq> [] \<and> hd s = CHR ''-'' then tl s else s);
          i = takeWhile isdigit s; r = dropWhile isdigit s
      in i \<noteq> [] \<and> (hd i = CHR ''0'' \<longrightarrow> i = ''0'') \<and>
         (if r \<noteq> [] \<and> hd r = CHR ''.''
          then takeWhile isdigit (tl r) \<noteq> [] \<and> exponent_ok (dropWhile isdigit (tl r))
          else exponent_ok r))"

definition number_char :: "char \<Rightarrow> bool" where
  "number_char c \<longleftrightarrow> isdigit c \<or> c \<in> {CHR ''-'', CHR ''+'', CHR ''.'', CHR ''e'', CHR ''E''}"

text \<open>A string literal without raw control characters.\<close>

definition strict_literal :: "string \<Rightarrow> (string \<times> string) option" where
  "strict_literal s = (case read_literal s of None \<Rightarrow> None
     | Some (t, r) \<Rightarrow> if list_all (\<lambda>c. \<not> is_control c) (take (length s - length r) s)
                      then Some (t, r) else None)"

fun expect :: "char \<Rightarrow> string \<Rightarrow> string option" where
  "expect c [] = None"
| "expect c (d # s) = (if d = c then Some s else None)"

text \<open>The first argument bounds the depth of the calls; the length of the text is enough.\<close>

fun read_json :: "nat \<Rightarrow> string \<Rightarrow> (json \<times> string) option"
  and read_elements :: "nat \<Rightarrow> string \<Rightarrow> (json list \<times> string) option"
  and read_members :: "nat \<Rightarrow> string \<Rightarrow> ((string \<times> json) list \<times> string) option" where
  "read_json 0 s = None"
| "read_json (Suc n) [] = None"
| "read_json (Suc n) (c # s) =
     (if c = DQ then map_option (map_prod JStr id) (strict_literal s)
      else if c = CHR ''['' then
        (if s \<noteq> [] \<and> hd s = CHR '']'' then Some (JArr [], tl s)
         else map_option (map_prod JArr id) (read_elements n s))
      else if c = CHR ''{'' then
        (if s \<noteq> [] \<and> hd s = CHR ''}'' then Some (JObj [], tl s)
         else map_option (map_prod JObj id) (read_members n s))
      else if starts_with ''true'' (c # s) then Some (JBool True, drop 4 (c # s))
      else if starts_with ''false'' (c # s) then Some (JBool False, drop 5 (c # s))
      else if json_number (takeWhile number_char (c # s))
        then Some (JNum (takeWhile number_char (c # s)), dropWhile number_char (c # s))
      else None)"
| "read_elements 0 s = None"
| "read_elements (Suc n) s =
     (case read_json n s of None \<Rightarrow> None
      | Some (v, r) \<Rightarrow>
          if r \<noteq> [] \<and> hd r = CHR '','' then map_option (map_prod ((#) v) id) (read_elements n (tl r))
          else map_option (\<lambda>r. ([v], r)) (expect (CHR '']'') r))"
| "read_members 0 s = None"
| "read_members (Suc n) s =
     (case expect DQ s of None \<Rightarrow> None | Some s \<Rightarrow>
      case strict_literal s of None \<Rightarrow> None | Some (k, s) \<Rightarrow>
      case expect (CHR '':'') s of None \<Rightarrow> None | Some s \<Rightarrow>
      case read_json n s of None \<Rightarrow> None
      | Some (v, r) \<Rightarrow>
          if r \<noteq> [] \<and> hd r = CHR '','' then map_option (map_prod ((#) (k, v)) id) (read_members n (tl r))
          else map_option (\<lambda>r. ([(k, v)], r)) (expect (CHR ''}'') r))"

definition parse_json :: "string \<Rightarrow> json option" where
  "parse_json s = (case read_json (length s) s of
      Some (v, r) \<Rightarrow> if list_all isspace r then Some v else None
    | None \<Rightarrow> None)"

section \<open>Reading what was printed\<close>

text \<open>Strings a JSON text can hold under the server's escaping, and values made of them.\<close>

definition printable :: "string \<Rightarrow> bool" where
  "printable s \<longleftrightarrow> (\<forall>c \<in> set s. is_control c \<longrightarrow> c \<in> {NL, CR, TAB})"

fun wf_json :: "json \<Rightarrow> bool" where
  "wf_json (JStr s) = printable s"
| "wf_json (JNum t) = (json_number t \<and> list_all number_char t)"
| "wf_json (JBool b) = True"
| "wf_json (JArr vs) = list_all wf_json vs"
| "wf_json (JObj ms) = list_all (\<lambda>(k, v). printable k \<and> wf_json v) ms"

lemma read_escaped: "read_literal (jsonEscape s @ DQ # rest) = Some (s, rest)"
  by (induction s) (auto simp: json_simps escape_char_def)

lemma strict_escaped:
  assumes "printable s"
  shows "strict_literal (jsonEscape s @ DQ # rest) = Some (s, rest)"
proof -
  have "list_all (\<lambda>c. \<not> is_control c) (jsonEscape s)"
    using assms jsonEscape_control [of s] by (simp add: printable_def list_all_iff)
  moreover have "\<not> is_control DQ" by (simp add: is_control_def)
  ultimately show ?thesis by (simp add: strict_literal_def read_escaped)
qed

text \<open>A text that a number in front of it does not run into.\<close>

definition delimited :: "string \<Rightarrow> bool" where
  "delimited r \<longleftrightarrow> r = [] \<or> \<not> number_char (hd r)"

lemma delimited_simps [simp]:
  "delimited []" "delimited (CHR '','' # r)" "delimited (CHR '']'' # r)" "delimited (CHR ''}'' # r)"
  "delimited (NL # r)"
  by (simp_all add: delimited_def number_char_def isdigit_def)

lemma json_number_head: "json_number t \<Longrightarrow> \<exists>c u. t = c # u \<and> (isdigit c \<or> c = CHR ''-'')"
  by (cases t) (auto simp: json_number_def Let_def split: if_splits)

lemma show_json_head:
  "wf_json v \<Longrightarrow> \<exists>c u. show_json v = c # u \<and> c \<noteq> CHR '']'' \<and> c \<noteq> CHR ''}''"
  by (cases v) (auto simp: isdigit_def dest!: json_number_head)

lemma read_number:
  assumes "json_number t" "list_all number_char t" "delimited r" "n \<noteq> 0"
  shows "read_json n (t @ r) = Some (JNum t, r)"
proof -
  obtain c u where t: "t = c # u" "isdigit c \<or> c = CHR ''-''" using json_number_head [OF assms(1)] by blast
  have c: "c \<noteq> DQ" "c \<noteq> CHR ''[''" "c \<noteq> CHR ''{''" "c \<noteq> CHR ''t''" "c \<noteq> CHR ''f''"
    using t(2) by (auto simp: isdigit_def)
  have tw: "takeWhile number_char (t @ r) = t" "dropWhile number_char (t @ r) = r"
    using assms(2,3) by (auto simp: takeWhile_append2 dropWhile_append2 list_all_iff delimited_def
        takeWhile_eq_Nil_iff split: if_splits) (cases r; auto)+
  from assms(4) obtain m where n: "n = Suc m" by (cases n) auto
  show ?thesis using c tw assms(1) unfolding n t(1) by (simp add: starts_with_def)
qed

lemma read_elements_show:
  assumes "\<And>v n r. v \<in> set vs \<Longrightarrow> delimited r \<Longrightarrow> length (show_json v) \<le> n
      \<Longrightarrow> read_json n (show_json v @ r) = Some (v, r)"
    and "vs \<noteq> []" "length (commas (map show_json vs)) < n"
  shows "read_elements n (commas (map show_json vs) @ CHR '']'' # r) = Some (vs, r)"
  using assms
proof (induction vs arbitrary: n)
  case (Cons v vs)
  from Cons.prems(3) obtain m where n: "n = Suc m" by (cases n) auto
  show ?case
  proof (cases vs)
    case Nil
    have "read_json m (show_json v @ CHR '']'' # r) = Some (v, CHR '']'' # r)"
      using Cons.prems(1) [of v "CHR '']'' # r" m] Cons.prems(3) n Nil by simp
    then show ?thesis by (simp add: n Nil)
  next
    case (Cons w ws)
    let ?rest = "commas (map show_json vs) @ CHR '']'' # r"
    have "read_json m (show_json v @ CHR '','' # ?rest) = Some (v, CHR '','' # ?rest)"
      using Cons.prems(1) [of v "CHR '','' # ?rest" m] Cons.prems(3) n Cons by simp
    moreover have "read_elements m ?rest = Some (vs, r)"
      using Cons.IH [of m] Cons.prems(1,3) n Cons by simp
    ultimately show ?thesis by (simp add: n Cons)
  qed
qed simp

abbreviation show_member :: "string \<times> json \<Rightarrow> string" where
  "show_member \<equiv> \<lambda>(k, v). DQ # jsonEscape k @ DQ # CHR '':'' # show_json v"

lemma read_members_show:
  assumes "\<And>k v n r. (k, v) \<in> set ms \<Longrightarrow> delimited r \<Longrightarrow> length (show_json v) \<le> n
      \<Longrightarrow> read_json n (show_json v @ r) = Some (v, r)"
    and "ms \<noteq> []" "length (commas (map show_member ms)) < n" "\<And>k v. (k, v) \<in> set ms \<Longrightarrow> printable k"
  shows "read_members n (commas (map show_member ms) @ CHR ''}'' # r) = Some (ms, r)"
  using assms
proof (induction ms arbitrary: n)
  case (Cons kv ms)
  obtain k v where kv: "kv = (k, v)" by (cases kv)
  from Cons.prems(3) obtain m where n: "n = Suc m" by (cases n) auto
  have k: "strict_literal (jsonEscape k @ DQ # t) = Some (k, t)" for t
    using Cons.prems(4) kv by (intro strict_escaped) auto
  show ?case
  proof (cases ms)
    case Nil
    have "read_json m (show_json v @ CHR ''}'' # r) = Some (v, CHR ''}'' # r)"
      using Cons.prems(1) [of k v "CHR ''}'' # r" m] Cons.prems(3) n Nil kv by simp
    then show ?thesis by (simp add: n Nil kv k)
  next
    case (Cons w ws)
    let ?rest = "commas (map show_member ms) @ CHR ''}'' # r"
    have "read_json m (show_json v @ CHR '','' # ?rest) = Some (v, CHR '','' # ?rest)"
      using Cons.prems(1) [of k v "CHR '','' # ?rest" m] Cons.prems(3) n Cons kv by simp
    moreover have "read_members m ?rest = Some (ms, r)"
    proof (rule Cons.IH)
      show "read_json n' (show_json v' @ r') = Some (v', r')"
        if "(k', v') \<in> set ms" "delimited r'" "length (show_json v') \<le> n'" for k' v' n' r'
        using that Cons.prems(1) [of k' v' r' n'] by simp
      show "length (commas (map show_member ms)) < m" using Cons.prems(3) n Cons by simp
      show "printable k'" if "(k', v') \<in> set ms" for k' v' using that Cons.prems(4) [of k' v'] by simp
    qed (simp add: Cons)
    ultimately show ?thesis by (simp add: n Cons kv k)
  qed
qed simp

lemma read_show:
  assumes "wf_json v" "delimited r" "length (show_json v) \<le> n"
  shows "read_json n (show_json v @ r) = Some (v, r)"
  using assms
proof (induction v arbitrary: n r)
  case (JStr s)
  then show ?case by (cases n) (simp_all add: strict_escaped)
next
  case (JNum t)
  then have "n \<noteq> 0" using json_number_head [of t] by auto
  with JNum show ?case by (simp add: read_number)
next
  case (JBool b)
  then show ?case by (cases n; cases b) (simp_all add: starts_with_def)
next
  case (JArr vs)
  from JArr.prems(3) obtain m where n: "n = Suc m" by (cases n) auto
  show ?case
  proof (cases "vs = []")
    case True
    then show ?thesis by (simp add: n)
  next
    case False
    then obtain v ws where vs: "vs = v # ws" by (cases vs) auto
    have "\<exists>c u. commas (map show_json vs) = c # u \<and> c \<noteq> CHR '']''"
      using JArr.prems(1) show_json_head [of v] by (cases ws) (auto simp: vs)
    moreover have "read_elements m (commas (map show_json vs) @ CHR '']'' # r) = Some (vs, r)"
      using JArr n False by (intro read_elements_show) (auto simp: list_all_iff)
    ultimately show ?thesis by (auto simp: n)
  qed
next
  case (JObj ms)
  from JObj.prems(3) obtain m where n: "n = Suc m" by (cases n) auto
  show ?case
  proof (cases "ms = []")
    case True
    then show ?thesis by (simp add: n)
  next
    case False
    then obtain k v ws where ms: "ms = (k, v) # ws" by (cases ms) auto
    have "\<exists>u. commas (map show_member ms) = DQ # u" by (cases ws) (auto simp: ms)
    moreover have "read_members m (commas (map show_member ms) @ CHR ''}'' # r) = Some (ms, r)"
      using JObj n False by (intro read_members_show) (auto simp: list_all_iff)
    ultimately show ?thesis by (auto simp: n)
  qed
qed

lemma parse_show: "wf_json v \<Longrightarrow> parse_json (show_json v @ [NL]) = Some v"
  by (simp add: parse_json_def read_show isspace_def)

section \<open>The answers of the server\<close>

definition device_tree :: "BluetoothDeviceInfo \<Rightarrow> json" where
  "device_tree d = JObj
     [(''objectPath'', JStr (objectPath d)), (''address'', JStr (address d)), (''name'', JStr (name d)),
      (''paired'', JBool (paired d)), (''trusted'', JBool (trusted d)), (''connected'', JBool (connected d))]"

definition list_tree :: "sysinfo \<Rightarrow> BluetoothDeviceInfo list \<Rightarrow> json" where
  "list_tree si ds =
     (let rootDev = getCmdlineTokenValue (si_host si) ''root''; bi = si_build si
      in JObj
       [(''ok'', JBool True), (''uptimeSec'', JNum (getUptimeSec si)), (''rootDev'', JStr rootDev),
        (''slot'', JStr (slot_of rootDev)), (''kernelRelease'', JStr (getKernelRelease si)),
        (''build'', JObj [(''version'', JStr (version bi)), (''gitSha'', JStr (gitSha bi)),
                          (''buildTimeUtc'', JStr (buildTimeUtc bi))]),
        (''devices'', JArr (map device_tree ds))])"

lemma escape_plain: "c \<notin> {BS, DQ, NL, CR, TAB} \<Longrightarrow> escape_char c = [c]"
  by (simp add: escape_char_def)

lemma device_json_show: "device_json d = show_json (device_tree d)"
  by (simp add: device_json_def device_tree_def json_simps escape_plain)

lemma devices_json_show: "devices_json ds = commas (map show_json (map device_tree ds))"
  by (induction ds rule: devices_json.induct) (simp_all add: device_json_show)

lemma list_json_show: "list_json si ds = show_json (list_tree si ds) @ [NL]"
  by (simp add: list_json_def list_tree_def Let_def devices_json_show json_simps escape_plain o_def)

lemma digits_number: "\<forall>c \<in> set (takeWhile isdigit s). number_char c"
  by (auto dest: set_takeWhileD simp: number_char_def)

lemma exponent_chars: "exponent_ok s \<Longrightarrow> \<forall>c \<in> set s. number_char c"
  by (cases s; cases "tl s")
     (auto simp: exponent_ok_def digits1_def number_char_def list_all_iff split: if_splits)

lemma json_number_chars:
  assumes "json_number t" shows "list_all number_char t"
proof -
  define s where "s = (if t \<noteq> [] \<and> hd t = CHR ''-'' then tl t else t)"
  define r where "r = dropWhile isdigit s"
  have s: "set s = set (takeWhile isdigit s) \<union> set r"
    by (metis r_def set_append takeWhile_dropWhile_id)
  have e: "if r \<noteq> [] \<and> hd r = CHR ''.''
          then takeWhile isdigit (tl r) \<noteq> [] \<and> exponent_ok (dropWhile isdigit (tl r))
          else exponent_ok r"
    using assms unfolding json_number_def Let_def s_def [symmetric] r_def [symmetric] by blast
  have r: "\<forall>c \<in> set r. number_char c"
  proof (cases "r \<noteq> [] \<and> hd r = CHR ''.''")
    case True
    then obtain u where u: "r = CHR ''.'' # u" by (cases r) auto
    have "exponent_ok (dropWhile isdigit u)"
      using e True by (simp add: u)
    from exponent_chars [OF this] digits_number [of u] have "\<forall>c \<in> set u. number_char c"
      by (metis Un_iff set_append takeWhile_dropWhile_id)
    then show ?thesis by (simp add: u number_char_def)
  next
    case False
    with e have "exponent_ok r" by simp
    then show ?thesis by (rule exponent_chars)
  qed
  have "\<forall>c \<in> set t. number_char c"
    using s r digits_number [of s] by (cases t) (auto simp: s_def number_char_def split: if_splits)
  then show ?thesis by (simp add: list_all_iff)
qed

text \<open>What the names, paths and version strings of an answer must not contain.\<close>

definition printable_device :: "BluetoothDeviceInfo \<Rightarrow> bool" where
  "printable_device d \<longleftrightarrow> printable (objectPath d) \<and> printable (address d) \<and> printable (name d)"

definition printable_system :: "sysinfo \<Rightarrow> bool" where
  "printable_system si \<longleftrightarrow> json_number (getUptimeSec si)
     \<and> printable (getCmdlineTokenValue (si_host si) ''root'') \<and> printable (getKernelRelease si)
     \<and> printable (version (si_build si)) \<and> printable (gitSha (si_build si))
     \<and> printable (buildTimeUtc (si_build si))"

lemma wf_device_tree: "printable_device d \<Longrightarrow> wf_json (device_tree d)"
  by (simp add: device_tree_def printable_device_def) (simp add: printable_def is_control_def)

lemma wf_list_tree:
  assumes "printable_system si" "\<forall>d \<in> set ds. printable_device d"
  shows "wf_json (list_tree si ds)"
proof -
  have slot: "printable (slot_of r)" for r by (simp add: slot_of_def Let_def printable_def is_control_def)
  have up: "\<forall>c \<in> set (getUptimeSec si). number_char c"
    using json_number_chars [of "getUptimeSec si"] assms(1) unfolding printable_system_def list_all_iff by blast
  have keys: "printable ''ok''" "printable ''uptimeSec''" "printable ''rootDev''" "printable ''slot''"
    "printable ''kernelRelease''" "printable ''build''" "printable ''devices''" "printable ''version''"
    "printable ''gitSha''" "printable ''buildTimeUtc''"
    by (simp_all add: printable_def is_control_def)
  show ?thesis using assms slot keys up
    by (simp add: list_tree_def Let_def printable_system_def list_all_iff wf_device_tree
)
qed

text \<open>
  C30. The answers are JSON.  A strict reader takes every answer of the control socket whole: the
  LIST answer is one object with the members the code names, in their order, whose devices are
  exactly the listed ones, field by field, whatever characters other than raw control characters
  the names contain; the other answers are objects with ok and, when unknown, an error.
\<close>

theorem answers_are_json:
  assumes "listDevices bus b = (Inr ds, b')" "printable_system si" "\<forall>d \<in> set ds. printable_device d"
  shows "\<exists>resp. handleCommand bus si ''LIST'' b = (Inr resp, b') \<and> parse_json resp = Some (list_tree si ds)
    \<and> parse_json (ok_json ok) = Some (JObj [(''ok'', JBool ok)])
    \<and> parse_json unknown_json = Some (JObj [(''ok'', JBool False), (''error'', JStr ''unknown command'')])"
proof -
  have ok: "ok_json ok = show_json (JObj [(''ok'', JBool ok)]) @ [NL]"
    "unknown_json = show_json (JObj [(''ok'', JBool False), (''error'', JStr ''unknown command'')]) @ [NL]"
    by (simp_all add: ok_json_def unknown_json_def json_simps escape_plain)
  have "wf_json (JObj [(''ok'', JBool ok)])"
    "wf_json (JObj [(''ok'', JBool False), (''error'', JStr ''unknown command'')])"
    by (simp_all add: printable_def is_control_def)
  note ok_parsed = this [THEN parse_show]
  have "handleCommand bus si ''LIST'' b = (Inr (list_json si ds), b')"
    using assms(1) by (simp add: handleCommand_def andthen_def)
  with parse_show [OF wf_list_tree [OF assms(2,3)]] ok_parsed show ?thesis by (simp only: list_json_show ok) blast
qed

text \<open>The demonstration bus, whose devices have plain names, and a host with an uptime.\<close>

theorem answers_are_json_witness:
  "\<exists>resp ds b'. handleCommand demo_bus demo_sysinfo ''LIST'' demo_bt = (Inr resp, b')
    \<and> parse_json resp = Some (list_tree demo_sysinfo ds)"
proof -
  have "\<exists>ds b'. listDevices demo_bus demo_bt = (Inr ds, b') \<and> (\<forall>d \<in> set ds. printable_device d)"
    by (cases "device_less
         \<lparr>objectPath = ''d2'', address = ''00:d2'', name = ''Phone d2'', paired = True, trusted = False, connected = False\<rparr>
         \<lparr>objectPath = ''d1'', address = ''00:d1'', name = ''Phone d1'', paired = True, trusted = False, connected = False\<rparr>")
       (simp_all add: listDevices_def getBluezObjects_def demo_objects_def demo_bt_def dbus_objects_def dbus_typed_def
        dbus_def andthen_def ret_def is_device_def INTERFACE_BLUEZ_DEVICE_def INTERFACE_BLUEZ_ADAPTER_def
        read_device_info_def read_into_def dbus_string_def dbus_bool_def throw_def
        printable_device_def printable_def is_control_def)
  then obtain ds b' where l: "listDevices demo_bus demo_bt = (Inr ds, b')" "\<forall>d \<in> set ds. printable_device d"
    by blast
  have "printable_system demo_sysinfo"
    by (simp add: printable_system_def demo_sysinfo_def demo_host_def getUptimeSec_def first_line_of_def
        getline_def getCmdlineTokenValue_def getKernelRelease_def getBuildInfo_def c_str_def Let_def
        stream_words.simps [of "[]"] json_number_def isdigit_def exponent_ok_def printable_def is_control_def)
  from answers_are_json [OF l(1) this l(2)] show ?thesis by blast
qed

end
