(* ===== verification/Mqtt.thy ===== *)
theory Mqtt
  imports ControlSocket
begin

text \<open>
  The MQTT bridge (mqttBridge.cpp), a process of its own that turns MQTT messages into requests
  to the control socket or runs of the update helper, and publishes the LIST answer.  The
  mosquitto library is not part of the program: the calls made to it are recorded, and its
  answers are parameters.  A connection to the control socket is the result of socket and
  connect, the script of the answer and the sink of the request.
\<close>

named_theorems mqtt_simps \<open>evaluation of the bridge\<close>

section \<open>Environment\<close>

definition getenvStr :: "host \<Rightarrow> string \<Rightarrow> string \<Rightarrow> string" where
  "getenvStr h nm def = (case environ h nm of None \<Rightarrow> def | Some v \<Rightarrow> if v \<noteq> [] then v else def)"

definition getenvInt :: "host \<Rightarrow> string \<Rightarrow> int \<Rightarrow> int" where
  "getenvInt h nm def = (case environ h nm of
      None \<Rightarrow> def
    | Some v \<Rightarrow> if v = [] then def else (case stoi v of None \<Rightarrow> def | Some i \<Rightarrow> i))"

section \<open>Requests to the control socket\<close>

record unix_peer =
  up_socket :: bool
  up_connect :: bool
  up_in :: "char rstream"
  up_out :: "char sink"

function read_reply :: "char rstream \<Rightarrow> string \<Rightarrow> string" where
  "read_reply s out = (case sys_read 1024 s of (r, bs, s') \<Rightarrow>
     if r \<le> 0 then out
     else let out = out @ bs in
       if NL \<in> set out then out
       else if length out > 64 * 1024 then out
       else read_reply s' out)"
  by pat_completeness auto
termination
  by (relation "measure (\<lambda>(s, out). rsize s)") (auto intro: sys_read_rsize_less [OF sym])

declare read_reply.simps [simp del]

text \<open>The result, the out parameter after the call, and the sink of the connection.\<close>

definition unixSockRequest :: "unix_peer \<Rightarrow> string \<Rightarrow> string \<Rightarrow> bool \<times> string \<times> char sink" where
  "unixSockRequest peer line out =
     (if \<not> up_socket peer then (False, out, up_out peer)
      else if \<not> up_connect peer then (False, out, up_out peer)
      else let req = (if line = [] \<or> last line \<noteq> NL then line @ [NL] else line) in
        case sys_write req (up_out peer) of (w, sink) \<Rightarrow>
          if w < 0 then (False, out, sink)
          else let out = read_reply (up_in peer) [] in (out \<noteq> [], out, sink))"

section \<open>The callbacks\<close>

record AppCtx =
  topicPrefix :: string
  topicCmd :: string
  topicStatus :: string
  statusIntervalSec :: int

datatype mqtt_call =
    Lib_init
  | New string
  | Username_pw_set string "string option"
  | Connect_to string int int
  | Loop_start
  | Subscribe string
  | Publish string string
  | Destroy
  | Lib_cleanup

definition onConnect :: "AppCtx \<Rightarrow> int \<Rightarrow> mqtt_call list" where
  "onConnect ctx rc = (if rc \<noteq> 0 then [] else [Subscribe (topicCmd ctx)])"

definition unavailable_json :: string where
  \<open>unavailable_json = ''{"ok":false,"error":"control socket unavailable"}'' @ [NL]\<close>

definition publishStatus :: "AppCtx \<Rightarrow> unix_peer \<Rightarrow> mqtt_call list" where
  "publishStatus ctx peer =
     (case unixSockRequest peer ''LIST'' [] of (ok, listResp, _) \<Rightarrow>
        if \<not> ok then [Publish (topicStatus ctx) unavailable_json]
        else [Publish (topicStatus ctx) listResp])"

definition rstrip_newlines :: "string \<Rightarrow> string" where
  "rstrip_newlines s = rev (dropWhile (\<lambda>c. c = NL \<or> c = CR) (rev s))"

definition lstrip_blanks :: "string \<Rightarrow> string" where
  "lstrip_blanks s = dropWhile (\<lambda>c. c = CHR '' '' \<or> c = TAB) s"

text \<open>The value of a quoted key: the text up to the next quote behind the colon; not empty.\<close>

definition quoted_value :: "string \<Rightarrow> string \<Rightarrow> string option" where
  "quoted_value k s =
     (case find_sub (DQ # k @ [DQ]) s of None \<Rightarrow> None
      | Some pos \<Rightarrow>
     (case find_from '':'' s pos of None \<Rightarrow> None
      | Some pos \<Rightarrow>
        let t = lstrip_blanks (drop (pos + 1) s)
        in if t = [] \<or> hd t \<noteq> DQ then None
           else let v = takeWhile (\<lambda>c. c \<noteq> DQ) (tl t)
                in if v = [] then None else Some v))"

definition parseCommandLine :: "string \<Rightarrow> string option" where
  "parseCommandLine payload =
     (let s = lstrip_blanks (rstrip_newlines payload); has_cmd = contains (DQ # ''cmd'' @ [DQ]) s
      in if s = ''disconnect'' then Some ''DISCONNECT''
         else if starts_with ''switch '' s then Some (''SWITCH '' @ drop (length ''switch '') s)
         else if starts_with ''ota '' s then Some (''OTA '' @ drop (length ''ota '') s)
         else if has_cmd \<and> contains ''disconnect'' s then Some ''DISCONNECT''
         else if has_cmd \<and> contains ''switch'' s
           then map_option (\<lambda>sel. ''SWITCH '' @ sel) (quoted_value ''selector'' s)
         else if has_cmd \<and> contains ''ota'' s
           then map_option (\<lambda>url. ''OTA '' @ url) (quoted_value ''url'' s)
         else None)"

definition ota_command :: "string \<Rightarrow> string" where
  "ota_command url = ''/usr/bin/aawg-ota-apply '' @ [CHR 0x27] @ url @ [CHR 0x27]"

text \<open>What a message makes the bridge do.\<close>

datatype action =
    Ignore
  | System string
  | Request bool string "char sink"

text \<open>The payload is None for a null pointer; system reads its command up to the first NUL.\<close>

definition onMessage :: "unix_peer \<Rightarrow> string option \<Rightarrow> action" where
  "onMessage peer msg =
     (case msg of None \<Rightarrow> Ignore
      | Some payload \<Rightarrow>
        if payload = [] then Ignore
        else (case parseCommandLine payload of None \<Rightarrow> Ignore
              | Some c \<Rightarrow>
                if starts_with ''OTA '' c then System (c_str (ota_command (drop (length ''OTA '') c)))
                else (case unixSockRequest peer c [] of (ok, resp, sink) \<Rightarrow> Request ok resp sink)))"

section \<open>The process\<close>

text \<open>mosquitto_new and mosquitto_connect, and the connection of each status round.\<close>

record mosquitto_lib =
  new_ok :: bool
  connect_rc :: int

definition app_ctx :: "host \<Rightarrow> AppCtx" where
  "app_ctx h =
     (let prefix = getenvStr h ''AAWG_MQTT_TOPIC_PREFIX'' ''aawgd'';
          interval = getenvInt h ''AAWG_MQTT_STATUS_INTERVAL_SEC'' 5
      in \<lparr>topicPrefix = prefix, topicCmd = prefix @ ''/cmd'', topicStatus = prefix @ ''/status'',
          statusIntervalSec = (if interval > 0 then interval else 5)\<rparr>)"

text \<open>The calls made and the exit code; None is the loop that goes on after the rounds described.\<close>

definition mqtt_main :: "host \<Rightarrow> mosquitto_lib \<Rightarrow> unix_peer list \<Rightarrow> mqtt_call list \<times> int option" where
  "mqtt_main h lib rounds =
     (let mqtt_host = getenvStr h ''AAWG_MQTT_HOST'' [];
          mqtt_port = getenvInt h ''AAWG_MQTT_PORT'' 1883;
          username = getenvStr h ''AAWG_MQTT_USERNAME'' [];
          password = getenvStr h ''AAWG_MQTT_PASSWORD'' [];
          clientId = getenvStr h ''AAWG_MQTT_CLIENT_ID'' ''aawgd'';
          ctx = app_ctx h
      in if mqtt_host = [] then ([], Some 1)
         else if \<not> new_ok lib then ([Lib_init, New clientId, Lib_cleanup], Some 2)
         else let start = [Lib_init, New clientId]
                @ (if username \<noteq> []
                   then [Username_pw_set username (if password = [] then None else Some password)] else [])
                @ [Connect_to mqtt_host mqtt_port 30]
              in if connect_rc lib \<noteq> 0 then (start @ [Destroy, Lib_cleanup], Some 3)
                 else (start @ [Loop_start] @ concat (map (publishStatus ctx) rounds), None))"

section \<open>Searching in quoted text\<close>

text \<open>A pattern without quotes cannot reach across one, and a quoted key only fits between two.\<close>

lemma contains_sep:
  assumes "DQ \<notin> set p" "p \<noteq> []"
  shows "contains p (xs @ DQ # ys) \<longleftrightarrow> contains p xs \<or> contains p ys"
proof
  assume "contains p (xs @ DQ # ys)"
  then obtain us vs where e: "xs @ DQ # ys = us @ p @ vs" by (auto simp: contains_iff)
  then obtain ws where "xs = us @ ws \<and> ws @ DQ # ys = p @ vs \<or> xs @ ws = us \<and> DQ # ys = ws @ p @ vs"
    using append_eq_append_conv2 [of xs "DQ # ys" us "p @ vs"] by blast
  then consider "xs @ ws = us" "ws @ p @ vs = DQ # ys" | "xs = us @ ws" "ws @ DQ # ys = p @ vs"
    by argo
  then show "contains p xs \<or> contains p ys"
  proof cases
    case 1
    then have "ws \<noteq> []" using assms by (cases p) auto
    with 1 have "ys = tl ws @ p @ vs" by (cases ws) auto
    then show ?thesis by (auto simp: contains_iff)
  next
    case 2
    show ?thesis
    proof (cases "length p \<le> length ws")
      case True
      have "take (length p) (ws @ DQ # ys) = p" by (simp add: 2(2))
      then have "ws = p @ drop (length p) ws" using True by (metis append_take_drop_id take_append diff_is_0_eq take_0 append_Nil2)
      with 2(1) show ?thesis by (metis contains_iff)
    next
      case False
      then have "(ws @ DQ # ys) ! length ws \<in> set p"
        by (simp only: 2(2) nth_append) (simp add: nth_append)
      with assms(1) show ?thesis by simp
    qed
  qed
next
  assume "contains p xs \<or> contains p ys"
  then show "contains p (xs @ DQ # ys)"
    unfolding contains_iff by (metis append.assoc append_Cons)
qed

lemma contains_Nil [simp]: "contains (c # p) [] = False"
  and contains_Cons [simp]: "contains p (c # s) \<longleftrightarrow> starts_with p (c # s) \<or> contains p s"
  by (auto simp: contains_def)

lemma starts_with_quoted:
  assumes "DQ \<notin> set k" "DQ \<notin> set v"
  shows "starts_with (k @ [DQ]) (v @ DQ # rest) \<longleftrightarrow> k = v"
  using assms
proof (induction k arbitrary: v)
  case Nil
  then show ?case by (cases v) auto
next
  case (Cons c k)
  then show ?case by (cases v) auto
qed

lemma find_sub_unquoted:
  assumes "DQ \<notin> set v"
  shows "find_sub (DQ # p) (v @ DQ # rest) = map_option ((+) (length v)) (find_sub (DQ # p) (DQ # rest))"
  using assms
proof (induction v)
  case Nil
  then show ?case by (simp add: option.map_id0 option.map_ident)
next
  case (Cons c v)
  then show ?case by (simp add: option.map_comp comp_def del: find_sub.simps(2)) (simp add: option.map_comp comp_def)
qed

section \<open>Reading commands\<close>

text \<open>The JSON commands as the comment of parseCommandLine gives them.\<close>

definition switch_json :: "string \<Rightarrow> string" where
  \<open>switch_json sel = ''{"cmd":"switch","selector":"'' @ sel @ ''"}''\<close>

definition ota_json :: "string \<Rightarrow> string" where
  \<open>ota_json url = ''{"cmd":"ota","url":"'' @ url @ ''"}''\<close>

lemma strip_json [mqtt_simps]:
  "lstrip_blanks (rstrip_newlines (switch_json sel)) = switch_json sel"
  "lstrip_blanks (rstrip_newlines (ota_json url)) = ota_json url"
  by (simp_all add: lstrip_blanks_def rstrip_newlines_def switch_json_def ota_json_def)

lemma contains_disconnect_json [mqtt_simps]:
  "contains ''disconnect'' (switch_json v) = contains ''disconnect'' v"
  "contains ''disconnect'' (ota_json v) = contains ''disconnect'' v"
  by (simp_all add: switch_json_def ota_json_def contains_sep)

lemma contains_switch_json [mqtt_simps]:
  "contains ''switch'' (switch_json v)" "contains ''switch'' (ota_json v) = contains ''switch'' v"
  "contains ''ota'' (ota_json v)"
  by (simp_all add: switch_json_def ota_json_def contains_sep)

lemma contains_cmd_json [mqtt_simps]:
  "contains (DQ # ''cmd'' @ [DQ]) (switch_json v)" "contains (DQ # ''cmd'' @ [DQ]) (ota_json v)"
  by (simp_all add: switch_json_def ota_json_def)

lemma not_plain_json [mqtt_simps]:
  "switch_json v \<noteq> ''disconnect''" "\<not> starts_with ''switch '' (switch_json v)"
  "\<not> starts_with ''ota '' (switch_json v)"
  "ota_json v \<noteq> ''disconnect''" "\<not> starts_with ''switch '' (ota_json v)"
  "\<not> starts_with ''ota '' (ota_json v)"
  by (simp_all add: switch_json_def ota_json_def)

lemma quoted_value_json [mqtt_simps]:
  assumes "DQ \<notin> set v"
  shows "quoted_value ''selector'' (switch_json v) = (if v = [] then None else Some v)"
    "quoted_value ''url'' (ota_json v) = (if v = [] then None else Some v)"
proof -
  have t: "takeWhile (\<lambda>c. c \<noteq> DQ) (v @ DQ # r) = v" for r
    using assms by (subst takeWhile_append2) auto
  show "quoted_value ''selector'' (switch_json v) = (if v = [] then None else Some v)"
    "quoted_value ''url'' (ota_json v) = (if v = [] then None else Some v)"
    by (simp_all add: quoted_value_def switch_json_def ota_json_def find_from_def lstrip_blanks_def t Let_def)
qed

lemma selector_of_ota_json:
  assumes "DQ \<notin> set v" "v \<noteq> ''selector''"
  shows "quoted_value ''selector'' (ota_json v) = None"
proof -
  have "starts_with (''selector'' @ [DQ]) (v @ DQ # ''}'') = False"
    using starts_with_quoted [of "''selector''" v "''}''"] assms by auto
  moreover have "find_sub (DQ # ''selector'' @ [DQ]) (v @ DQ # ''}'') = None"
    using find_sub_unquoted [OF assms(1), of "''selector'' @ [DQ]" "''}''"] by simp
  ultimately have "find_sub (DQ # ''selector'' @ [DQ]) (ota_json v) = None"
    by (simp add: ota_json_def)
  then show ?thesis by (simp add: quoted_value_def)
qed

text \<open>
  The switch command as JSON.  For every selector without a quote the bridge sends SWITCH with
  exactly that selector, except that an empty one is ignored and one that contains the word
  disconnect is taken for a disconnect command.
\<close>

lemma switch_json_parsed:
  assumes "DQ \<notin> set sel"
  shows "parseCommandLine (switch_json sel) =
    (if contains ''disconnect'' sel then Some ''DISCONNECT''
     else if sel = [] then None else Some (''SWITCH '' @ sel))"
  using assms by (simp add: parseCommandLine_def mqtt_simps Let_def del: append_Cons append_Nil)

text \<open>
  The update command as JSON.  A url without a quote is handed on as it is unless it contains
  the word disconnect, which makes the bridge send DISCONNECT, or the word switch, which makes it
  drop the command.
\<close>

lemma ota_json_parsed:
  assumes "DQ \<notin> set url"
  shows "parseCommandLine (ota_json url) =
    (if contains ''disconnect'' url then Some ''DISCONNECT''
     else if contains ''switch'' url then None
     else if url = [] then None else Some (''OTA '' @ url))"
proof (cases "url = ''selector''")
  case True
  have "\<not> contains ''switch'' ''selector''" "\<not> contains ''disconnect'' ''selector''" by simp_all
  with True assms show ?thesis
    by (simp add: parseCommandLine_def mqtt_simps Let_def del: append_Cons append_Nil contains_Cons)
next
  case False
  with assms show ?thesis
    by (simp add: parseCommandLine_def mqtt_simps selector_of_ota_json Let_def del: append_Cons append_Nil)
qed

lemma strip_padding:
  assumes "set pre \<subseteq> {CHR '' '', TAB}" "set post \<subseteq> {NL, CR}"
    and "x \<noteq> []" "hd x \<notin> {CHR '' '', TAB}" "last x \<notin> {NL, CR}"
  shows "lstrip_blanks (rstrip_newlines (pre @ x @ post)) = x"
proof -
  have "dropWhile (\<lambda>c. c = NL \<or> c = CR) (rev post @ r) = dropWhile (\<lambda>c. c = NL \<or> c = CR) r" for r
    using assms(2) by (subst dropWhile_append2) auto
  moreover have "dropWhile (\<lambda>c. c = NL \<or> c = CR) (rev x @ r) = rev x @ r" for r
    using assms(3,5) by (cases x rule: rev_cases) auto
  ultimately have "rstrip_newlines (pre @ x @ post) = pre @ x" by (simp add: rstrip_newlines_def)
  moreover have "lstrip_blanks (pre @ x) = x"
    unfolding lstrip_blanks_def using assms(1,3,4)
    by (subst dropWhile_append2) (auto simp: neq_Nil_conv)
  ultimately show ?thesis by simp
qed

text \<open>
  The plain commands.  Leading blanks and trailing line ends are dropped, and what stands
  between is handed on unchanged: the selector and the url are everything behind the first blank.
\<close>

lemma plain_command_parsed:
  assumes "set pre \<subseteq> {CHR '' '', TAB}" "set post \<subseteq> {NL, CR}" "arg \<noteq> []" "last arg \<notin> {NL, CR}"
  shows "parseCommandLine (pre @ ''disconnect'' @ post) = Some ''DISCONNECT''
    \<and> parseCommandLine (pre @ (''switch '' @ arg) @ post) = Some (''SWITCH '' @ arg)
    \<and> parseCommandLine (pre @ (''ota '' @ arg) @ post) = Some (''OTA '' @ arg)"
proof -
  have "lstrip_blanks (rstrip_newlines (pre @ ''disconnect'' @ post)) = ''disconnect''"
    by (rule strip_padding [OF assms(1,2)]) simp_all
  moreover have "lstrip_blanks (rstrip_newlines (pre @ (''switch '' @ arg) @ post)) = ''switch '' @ arg"
    by (rule strip_padding [OF assms(1,2)]) (use assms(3,4) in simp_all)
  moreover have "lstrip_blanks (rstrip_newlines (pre @ (''ota '' @ arg) @ post)) = ''ota '' @ arg"
    by (rule strip_padding [OF assms(1,2)]) (use assms(3,4) in simp_all)
  ultimately show ?thesis by (simp only: parseCommandLine_def Let_def) simp
qed

lemma c_str_no_nul: "CHR 0x00 \<notin> set s \<Longrightarrow> c_str s = s"
  by (auto simp: c_str_def)

section \<open>Exchanges with the control socket\<close>

lemma read_reply_line:
  assumes "out @ avail s = body @ [NL]" "NL \<notin> set body" "NL \<notin> set out" "length body \<le> 65536"
  shows "read_reply s out = body @ [NL]"
  using assms
proof (induction s out rule: read_reply.induct)
  case (1 s out)
  have "avail s \<noteq> []"
  proof
    assume "avail s = []"
    then have "out = body @ [NL]" using "1.prems"(1) by simp
    then show False using "1.prems"(3) by simp
  qed
  then obtain bs s' where rd: "sys_read 1024 s = (int (length bs), bs, s')" "bs \<noteq> []"
    using sys_read_progress [of 1024 s] by auto
  with sys_read_avail [OF rd(1)] have av: "avail s = bs @ avail s'" by simp
  have whole: "(out @ bs) @ avail s' = body @ [NL]" using "1.prems"(1) av by simp
  show ?case
  proof (cases "NL \<in> set (out @ bs)")
    case True
    have "avail s' = []"
    proof (rule ccontr)
      assume "avail s' \<noteq> []"
      then have "body = (out @ bs) @ butlast (avail s')" using whole
        by (metis butlast_append butlast_snoc)
      with True "1.prems"(2) show False by auto
    qed
    with rd True whole show ?thesis by (simp add: read_reply.simps [of s out])
  next
    case False
    then have "avail s' \<noteq> []" using whole by (metis append_Nil2 in_set_conv_decomp)
    then have "body = (out @ bs) @ butlast (avail s')" using whole
      by (metis butlast_append butlast_snoc)
    then have "length (out @ bs) \<le> 65536" using "1.prems"(4) by simp
    with rd False "1.IH" [OF rd(1) [symmetric] refl _ refl False] whole "1.prems"(2,4)
    show ?thesis by (auto simp: read_reply.simps [of s out])
  qed
qed

definition answering :: "unix_peer \<Rightarrow> bool" where
  "answering peer \<longleftrightarrow> up_socket peer \<and> up_connect peer \<and> wscript (up_out peer) = []"

lemma unixSockRequest_sends:
  assumes "answering peer" "line = [] \<or> last line \<noteq> NL"
  shows "unixSockRequest peer line out =
    (read_reply (up_in peer) [] \<noteq> [], read_reply (up_in peer) [],
     (up_out peer)\<lparr>wlog := wlog (up_out peer) @ [line @ [NL]]\<rparr>)"
  using assms by (auto simp: unixSockRequest_def answering_def sys_write_reliable Let_def)

text \<open>Padding: leading blanks and trailing line ends of a payload do not matter.\<close>

lemma parse_padding:
  assumes "set pre \<subseteq> {CHR '' '', TAB}" "set post \<subseteq> {NL, CR}"
    and "x \<noteq> []" "hd x \<notin> {CHR '' '', TAB}" "last x \<notin> {NL, CR}"
  shows "parseCommandLine (pre @ x @ post) = parseCommandLine x"
  using strip_padding [OF assms] strip_padding [of "[]" "[]" x] assms(3-5)
  by (simp add: parseCommandLine_def)

text \<open>A request sent to the control socket, and its answer.\<close>

definition requests :: "unix_peer \<Rightarrow> string \<Rightarrow> action" where
  "requests peer line = (let resp = read_reply (up_in peer) []
     in Request (resp \<noteq> []) resp ((up_out peer)\<lparr>wlog := wlog (up_out peer) @ [line @ [NL]]\<rparr>))"

lemma onMessage_command:
  assumes "answering peer" "parseCommandLine payload = Some c" "payload \<noteq> []" "last c \<noteq> NL"
  shows "onMessage peer (Some payload) =
    (if starts_with ''OTA '' c then System (c_str (ota_command (drop (length ''OTA '') c))) else requests peer c)"
  using assms unixSockRequest_sends [OF assms(1), of c "[]"] by (simp add: onMessage_def requests_def Let_def)

definition disconnect_json :: string where
  \<open>disconnect_json = ''{"cmd":"disconnect"}''\<close>

lemma disconnect_json_parsed: "parseCommandLine disconnect_json = Some ''DISCONNECT''"
  by (simp add: parseCommandLine_def disconnect_json_def lstrip_blanks_def rstrip_newlines_def)

text \<open>
  C40. What a message makes the bridge do, for every form of command the comment of
  parseCommandLine lists, with blanks before and line ends behind it, when the control socket
  answers.  The plain commands are handed on with their argument unchanged: disconnect and switch
  as one line to the control socket, whose answer is read, and an update as exactly one shell
  command, the helper with the url between single quotes and nothing in it escaped.  The JSON
  commands do the same, except that a selector or url with the word disconnect in it is taken for
  a disconnect command, and an update whose url contains the word switch is dropped.
\<close>

theorem message_dispatch:
  assumes "set pre \<subseteq> {CHR '' '', TAB}" "set post \<subseteq> {NL, CR}" "answering peer"
    and "arg \<noteq> []" "last arg \<notin> {NL, CR}" "DQ \<notin> set arg" "CHR 0x00 \<notin> set arg"
  shows "onMessage peer (Some (pre @ ''disconnect'' @ post)) = requests peer ''DISCONNECT''
    \<and> onMessage peer (Some (pre @ disconnect_json @ post)) = requests peer ''DISCONNECT''
    \<and> onMessage peer (Some (pre @ (''switch '' @ arg) @ post)) = requests peer (''SWITCH '' @ arg)
    \<and> onMessage peer (Some (pre @ switch_json arg @ post)) =
        requests peer (if contains ''disconnect'' arg then ''DISCONNECT'' else ''SWITCH '' @ arg)
    \<and> onMessage peer (Some (pre @ (''ota '' @ arg) @ post)) =
        System (''/usr/bin/aawg-ota-apply '' @ [CHR 0x27] @ arg @ [CHR 0x27])
    \<and> onMessage peer (Some (pre @ ota_json arg @ post)) =
        (if contains ''disconnect'' arg then requests peer ''DISCONNECT''
         else if contains ''switch'' arg then Ignore
         else System (''/usr/bin/aawg-ota-apply '' @ [CHR 0x27] @ arg @ [CHR 0x27]))"
proof -
  note act = onMessage_command [OF assms(3)] and pad = parse_padding [OF assms(1,2)]
  note plain = plain_command_parsed [OF assms(1,2,4,5)]
  have json: "parseCommandLine (pre @ disconnect_json @ post) = Some ''DISCONNECT''"
    "parseCommandLine (pre @ switch_json arg @ post) = parseCommandLine (switch_json arg)"
    "parseCommandLine (pre @ ota_json arg @ post) = parseCommandLine (ota_json arg)"
    unfolding disconnect_json_parsed [symmetric]
    by (intro pad; simp add: disconnect_json_def switch_json_def ota_json_def)+
  have helper: "c_str (ota_command arg) = ''/usr/bin/aawg-ota-apply '' @ [CHR 0x27] @ arg @ [CHR 0x27]"
    using assms(7) by (subst c_str_no_nul) (auto simp: ota_command_def)
  have nl: "last arg \<noteq> NL" using assms(5) by simp
  have ne: "pre @ disconnect_json @ post \<noteq> []" "pre @ switch_json arg @ post \<noteq> []" "pre @ ota_json arg @ post \<noteq> []"
    by (simp_all add: disconnect_json_def switch_json_def ota_json_def)
  have "onMessage peer (Some (pre @ ''disconnect'' @ post)) = requests peer ''DISCONNECT''"
    using plain by (subst act [where c = "''DISCONNECT''"]) simp_all
  moreover have "onMessage peer (Some (pre @ disconnect_json @ post)) = requests peer ''DISCONNECT''"
    using json(1) ne(1) by (subst act [where c = "''DISCONNECT''"]) simp_all
  moreover have "onMessage peer (Some (pre @ (''switch '' @ arg) @ post)) = requests peer (''SWITCH '' @ arg)"
    using plain nl assms(4) by (subst act [where c = "''SWITCH '' @ arg"]) simp_all
  moreover have "onMessage peer (Some (pre @ (''ota '' @ arg) @ post)) = System (c_str (ota_command arg))"
    using plain nl assms(4) by (subst act [where c = "''OTA '' @ arg"]) simp_all
  moreover have "onMessage peer (Some (pre @ switch_json arg @ post)) =
      requests peer (if contains ''disconnect'' arg then ''DISCONNECT'' else ''SWITCH '' @ arg)"
    using json(2) ne(2) nl assms(4) switch_json_parsed [OF assms(6)]
    by (subst act [where c = "if contains ''disconnect'' arg then ''DISCONNECT'' else ''SWITCH '' @ arg"]) simp_all
  moreover have "onMessage peer (Some (pre @ ota_json arg @ post)) =
      (if contains ''disconnect'' arg then requests peer ''DISCONNECT''
       else if contains ''switch'' arg then Ignore else System (c_str (ota_command arg)))"
  proof (cases "\<not> contains ''disconnect'' arg \<and> contains ''switch'' arg")
    case True
    with json(3) ne(3) ota_json_parsed [OF assms(6)] show ?thesis by (simp add: onMessage_def)
  next
    case False
    with json(3) ne(3) nl assms(4) ota_json_parsed [OF assms(6)] show ?thesis
      by (subst act [where c = "if contains ''disconnect'' arg then ''DISCONNECT'' else ''OTA '' @ arg"]) auto
  qed
  ultimately show ?thesis unfolding helper by blast
qed

text \<open>
  The status published is the server's answer.  When the control socket answers LIST, in any
  pieces, with a line of at most 64 KiB, the bridge publishes exactly that line to the status
  topic.
\<close>

lemma status_is_forwarded:
  assumes "answering peer" "\<And>l. NL \<notin> set (si_double si l)"
    and "handleCommand bus si ''LIST'' b = (Inr resp, b')"
    and "avail (up_in peer) = resp" "length resp \<le> 65536"
  shows "publishStatus ctx peer = [Publish (topicStatus ctx) resp]"
proof -
  obtain body where body: "resp = body @ [NL]" "NL \<notin> set body"
    using handleCommand_one_line [OF assms(2,3)] by blast
  then have "read_reply (up_in peer) [] = resp"
    using assms(4,5) read_reply_line [of "[]" "up_in peer" body] by simp
  then show ?thesis
    using unixSockRequest_sends [OF assms(1), of "''LIST''" "[]"] body by (simp add: publishStatus_def)
qed

text \<open>
  From the broker to the phone.  A switch message in JSON with a selector the formats can
  carry makes the bridge write one request; whatever pieces that request arrives in at the
  server, the server calls switchToDevice with exactly that selector and answers with its result.
\<close>

lemma switch_end_to_end:
  assumes "DQ \<notin> set sel" "NL \<notin> set sel" "sel \<noteq> []" "last sel \<noteq> CR" "length sel < 4000"
    and "\<not> contains ''disconnect'' sel" "answering peer"
    and "switchToDevice bus sel b = (Inr ok, b')" "wscript out = []"
  shows "\<exists>resp req. onMessage peer (Some (switch_json sel)) =
      Request (resp \<noteq> []) resp ((up_out peer)\<lparr>wlog := wlog (up_out peer) @ [req]\<rparr>)
    \<and> (\<forall>i. avail i = req \<longrightarrow>
        serve_client bus si i out b = (Inr (out\<lparr>wlog := wlog out @ [ok_json ok]\<rparr>), b'))"
proof -
  let ?cmd = "''SWITCH '' @ sel"
  have "parseCommandLine (switch_json sel) = Some ?cmd"
    using assms(1,3,6) by (simp add: parseCommandLine_def mqtt_simps Let_def del: append_Cons append_Nil)
  moreover have l: "last sel \<noteq> NL" using assms(2,3) last_in_set by metis
  moreover have "switch_json sel \<noteq> []" by (simp add: switch_json_def)
  ultimately have "onMessage peer (Some (switch_json sel)) =
      Request (read_reply (up_in peer) [] \<noteq> []) (read_reply (up_in peer) [])
        ((up_out peer)\<lparr>wlog := wlog (up_out peer) @ [?cmd @ [NL]]\<rparr>)"
    using unixSockRequest_sends [OF assms(7), of ?cmd "[]"] assms(3)
    by (simp add: onMessage_def)
  moreover have "serve_client bus si i out b = (Inr (out\<lparr>wlog := wlog out @ [ok_json ok]\<rparr>), b')"
    if "avail i = ?cmd @ [NL]" for i
  proof (rule serve_client_run [where cmd = ?cmd and eol = "[]" and rest = "[]"])
    show "handleCommand bus si ?cmd b = (Inr (ok_json ok), b')"
      using assms(8) by (simp add: handleCommand_def)
  qed (use that assms in auto)
  ultimately show ?thesis by blast
qed

section \<open>Concrete runs\<close>

definition demo_peer :: unix_peer where
  "demo_peer = \<lparr>up_socket = True, up_connect = True,
     up_in = [Data (take 10 (list_json demo_sysinfo [])), Data (drop 10 (list_json demo_sysinfo []))],
     up_out = fresh_sink\<rparr>"

lemma demo_peer_answering: "answering demo_peer"
  by (simp add: answering_def demo_peer_def)

lemma demo_list_length:
  "10 < length (list_json demo_sysinfo [])" "length (list_json demo_sysinfo []) \<le> 65536"
proof -
  have "first_line_of demo_host p = (if p = ''/sys/firmware/devicetree/base/serial-number''
      then ''00000000abcd1234'' @ [CHR 0x00] else [])" for p
    by (simp add: first_line_of_def demo_host_def getline_def)
  then have "getCmdlineTokenValue demo_host ''root'' = []" "getUptimeSec demo_sysinfo = ''0''"
    by (simp_all add: getCmdlineTokenValue_def getUptimeSec_def demo_sysinfo_def stream_words.simps)
  moreover have "getKernelRelease demo_sysinfo = ''6.1.0''"
    by (simp add: getKernelRelease_def demo_sysinfo_def c_str_def)
  ultimately show "10 < length (list_json demo_sysinfo [])" "length (list_json demo_sysinfo []) \<le> 65536"
    by (simp_all add: list_json_def demo_sysinfo_def getBuildInfo_def slot_of_def json_simps escape_char_def)
qed

lemma switch_json_parsed_witness:
  "parseCommandLine (switch_json ''my phone'') = Some ''SWITCH my phone''"
  using switch_json_parsed [of "''my phone''"] by simp

lemma ota_json_parsed_witness:
  "parseCommandLine (ota_json ''http://h/a.img'') = Some ''OTA http://h/a.img''
   \<and> parseCommandLine (ota_json ''http://h/switchboard.img'') = None"
  using ota_json_parsed [of "''http://h/a.img''"] ota_json_parsed [of "''http://h/switchboard.img''"] by simp

lemma plain_command_parsed_witness:
  "parseCommandLine (''  '' @ (''switch '' @ ''00:11'') @ [CR, NL]) = Some ''SWITCH 00:11''"
  using plain_command_parsed [of "''  ''" "[CR, NL]" "''00:11''"] by simp

theorem message_dispatch_witness:
  "onMessage demo_peer (Some (''  '' @ ota_json ''http://h/a.img'' @ [CR, NL])) =
      System (''/usr/bin/aawg-ota-apply '' @ [CHR 0x27] @ ''http://h/a.img'' @ [CHR 0x27])
   \<and> onMessage demo_peer (Some (''  '' @ (''switch '' @ ''http://h/a.img'') @ [CR, NL])) =
      requests demo_peer ''SWITCH http://h/a.img''"
  using message_dispatch [of "''  ''" "[CR, NL]" demo_peer "''http://h/a.img''"] demo_peer_answering by simp

lemma status_is_forwarded_witness:
  "publishStatus (app_ctx demo_host) demo_peer
    = [Publish (topicStatus (app_ctx demo_host)) (list_json demo_sysinfo [])]"
proof -
  let ?b = "demo_bt\<lparr>m_connection := False\<rparr>"
  let ?r = "list_json demo_sysinfo []"
  have h: "handleCommand demo_bus demo_sysinfo ''LIST'' ?b = (Inr ?r, ?b)"
    by (simp add: handleCommand_def listDevices_def)
  have d: "NL \<notin> set (si_double demo_sysinfo l)" for l by (simp add: demo_sysinfo_def)
  have "avail (up_in demo_peer) = ?r" using demo_list_length by (auto simp: demo_peer_def)
  then show ?thesis
    using demo_list_length(2) status_is_forwarded [OF demo_peer_answering d h, of "app_ctx demo_host"] by blast
qed

lemma switch_end_to_end_witness:
  "\<exists>resp req. onMessage demo_peer (Some (switch_json ''d2'')) =
      Request (resp \<noteq> []) resp (fresh_sink\<lparr>wlog := [req]\<rparr>)
    \<and> (\<forall>i. avail i = req \<longrightarrow>
        serve_client demo_bus demo_sysinfo i fresh_sink demo_bt1
          = (Inr (fresh_sink\<lparr>wlog := [ok_json True]\<rparr>), demo_bt2))"
proof -
  have "up_out demo_peer = fresh_sink" by (simp add: demo_peer_def)
  then show ?thesis
    using switch_end_to_end [of "''d2''" demo_peer demo_bus demo_bt1 True demo_bt2 fresh_sink demo_sysinfo]
      demo_peer_answering demo_runs(2) by (simp del: sys_read.simps)
qed

end
