(* ===== verification/Server.thy ===== *)
theory Server
  imports Proxy Usb Bluetooth
begin

text \<open>
  The server side of AAWProxy (startServer and handleClient in proxyHandler.cpp): the listening
  socket, and the thread that takes the phone's connection, brings the USB gadget up and runs
  the two forwarding threads.  The state joins the Bluetooth handler, the USB manager and the
  descriptors that are open; what the system calls answer is in a record.
\<close>

named_theorems server_simps \<open>evaluation of the server\<close>

datatype fd = Listen_fd | Tcp_fd | Usb_fd

record 'w daemon =
  d_bt :: "'w bt"
  d_usb :: usb
  d_fds :: "fd list"

type_synonym ('w, 'a) d_eff = "('w daemon, fault, 'a) eff"

definition on_bt :: "('w, 'a) bt_eff \<Rightarrow> ('w, 'a) d_eff" where
  "on_bt f = (\<lambda>d. case f (d_bt d) of (r, b) \<Rightarrow> (r, d\<lparr>d_bt := b\<rparr>))"

definition on_usb :: "'a usb_eff \<Rightarrow> ('w, 'a) d_eff" where
  "on_usb f = (\<lambda>d. case f (d_usb d) of (r, u) \<Rightarrow> (r, d\<lparr>d_usb := u\<rparr>))"

definition open_fd :: "fd \<Rightarrow> ('w, unit) d_eff" where
  "open_fd f = (\<lambda>d. ret () (d\<lparr>d_fds := f # d_fds d\<rparr>))"

definition close_fd :: "fd \<Rightarrow> ('w, unit) d_eff" where
  "close_fd f = (\<lambda>d. ret () (d\<lparr>d_fds := remove1 f (d_fds d)\<rparr>))"

section \<open>startServer\<close>

record server_env =
  se_socket :: bool
  se_setsockopt :: bool
  se_bind :: bool
  se_listen :: bool

text \<open>The port bound is htons of the 32-bit number: its low 16 bits.\<close>

definition bound_port :: "int \<Rightarrow> u16" where
  "bound_port p = of_int p"

text \<open>Whether a thread was started, and the port it listens on.\<close>

definition startServer :: "server_env \<Rightarrow> int \<Rightarrow> ('w, u16 option) d_eff" where
  "startServer se p =
     (if \<not> se_socket se then ret None
      else andthen (open_fd Listen_fd) (\<lambda>_.
        if \<not> se_setsockopt se then ret None
        else if \<not> se_bind se then ret None
        else if \<not> se_listen se then ret None
        else ret (Some (bound_port p))))"

section \<open>handleClient\<close>

text \<open>
  What the thread meets: the results of accept, open and setsockopt, the uevents of the 30
  second wait, the two ends of the connection, and for each forwarding thread the content of its
  stack buffer and the values it reads from the exit flag.
\<close>

record client_env =
  ce_accept :: bool
  ce_events :: "UeventEnv list"
  ce_open :: bool
  ce_timeout_set :: bool
  ce_ends :: endpoints
  ce_buffers :: "byte list \<times> byte list"
  ce_exits :: "bool list \<times> bool list"

definition forwarding_ctl :: proxy_ctl where
  "forwarding_ctl = \<lparr>should_exit = False, m_usb_tcp_thread = True, m_tcp_usb_thread = True,
     m_log_communication = False, sigusr1 = []\<rparr>"

text \<open>
  Both threads.  They work on disjoint ends of the connection and share nothing but the exit flag,
  so what a run of the two does is determined by the values each of them reads from that flag,
  and these are data of the session (ce_exits): the order of the two calls here carries nothing
  from one thread to the other, and a thread that stops is seen by the other only through its
  list.  Interleaving proves which lists the steps of two real threads can give: every run in
  which the two move in any order is forward_both for some pair of lists that are ordered and of
  which at least one never shows the flag (interleaving_explained).
\<close>

definition forward_both :: "client_env \<Rightarrow> endpoints option" where
  "forward_both ce =
     (case forward USB_to_TCP (fst (ce_buffers ce)) (fst (ce_exits ce)) (ce_ends ce) forwarding_ctl of
        None \<Rightarrow> None
      | Some (ep, c) \<Rightarrow>
          map_option fst (forward TCP_to_USB (snd (ce_buffers ce)) (snd (ce_exits ce)) ep c))"

text \<open>
  The parts of handleClient behind stopConnectWithRetry: the wait for the car, unless it was
  made before (lines 188 to 192), and the rest; Some are the ends after forwarding.
\<close>

definition accessory_ready :: "list_impl \<Rightarrow> client_env \<Rightarrow> ('w, bool option) d_eff" where
  "accessory_ready impl ce = (\<lambda>d.
     if strategy (d_bt d) \<noteq> USB_FIRST
     then on_usb (enableDefaultAndWaitForAccessory impl 30000 (ce_events ce)) d
     else ret (Some True) d)"

definition serve_rest :: "client_env \<Rightarrow> bool option \<Rightarrow> ('w, endpoints option) d_eff" where
  "serve_rest ce accessory =
     (if accessory \<noteq> Some True then ret None
      else if \<not> ce_open ce then ret None
      else andthen (open_fd Usb_fd) (\<lambda>_.
        if \<not> ce_timeout_set ce then ret None
        else (case forward_both ce of
                None \<Rightarrow> throw Buffer_overflow
              | Some ep \<Rightarrow> andthen (close_fd Usb_fd) (\<lambda>_.
                  andthen (close_fd Tcp_fd) (\<lambda>_. ret (Some ep))))))"

definition serve_phone :: "list_impl \<Rightarrow> client_env \<Rightarrow> ('w, endpoints option) d_eff" where
  "serve_phone impl ce = andthen (accessory_ready impl ce) (serve_rest ce)"

definition accept_phone :: "('w, unit) d_eff" where
  "accept_phone = andthen (open_fd Tcp_fd) (\<lambda>_.
     andthen (close_fd Listen_fd) (\<lambda>_. on_bt stopConnectWithRetry))"

definition handleClient :: "list_impl \<Rightarrow> client_env \<Rightarrow> ('w, endpoints option) d_eff" where
  "handleClient impl ce =
     (if \<not> ce_accept ce then andthen (close_fd Listen_fd) (\<lambda>_. ret None)
      else andthen accept_phone (\<lambda>_. serve_phone impl ce))"

lemma lift_simps [server_simps]:
  "on_bt f d = (fst (f (d_bt d)), d\<lparr>d_bt := snd (f (d_bt d))\<rparr>)"
  "on_usb g d = (fst (g (d_usb d)), d\<lparr>d_usb := snd (g (d_usb d))\<rparr>)"
  "open_fd x d = (Inr (), d\<lparr>d_fds := x # d_fds d\<rparr>)"
  "close_fd x d = (Inr (), d\<lparr>d_fds := remove1 x (d_fds d)\<rparr>)"
  by (simp_all add: on_bt_def on_usb_def open_fd_def close_fd_def split: prod.split)

lemma andthen_fd [server_simps]:
  "andthen (open_fd x) k d = k () (d\<lparr>d_fds := x # d_fds d\<rparr>)"
  "andthen (close_fd x) k d = k () (d\<lparr>d_fds := remove1 x (d_fds d)\<rparr>)"
  by (simp_all add: andthen_def server_simps)

section \<open>The port\<close>

text \<open>
  The port the phone is told and the port that is bound.  The configured number goes to the
  phone as a 32-bit integer and to bind through htons; both are the same exactly for the numbers
  of 16 bits, and the configuration does not check for it.
\<close>

lemma advertised_port_is_bound:
  "uint (bound_port (port (getWifiInfo h))) = sint (of_int (port (getWifiInfo h)) :: i32)
     \<longleftrightarrow> 0 \<le> port (getWifiInfo h) \<and> port (getWifiInfo h) < 65536"
proof -
  let ?p = "port (getWifiInfo h)"
  have r: "- (2 ^ 31) \<le> ?p" "?p < 2 ^ 31"
    using getenv_int_range [of 5288 h "''AAWG_PROXY_PORT''"] by (simp_all add: getWifiInfo_port)
  have s: "sint (of_int ?p :: i32) = ?p"
    using r by (simp add: signed_of_int signed_take_bit_int_eq_self)
  have u: "uint (bound_port ?p) = ?p mod 65536"
    by (simp add: bound_port_def unsigned_of_int take_bit_eq_mod)
  show ?thesis unfolding s u by (auto simp: mod_pos_pos_trivial)
qed

section \<open>Descriptors\<close>

lemma serve_phone_fds:
  assumes "serve_phone impl ce d = (Inr r, d')" "d_fds d = Tcp_fd # fds"
  shows "d_fds d' = (if r \<noteq> None then fds
    else if d_fds d' = d_fds d then d_fds d else Usb_fd # d_fds d)"
proof -
  obtain acc d1 where a: "accessory_ready impl ce d = (acc, d1)" "d_fds d1 = d_fds d"
    by (cases "strategy (d_bt d) = USB_FIRST") (auto simp: accessory_ready_def server_simps)
  show ?thesis
  proof (cases acc)
    case (Inl e)
    with a assms show ?thesis by (simp add: serve_phone_def serve_rest_def)
  next
    case (Inr x)
    with a assms show ?thesis
      by (auto simp: serve_phone_def serve_rest_def server_simps split: if_splits option.splits)
  qed
qed

text \<open>
  C35. Descriptors.  A failed accept and a session that got as far as forwarding leave exactly the
  descriptors that were open before.  Every other way out of handleClient (no accessory request in
  time, the accessory device does not open, the timeout cannot be set) leaves the phone's
  connection open for the rest of the process, in the last case the accessory device as well.
\<close>

theorem handleClient_descriptors:
  assumes "handleClient impl ce d = (Inr r, d')" "d_fds d = Listen_fd # fds"
  shows "d_fds d' = (if \<not> ce_accept ce \<or> r \<noteq> None then fds
      else if d_fds d' = Tcp_fd # fds then Tcp_fd # fds else Usb_fd # Tcp_fd # fds)"
proof (cases "ce_accept ce")
  case False
  with assms show ?thesis by (auto simp: handleClient_def andthen_def server_simps)
next
  case True
  let ?d = "d\<lparr>d_fds := Tcp_fd # fds\<rparr>"
  have acc: "handleClient impl ce d = andthen accept_phone (\<lambda>_. serve_phone impl ce) d"
    using True by (simp add: handleClient_def)
  obtain x b1 where st: "stopConnectWithRetry (d_bt d) = (x, b1)" by fastforce
  let ?d1 = "?d\<lparr>d_bt := b1\<rparr>"
  have on: "accept_phone d = (x, ?d1)" using st assms(2) by (simp add: accept_phone_def server_simps)
  with acc assms(1) obtain u where "x = Inr u" by (cases x) auto
  with acc on assms(1) have "serve_phone impl ce ?d1 = (Inr r, d')" by simp
  from serve_phone_fds [OF this, of fds] True show ?thesis by (auto split: if_splits)
qed

section \<open>A session\<close>

lemma accessory_request_run:
  assumes "gadgets_exist u" "udc_name_ok u" "handlers u = []"
    "\<forall>env \<in> set noise. \<not> is_start env" "is_start env"
  shows "\<exists>u1. enableDefaultAndWaitForAccessory Ring timeout (noise @ env # rest) u = (Inr (Some True), u1)
      \<and> bound_udc u1 accessoryGadgetName = s_udcName u \<and> bound_udc u1 defaultGadgetName = []
      \<and> handlers u1 = []"
  using wait_for_request(1) [OF assms(1,3,4,5), of rest] assms(1,2)
    bound_accessory_mode [of "waiting u" "next_promise u"]
  by (simp add: enableDefaultAndWait_eq)

text \<open>
  A phone's session whose two forwarding threads end with the connection in the state ep.
\<close>

lemma session_runs:
  assumes "ce_accept ce" "ce_open ce" "ce_timeout_set ce" "strategy (d_bt d) \<noteq> USB_FIRST"
    and "connectWithRetryPromise (d_bt d) \<noteq> Some True" "d_fds d = Listen_fd # fds"
    and "gadgets_exist (d_usb d)" "udc_name_ok (d_usb d)" "handlers (d_usb d) = []"
    and "ce_events ce = noise @ env # rest" "\<forall>env \<in> set noise. \<not> is_start env" "is_start env"
    and "forward_both ce = Some ep"
  shows "\<exists>d'. handleClient Ring ce d = (Inr (Some ep), d')
    \<and> bound_udc (d_usb d') accessoryGadgetName = s_udcName (d_usb d)
    \<and> bound_udc (d_usb d') defaultGadgetName = [] \<and> handlers (d_usb d') = []
    \<and> d_bt d' = stopped (d_bt d) \<and> d_fds d' = fds"
proof -
  obtain u1 where u: "enableDefaultAndWaitForAccessory Ring 30000 (ce_events ce) (d_usb d) = (Inr (Some True), u1)"
    "bound_udc u1 accessoryGadgetName = s_udcName (d_usb d)" "bound_udc u1 defaultGadgetName = []"
    "handlers u1 = []"
    using accessory_request_run [OF assms(7-9,11,12)] unfolding assms(10) by blast
  have "handleClient Ring ce d =
      (Inr (Some ep), d\<lparr>d_bt := stopped (d_bt d), d_usb := u1, d_fds := fds\<rparr>)"
    using assms(1-6,13) u(1)
    by (simp add: handleClient_def accept_phone_def serve_phone_def serve_rest_def accessory_ready_def server_simps
        andthen_def [of "andthen _ _"] stopConnectWithRetry_result)
  with u show ?thesis by auto
qed

section \<open>Concrete runs\<close>

definition demo_daemon :: "nat daemon" where
  "demo_daemon = \<lparr>d_bt = demo_bt, d_usb = demo_usb, d_fds = [Listen_fd]\<rparr>"

definition demo_client_env :: client_env where
  "demo_client_env = \<lparr>ce_accept = True, ce_events = [Map.empty, start_env], ce_open = True,
     ce_timeout_set = True, ce_ends = demo_ends,
     ce_buffers = (replicate BUFFER_LEN 0, replicate BUFFER_LEN 0), ce_exits = ([], [])\<rparr>"

lemma demo_daemon_sel [simp]:
  "d_bt demo_daemon = demo_bt" "d_usb demo_daemon = demo_usb" "d_fds demo_daemon = [Listen_fd]"
  "handlers demo_usb = []"
  by (simp_all add: demo_daemon_def demo_usb_def)

theorem handleClient_descriptors_witness:
  "\<exists>d'. handleClient Iso (demo_client_env\<lparr>ce_events := []\<rparr>) demo_daemon = (Inr None, d')
    \<and> d_fds d' = [Tcp_fd]"
proof -
  let ?ce = "demo_client_env\<lparr>ce_events := []\<rparr>"
  have g: "gadgets_exist demo_usb" "\<not> promise_set (waiting demo_usb) (next_promise demo_usb)"
    using demo_usb_ok by simp_all
  then obtain u1 where "enableDefaultAndWaitForAccessory Iso 30000 [] demo_usb = (Inr (Some False), u1)"
    by (auto simp: enableDefaultAndWait_eq)
  then have "\<exists>d'. handleClient Iso ?ce demo_daemon = (Inr None, d') \<and> Usb_fd \<notin> set (d_fds d')"
    by (simp add: handleClient_def accept_phone_def serve_phone_def serve_rest_def accessory_ready_def server_simps
        andthen_def [of "andthen _ _"] stopConnectWithRetry_result demo_client_env_def demo_daemon_def)
  then obtain d' where d: "handleClient Iso ?ce demo_daemon = (Inr None, d')" "Usb_fd \<notin> set (d_fds d')"
    by blast
  from handleClient_descriptors [OF d(1), of "[]"] d show ?thesis
    by (auto simp: demo_daemon_def demo_client_env_def split: if_splits)
qed

end
