(* ===== verification/Interleaving.thy ===== *)
theory Interleaving
  imports Server Transition
begin

text \<open>
  The two forwarding threads of AAWProxy::forward side by side.  A step is one access to what
  the threads share (the exit flag) or one read or write of a descriptor; each descriptor is
  read by one thread only, so the reads of one message are one step.  The step of a thread is a
  function of the state, and a run is the order in which the threads move.  A signal that
  interrupts a read or write is a failure in the script of that descriptor.
\<close>

section \<open>Threads and steps\<close>

text \<open>
  Where a thread is: at the head of the loop, at the read, behind it with its result, at the
  write, behind it, on the way to stopForwarding, behind it; Overrun is a store outside the
  buffer.
\<close>

datatype forward_pc =
    At_head
  | At_read
  | Got int
  | At_write int
  | Wrote
  | Leaving
  | Stopped
  | Overrun

record fthread =
  f_at :: forward_pc
  f_rd :: "byte rstream"
  f_wr :: "byte sink"
  f_buf :: "byte list"

record session =
  threads_of :: "ProxyDirection \<Rightarrow> fthread"
  s_exit :: bool
  s_log :: bool

instantiation ProxyDirection :: finite
begin

instance
proof
  have "(UNIV :: ProxyDirection set) = {TCP_to_USB, USB_to_TCP}"
    by (auto intro: ProxyDirection.exhaust)
  then show "finite (UNIV :: ProxyDirection set)" by (metis finite.emptyI finite_insert)
qed

end

lemma UNIV_ProxyDirection: "(UNIV :: ProxyDirection set) = {TCP_to_USB, USB_to_TCP}"
  by (auto intro: ProxyDirection.exhaust)

text \<open>The thread's own part of a step, given the flag; the log flag is raised on len <= 0.\<close>

definition thread_step :: "ProxyDirection \<Rightarrow> bool \<Rightarrow> fthread \<Rightarrow> (fthread \<times> bool \<times> bool) option" where
  "thread_step d exit_flag t = (case f_at t of
      At_head \<Rightarrow> Some (t\<lparr>f_at := (if exit_flag then Leaving else At_read)\<rparr>, False, False)
    | At_read \<Rightarrow> (case fwd_read d (f_rd t) (f_buf t) of
          None \<Rightarrow> Some (t\<lparr>f_at := Overrun\<rparr>, False, False)
        | Some (len, buf, s) \<Rightarrow>
            Some (t\<lparr>f_at := (if len \<le> 0 then Leaving else Got len), f_rd := s, f_buf := buf\<rparr>,
                  False, len \<le> 0))
    | Got len \<Rightarrow> Some (t\<lparr>f_at := (if exit_flag then Leaving else At_write len)\<rparr>, False, False)
    | At_write len \<Rightarrow> (case sys_write (take (nat len) (f_buf t)) (f_wr t) of (wlen, w) \<Rightarrow>
          Some (t\<lparr>f_at := (if wlen < 0 then Leaving else Wrote), f_wr := w\<rparr>, False, wlen \<le> 0))
    | Wrote \<Rightarrow> Some (t\<lparr>f_at := (if exit_flag then Leaving else At_head)\<rparr>, False, False)
    | Leaving \<Rightarrow> Some (t\<lparr>f_at := Stopped\<rparr>, True, False)
    | Stopped \<Rightarrow> None
    | Overrun \<Rightarrow> None)"

definition forward_step :: "ProxyDirection \<Rightarrow> session \<Rightarrow> session option" where
  "forward_step d s = map_option (\<lambda>(t, sets_exit, sets_log).
      s\<lparr>threads_of := (threads_of s)(d := t), s_exit := s_exit s \<or> sets_exit,
        s_log := s_log s \<or> sets_log\<rparr>)
    (thread_step d (s_exit s) (threads_of s d))"

text \<open>What handleClient starts, and the ends as it finds them when both threads are joined.\<close>

definition start_session :: "client_env \<Rightarrow> session" where
  "start_session ce =
     \<lparr>threads_of = (\<lambda>d. \<lparr>f_at = At_head, f_rd = read_end d (ce_ends ce),
         f_wr = write_end d (ce_ends ce),
         f_buf = (case d of USB_to_TCP \<Rightarrow> fst (ce_buffers ce) | TCP_to_USB \<Rightarrow> snd (ce_buffers ce))\<rparr>),
      s_exit = False, s_log = False\<rparr>"

definition ends_of :: "session \<Rightarrow> endpoints" where
  "ends_of s = \<lparr>tcp_in = f_rd (threads_of s TCP_to_USB), tcp_out = f_wr (threads_of s USB_to_TCP),
     usb_in = f_rd (threads_of s USB_to_TCP), usb_out = f_wr (threads_of s TCP_to_USB)\<rparr>"

definition joined :: "session \<Rightarrow> bool" where
  "joined s \<longleftrightarrow> (\<forall>d. f_at (threads_of s d) = Stopped)"

section \<open>The sequential routine from any point of it\<close>

definition fstate_of :: "fthread \<Rightarrow> bool \<Rightarrow> bool list \<Rightarrow> fstate" where
  "fstate_of t lg ex = \<lparr>rd_s = f_rd t, wr_s = f_wr t, buffer = f_buf t, log_communication = lg, exits = ex\<rparr>"

definition go_on :: "ProxyDirection \<Rightarrow> bool \<times> fstate \<Rightarrow> fstate option" where
  "go_on d r = (if fst r then forward_loop d (snd r) else Some (snd r))"

definition after_read :: "ProxyDirection \<Rightarrow> int \<Rightarrow> fstate \<Rightarrow> fstate option" where
  "after_read d len st = (case load (exits st) of (e, ex) \<Rightarrow>
     if e then Some (st\<lparr>exits := ex\<rparr>) else go_on d (forward_write len (st\<lparr>exits := ex\<rparr>)))"

text \<open>The rest of forward for a thread that is at t, reading the flag values ex.\<close>

definition resume :: "ProxyDirection \<Rightarrow> fthread \<Rightarrow> bool \<Rightarrow> bool list \<Rightarrow> fstate option" where
  "resume d t lg ex = (let st = fstate_of t lg ex in case f_at t of
      At_head \<Rightarrow> forward_loop d st
    | At_read \<Rightarrow> forward_loop d (st\<lparr>exits := False # ex\<rparr>)
    | Got len \<Rightarrow> after_read d len st
    | At_write len \<Rightarrow> go_on d (forward_write len st)
    | Wrote \<Rightarrow> (case load ex of (e, ex') \<Rightarrow> go_on d (\<not> e, st\<lparr>exits := ex'\<rparr>))
    | Leaving \<Rightarrow> Some st
    | Stopped \<Rightarrow> Some st
    | Overrun \<Rightarrow> None)"

text \<open>A thread that takes a step reads at most one value of the flag in it.\<close>

definition loads :: "forward_pc \<Rightarrow> bool" where
  "loads pc \<longleftrightarrow> (case pc of At_head \<Rightarrow> True | Got _ \<Rightarrow> True | Wrote \<Rightarrow> True | _ \<Rightarrow> False)"

text \<open>Wherever the log flag stands, the rest of forward ends with descriptors r and w.\<close>

definition lands :: "ProxyDirection \<Rightarrow> fthread \<Rightarrow> bool list \<Rightarrow> byte rstream \<Rightarrow> byte sink \<Rightarrow> bool" where
  "lands d t ex r w \<longleftrightarrow> (\<forall>lg. \<exists>st. resume d t lg ex = Some st \<and> rd_s st = r \<and> wr_s st = w)"

lemma forward_loop_told:
  "exits st = True # ex \<Longrightarrow> forward_loop d st = Some (st\<lparr>exits := ex\<rparr>)"
  by (subst forward_loop.simps) (simp add: forward_iter_def)

lemma forward_loop_reads:
  assumes "exits st = False # ex"
  shows "forward_loop d st = (case fwd_read d (rd_s st) (buffer st) of None \<Rightarrow> None
    | Some (len, buf, s) \<Rightarrow>
        let st = st\<lparr>rd_s := s, buffer := buf, exits := ex,
                    log_communication := log_communication st \<or> len \<le> 0\<rparr>
        in if len \<le> 0 then Some st else after_read d len st)"
  by (subst forward_loop.simps)
    (use assms in \<open>auto simp: forward_iter_def after_read_def go_on_def Let_def split: option.split prod.split\<close>)

lemma lands_step:
  assumes "thread_step d e t = Some (t1, se, sl)" "lands d t1 ex r w"
  shows "lands d t (if loads (f_at t) then e # ex else ex) r w"
  unfolding lands_def
proof
  fix lg
  obtain st where st: "resume d t1 (lg \<or> sl) ex = Some st" "rd_s st = r" "wr_s st = w"
    using assms(2) unfolding lands_def by blast
  have "resume d t lg (if loads (f_at t) then e # ex else ex) = Some st"
  proof (cases "f_at t")
    case At_head
    with assms(1) st(1) show ?thesis
      by (cases e) (auto simp: thread_step_def resume_def loads_def fstate_of_def
          forward_loop_told)
  next
    case At_read
    with assms(1) st(1) show ?thesis
      by (auto simp: thread_step_def resume_def loads_def fstate_of_def Let_def after_read_def go_on_def
          forward_loop_reads split: option.splits prod.splits if_splits)
  next
    case (Got len)
    with assms(1) st(1) show ?thesis
      by (cases e) (auto simp: thread_step_def resume_def loads_def fstate_of_def after_read_def)
  next
    case (At_write len)
    with assms(1) st(1) show ?thesis
      by (cases "load ex")
         (auto simp: thread_step_def resume_def loads_def fstate_of_def go_on_def forward_write_def Let_def
          split: prod.splits if_splits)
  next
    case Wrote
    with assms(1) st(1) show ?thesis
      by (cases e) (auto simp: thread_step_def resume_def loads_def fstate_of_def go_on_def)
  qed (use assms(1) st(1) in \<open>auto simp: thread_step_def resume_def loads_def fstate_of_def\<close>)
  with st show "\<exists>st. resume d t lg (if loads (f_at t) then e # ex else ex) = Some st \<and> rd_s st = r \<and> wr_s st = w"
    by blast
qed

section \<open>Every interleaving is the two routines one after the other\<close>

text \<open>
  The values the threads read, for a run that ends with both threads stopped: ordered (the flag
  is never lowered), all True once the flag is up, and all False for at least one thread, since
  the flag goes up when a first thread has left its loop by itself.
\<close>

definition explains :: "session \<Rightarrow> session \<Rightarrow> (ProxyDirection \<Rightarrow> bool list) \<Rightarrow> bool" where
  "explains s s' ex \<longleftrightarrow>
     (\<forall>d. lands d (threads_of s d) (ex d) (f_rd (threads_of s' d)) (f_wr (threads_of s' d))
        \<and> sorted (ex d) \<and> (s_exit s \<longrightarrow> (\<forall>b \<in> set (ex d). b)))
   \<and> (s_exit s \<or> (\<exists>d. True \<notin> set (ex d)))"

lemma explains_stopped: "joined s \<Longrightarrow> explains s s (\<lambda>_. [])"
  by (simp add: explains_def joined_def lands_def resume_def fstate_of_def)

lemma sorted_bool_Cons: "sorted (b # bs) \<longleftrightarrow> sorted bs \<and> (b \<longrightarrow> (\<forall>x \<in> set bs. x))"
  by (cases b) (auto simp: le_bool_def)

lemma thread_step_exit: "thread_step d e t = Some (t1, se, sl) \<Longrightarrow> se \<longleftrightarrow> f_at t = Leaving"
  by (auto simp: thread_step_def split: forward_pc.splits option.splits prod.splits)

lemma explains_step:
  assumes "forward_step d s = Some s1" "explains s1 s' ex1"
  shows "\<exists>ex. explains s s' ex"
proof -
  let ?t = "threads_of s d"
  obtain t1 se sl where t: "thread_step d (s_exit s) ?t = Some (t1, se, sl)"
    and s1: "threads_of s1 = (threads_of s)(d := t1)" "s_exit s1 = (s_exit s \<or> se)"
    using assms(1) by (auto simp: forward_step_def)
  define exd where "exd = (if se then [] else if loads (f_at ?t) then s_exit s # ex1 d else ex1 d)"
  have l1: "lands d t1 (ex1 d) (f_rd (threads_of s' d)) (f_wr (threads_of s' d))"
    and ordered: "sorted (ex1 d)" "s_exit s1 \<longrightarrow> (\<forall>b \<in> set (ex1 d). b)"
    using assms(2) s1(1) unfolding explains_def by (metis fun_upd_same)+
  have l: "lands d ?t exd (f_rd (threads_of s' d)) (f_wr (threads_of s' d))"
  proof (cases se)
    case True
    with thread_step_exit [OF t] have at: "f_at ?t = Leaving" by simp
    with t have "t1 = ?t\<lparr>f_at := Stopped\<rparr>" by (auto simp: thread_step_def)
    with l1 at True show ?thesis by (auto simp: exd_def lands_def resume_def fstate_of_def)
  next
    case False
    with lands_step [OF t l1] show ?thesis by (simp add: exd_def)
  qed
  have e: "sorted exd" "s_exit s \<longrightarrow> (\<forall>b \<in> set exd. b)"
    using ordered s1(2) by (auto simp: exd_def sorted_bool_Cons)
  have some: "s_exit s \<or> (\<exists>d'. True \<notin> set ((ex1(d := exd)) d'))"
  proof (cases "s_exit s \<or> se")
    case True
    then show ?thesis by (auto simp: exd_def intro: exI [of _ d])
  next
    case False
    with s1(2) assms(2) obtain d' where "True \<notin> set (ex1 d')" by (auto simp: explains_def)
    with False show ?thesis by (intro disjI2 exI [of _ d']) (auto simp: exd_def)
  qed
  have "explains s s' (ex1(d := exd))"
    unfolding explains_def
  proof (intro conjI allI some)
    fix d'
    show "lands d' (threads_of s d') ((ex1(d := exd)) d') (f_rd (threads_of s' d')) (f_wr (threads_of s' d'))"
    proof (cases "d' = d")
      case False
      from assms(2) have "lands d' (threads_of s1 d') (ex1 d') (f_rd (threads_of s' d')) (f_wr (threads_of s' d'))"
        unfolding explains_def by blast
      with False s1(1) show ?thesis by simp
    qed (use l in simp)
    show "sorted ((ex1(d := exd)) d')"
      using assms(2) e(1) by (simp add: explains_def)
    show "s_exit s \<longrightarrow> (\<forall>b \<in> set ((ex1(d := exd)) d'). b)"
      using assms(2) e(2) s1(2) by (cases "d' = d") (auto simp: explains_def)
  qed
  then show ?thesis by blast
qed

lemma explains_trace:
  "trace (step_of forward_step) s ts s' \<Longrightarrow> joined s' \<Longrightarrow> \<exists>ex. explains s s' ex"
proof (induction rule: trace.induct)
  case (trace_nil s)
  then show ?case using explains_stopped by blast
next
  case (trace_cons t s s1 ts s2)
  then show ?case using explains_step by (auto simp: step_of_def)
qed

lemma forward_lands:
  assumes "lands d \<lparr>f_at = At_head, f_rd = read_end d ep, f_wr = write_end d ep, f_buf = buf\<rparr> ex r w"
  shows "\<exists>c'. forward d buf ex ep c = Some (set_ends d r w ep, c') \<and> should_exit c'"
proof -
  obtain st where "forward_loop d \<lparr>rd_s = read_end d ep, wr_s = write_end d ep, buffer = buf,
      log_communication = m_log_communication c, exits = ex\<rparr> = Some st" "rd_s st = r" "wr_s st = w"
    using assms unfolding lands_def by (auto simp: resume_def fstate_of_def)
  with forward_result [OF this(1)] show ?thesis by auto
qed

text \<open>
  What an interleaving in which both threads have stopped is explained by: values read from the
  exit flag under which forward, run on the ends of each thread, gives the thread's final ends.
\<close>

definition thread_lands :: "client_env \<Rightarrow> session \<Rightarrow> bool list \<Rightarrow> bool list \<Rightarrow> bool" where
  "thread_lands ce s exU exT \<longleftrightarrow>
     lands USB_to_TCP \<lparr>f_at = At_head, f_rd = usb_in (ce_ends ce), f_wr = tcp_out (ce_ends ce),
       f_buf = fst (ce_buffers ce)\<rparr> exU (f_rd (threads_of s USB_to_TCP)) (f_wr (threads_of s USB_to_TCP))
   \<and> lands TCP_to_USB \<lparr>f_at = At_head, f_rd = tcp_in (ce_ends ce), f_wr = usb_out (ce_ends ce),
       f_buf = snd (ce_buffers ce)\<rparr> exT (f_rd (threads_of s TCP_to_USB)) (f_wr (threads_of s TCP_to_USB))"

lemma interleaving_explained:
  assumes "trace (step_of forward_step) (start_session ce) ts s" "joined s"
  shows "\<exists>exU exT. forward_both (ce\<lparr>ce_exits := (exU, exT)\<rparr>) = Some (ends_of s)
    \<and> thread_lands ce s exU exT \<and> sorted exU \<and> sorted exT \<and> (True \<notin> set exU \<or> True \<notin> set exT)"
proof -
  obtain ex where ex: "explains (start_session ce) s ex" using explains_trace [OF assms] by blast
  let ?e = "ce_ends ce" and ?U = "threads_of s USB_to_TCP" and ?T = "threads_of s TCP_to_USB"
  have l: "thread_lands ce s (ex USB_to_TCP) (ex TCP_to_USB)"
    using ex by (force simp: thread_lands_def explains_def start_session_def
        dest: spec [of _ USB_to_TCP] spec [of _ TCP_to_USB])
  obtain c1 where f1: "forward USB_to_TCP (fst (ce_buffers ce)) (ex USB_to_TCP) ?e forwarding_ctl
      = Some (set_ends USB_to_TCP (f_rd ?U) (f_wr ?U) ?e, c1)"
    using forward_lands [of USB_to_TCP ?e] l by (force simp: thread_lands_def)
  let ?e1 = "set_ends USB_to_TCP (f_rd ?U) (f_wr ?U) ?e"
  obtain c2 where f2: "forward TCP_to_USB (snd (ce_buffers ce)) (ex TCP_to_USB) ?e1 c1
      = Some (set_ends TCP_to_USB (f_rd ?T) (f_wr ?T) ?e1, c2)"
    using forward_lands [of TCP_to_USB ?e1] l by (force simp: thread_lands_def)
  have "forward_both (ce\<lparr>ce_exits := (ex USB_to_TCP, ex TCP_to_USB)\<rparr>) = Some (ends_of s)"
    using f1 f2 by (simp add: forward_both_def ends_of_def)
  moreover have "True \<notin> set (ex USB_to_TCP) \<or> True \<notin> set (ex TCP_to_USB)"
    using ex unfolding explains_def by (auto simp: start_session_def) (metis ProxyDirection.exhaust)
  ultimately show ?thesis using ex l unfolding explains_def by blast
qed

text \<open>
  C1. The sequential composition of the two forwarding routines describes every interleaving of
  the threads.  Whatever order the two threads of a session move in, when both have stopped the
  four ends of the connection are those that forward_both computes for some values read from the
  exit flag; each thread reads False first and True from some point on, and at least one of them
  never reads True, that is, it has left its loop for a reason of its own.
\<close>

theorem interleaving_refines_forward:
  assumes "trace (step_of forward_step) (start_session ce) ts s" "joined s"
  shows "\<exists>exU exT. forward_both (ce\<lparr>ce_exits := (exU, exT)\<rparr>) = Some (ends_of s)
    \<and> sorted exU \<and> sorted exT \<and> (True \<notin> set exU \<or> True \<notin> set exT)"
  using interleaving_explained [OF assms] by blast

section \<open>Every interleaving ends\<close>

text \<open>What is left to a thread: five steps per byte or event of its descriptor, and the end.\<close>

fun steps_of :: "nat \<Rightarrow> forward_pc \<Rightarrow> nat" where
  "steps_of n At_head = 5 * n + 4"
| "steps_of n At_read = 5 * n + 3"
| "steps_of n (Got len) = 5 * n + 7"
| "steps_of n (At_write len) = 5 * n + 6"
| "steps_of n Wrote = 5 * n + 5"
| "steps_of n Leaving = 1"
| "steps_of n Stopped = 0"
| "steps_of n Overrun = 0"

definition thread_left :: "fthread \<Rightarrow> nat" where
  "thread_left t = steps_of (rsize (f_rd t)) (f_at t)"

definition session_left :: "session \<Rightarrow> nat" where
  "session_left s = (\<Sum>d\<in>UNIV. thread_left (threads_of s d))"

lemma thread_step_left:
  assumes "thread_step d e t = Some (t1, se, sl)"
  shows "thread_left t1 < thread_left t"
proof (cases "f_at t")
  case At_read
  show ?thesis
  proof (cases "fwd_read d (f_rd t) (f_buf t)")
    case None
    with At_read assms show ?thesis by (auto simp: thread_step_def thread_left_def)
  next
    case (Some r)
    then obtain len buf s where r: "fwd_read d (f_rd t) (f_buf t) = Some (len, buf, s)"
      by (cases r) auto
    with At_read assms show ?thesis
      using fwd_read_consumes [OF r] by (auto simp: thread_step_def thread_left_def split: if_splits)
  qed
qed (use assms in \<open>auto simp: thread_step_def thread_left_def split: if_splits prod.splits\<close>)

lemma session_step_left: "forward_step d s = Some s' \<Longrightarrow> session_left s' < session_left s"
  by (cases d) (auto simp: forward_step_def session_left_def UNIV_ProxyDirection dest: thread_step_left)

definition buffers_ok :: "session \<Rightarrow> bool" where
  "buffers_ok s \<longleftrightarrow> (\<forall>d. length (f_buf (threads_of s d)) = BUFFER_LEN \<and> f_at (threads_of s d) \<noteq> Overrun)"

lemma fwd_read_total:
  assumes "length buf = BUFFER_LEN"
  shows "\<exists>len buf' s'. fwd_read d s buf = Some (len, buf', s') \<and> length buf' = BUFFER_LEN"
proof (cases d)
  case USB_to_TCP
  with fwd_read_USB [OF assms] show ?thesis by (cases "sys_read BUFFER_LEN s") blast
next
  case TCP_to_USB
  show ?thesis
  proof (cases "whole_frame BUFFER_LEN (avail s)")
    case True
    then have "header_length + message_length (avail s) \<le> length buf"
      "header_length + message_length (avail s) \<le> length (avail s)"
      using assms by (auto simp: whole_frame_iff)
    with readMessage_whole [OF True assms] TCP_to_USB assms show ?thesis by (auto simp: fwd_read_def)
  next
    case False
    with readMessage_not_whole [OF False assms] TCP_to_USB show ?thesis
      by (auto simp: fwd_read_def BUFFER_LEN_def)
  qed
qed

lemma thread_step_buffer:
  assumes "thread_step d e t = Some (t1, se, sl)" "length (f_buf t) = BUFFER_LEN" "f_at t \<noteq> Overrun"
  shows "length (f_buf t1) = BUFFER_LEN \<and> f_at t1 \<noteq> Overrun"
proof -
  obtain len buf' s' where "fwd_read d (f_rd t) (f_buf t) = Some (len, buf', s')" "length buf' = BUFFER_LEN"
    using fwd_read_total [OF assms(2)] by blast
  with assms show ?thesis
    by (auto simp: thread_step_def split: forward_pc.splits prod.splits if_splits)
qed

interpretation forwarding: measured_system "\<lambda>s. \<exists>ce. s = start_session ce
    \<and> length (fst (ce_buffers ce)) = BUFFER_LEN \<and> length (snd (ce_buffers ce)) = BUFFER_LEN"
  "step_of forward_step" buffers_ok session_left
proof
  fix s s' :: session and d
  assume "buffers_ok s" "step_of forward_step d s s'"
  then obtain t1 se sl where t: "thread_step d (s_exit s) (threads_of s d) = Some (t1, se, sl)"
    "threads_of s' = (threads_of s)(d := t1)" "buffers_ok s"
    by (auto simp: step_of_def forward_step_def)
  with thread_step_buffer [OF t(1)] show "buffers_ok s'" by (simp add: buffers_ok_def)
next
  fix s s' :: session and d
  assume "step_of forward_step d s s'"
  then show "session_left s' < session_left s" by (simp add: step_of_def session_step_left)
qed (auto simp: buffers_ok_def start_session_def split: ProxyDirection.splits)

text \<open>A thread can move unless it has stopped: neither ever waits for the other.\<close>

lemma thread_can_move: "f_at t \<noteq> Stopped \<Longrightarrow> f_at t \<noteq> Overrun \<Longrightarrow> \<exists>r. thread_step d e t = Some r"
  by (auto simp: thread_step_def split: forward_pc.splits option.splits prod.splits)

lemma stuck_joined:
  assumes "buffers_ok s" "\<forall>d s'. \<not> step_of forward_step d s s'"
  shows "joined s"
  unfolding joined_def
proof
  fix d
  show "f_at (threads_of s d) = Stopped"
  proof (rule ccontr)
    assume "f_at (threads_of s d) \<noteq> Stopped"
    with assms(1) thread_can_move obtain r where "thread_step d (s_exit s) (threads_of s d) = Some r"
      unfolding buffers_ok_def by blast
    then have "\<exists>s'. forward_step d s = Some s'" by (cases r) (simp add: forward_step_def)
    with assms(2) show False by (auto simp: step_of_def)
  qed
qed

text \<open>
  C2. Forwarding ends.  Whatever the scheduler does, the two threads of a session together take
  at most five steps for each byte or event of the two descriptors and eight more; from every
  state on the way both can be brought to their end, and a state in which neither can move is
  one in which both have stopped, without a store outside a buffer.
\<close>

theorem interleaving_terminates:
  assumes "length (fst (ce_buffers ce)) = BUFFER_LEN" "length (snd (ce_buffers ce)) = BUFFER_LEN"
    and "trace (step_of forward_step) (start_session ce) ts s"
  shows "length ts \<le> 5 * (rsize (tcp_in (ce_ends ce)) + rsize (usb_in (ce_ends ce))) + 8
    \<and> (\<exists>us s'. trace (step_of forward_step) s us s' \<and> joined s')
    \<and> ((\<forall>d. forward_step d s = None) \<longleftrightarrow> joined s)"
proof -
  have i: "buffers_ok (start_session ce)" using assms(1,2) forwarding.inv_init by blast
  have "session_left (start_session ce) = 5 * (rsize (tcp_in (ce_ends ce)) + rsize (usb_in (ce_ends ce))) + 8"
    by (simp add: session_left_def thread_left_def UNIV_ProxyDirection start_session_def)
  with forwarding.trace_bounded [OF assms(3) i] have b:
    "length ts \<le> 5 * (rsize (tcp_in (ce_ends ce)) + rsize (usb_in (ce_ends ce))) + 8" by simp
  have inv: "buffers_ok s" by (rule forwarding.inv_trace [OF assms(3) i])
  have e: "\<exists>us s'. trace (step_of forward_step) s us s' \<and> joined s'"
    using forwarding.runs_on [OF inv] stuck_joined by blast
  have j: "(\<forall>d. forward_step d s = None) \<longleftrightarrow> joined s"
  proof
    assume "\<forall>d. forward_step d s = None"
    then have "\<forall>d s'. \<not> step_of forward_step d s s'" by (simp add: step_of_def)
    then show "joined s" by (rule stuck_joined [OF inv])
  next
    assume "joined s"
    then show "\<forall>d. forward_step d s = None" by (simp add: joined_def forward_step_def thread_step_def)
  qed
  from b e j show ?thesis by blast
qed

section \<open>What an interleaving delivers\<close>

lemma load_quiet: "True \<notin> set ex \<Longrightarrow> \<exists>ex'. load ex = (False, ex') \<and> True \<notin> set ex'"
  by (cases ex) auto

lemma forward_write_quiet:
  assumes "True \<notin> set (exits st)" "forward_write len st = (go, st1)"
  shows "forward_write len (st\<lparr>exits := []\<rparr>) = (go, st1\<lparr>exits := []\<rparr>) \<and> True \<notin> set (exits st1)"
  using assms load_quiet [OF assms(1)]
  by (auto simp: forward_write_def Let_def split: prod.splits if_splits)

lemma forward_iter_quiet:
  assumes "True \<notin> set (exits st)"
  shows "forward_iter d st = None \<and> forward_iter d (st\<lparr>exits := []\<rparr>) = None
    \<or> (\<exists>go st1. forward_iter d st = Some (go, st1) \<and> True \<notin> set (exits st1)
        \<and> forward_iter d (st\<lparr>exits := []\<rparr>) = Some (go, st1\<lparr>exits := []\<rparr>))"
proof -
  obtain ex1 where 1: "load (exits st) = (False, ex1)" "True \<notin> set ex1" using load_quiet [OF assms] by blast
  obtain ex2 where 2: "load ex1 = (False, ex2)" "True \<notin> set ex2" using load_quiet [OF 1(2)] by blast
  show ?thesis
  proof (cases "fwd_read d (rd_s st) (buffer st)")
    case None
    with 1 show ?thesis by (simp add: forward_iter_def)
  next
    case (Some r)
    then obtain len buf s where r: "fwd_read d (rd_s st) (buffer st) = Some (len, buf, s)" by (cases r) auto
    define st2 where "st2 = st\<lparr>rd_s := s, buffer := buf, exits := ex2,
                    log_communication := log_communication st \<or> len \<le> 0\<rparr>"
    obtain go st1 where w: "forward_write len st2 = (go, st1)" by fastforce
    have "True \<notin> set (exits st2)" using 2 by (simp add: st2_def)
    from forward_write_quiet [OF this w] have
      w': "forward_write len (st2\<lparr>exits := []\<rparr>) = (go, st1\<lparr>exits := []\<rparr>)" "True \<notin> set (exits st1)" by auto
    show ?thesis
    proof (cases "len \<le> 0")
      case True
      with r 1 show ?thesis by (auto simp: forward_iter_def Let_def)
    next
      case False
      with r 1 2 w w' show ?thesis by (simp add: forward_iter_def Let_def st2_def)
    qed
  qed
qed

lemma forward_loop_quiet:
  "True \<notin> set (exits st) \<Longrightarrow> forward_loop d st = Some st1
    \<Longrightarrow> \<exists>st2. forward_loop d (st\<lparr>exits := []\<rparr>) = Some st2 \<and> rd_s st2 = rd_s st1 \<and> wr_s st2 = wr_s st1"
proof (induction d st rule: forward_loop.induct)
  case (1 d st)
  from forward_iter_quiet [OF "1.prems"(1), of d] "1.prems"(2) obtain go st' where
    it: "forward_iter d st = Some (go, st')" "True \<notin> set (exits st')"
      "forward_iter d (st\<lparr>exits := []\<rparr>) = Some (go, st'\<lparr>exits := []\<rparr>)"
    by (auto simp: forward_loop.simps [of d st])
  show ?case
  proof (cases go)
    case True
    with "1.prems"(2) it(1) have "forward_loop d st' = Some st1" by (simp add: forward_loop.simps [of d st])
    from "1.IH" [OF it(1) refl True it(2) this] it(3) True show ?thesis
      by (simp add: forward_loop.simps [of d "st\<lparr>exits := []\<rparr>"])
  next
    case False
    with it "1.prems"(2) show ?thesis
      by (auto simp: forward_loop.simps [of d st] forward_loop.simps [of d "st\<lparr>exits := []\<rparr>"])
  qed
qed

lemma lands_loop:
  assumes "lands d \<lparr>f_at = At_head, f_rd = r0, f_wr = w0, f_buf = buf\<rparr> ex r w"
  shows "\<exists>st. forward_loop d \<lparr>rd_s = r0, wr_s = w0, buffer = buf, log_communication = False, exits = ex\<rparr> = Some st
    \<and> rd_s st = r \<and> wr_s st = w"
  using assms unfolding lands_def by (auto simp: resume_def fstate_of_def)

lemma hand_over_reliable:
  "wscript w = [] \<Longrightarrow> hand_over ms w = (w\<lparr>wlog := wlog w @ ms\<rparr>, False)"
  by (induction ms arbitrary: w) (simp_all add: io_simps)

lemma lands_frames:
  assumes "lands TCP_to_USB \<lparr>f_at = At_head, f_rd = r0, f_wr = w0, f_buf = buf\<rparr> ex r w"
    "length buf = BUFFER_LEN" "wscript w0 = []"
  shows "\<exists>ws. wlog w = wlog w0 @ ws \<and> prefix ws (frames (avail r0)) \<and> (True \<notin> set ex \<longrightarrow> ws = frames (avail r0))"
proof -
  let ?s = "\<lparr>rd_s = r0, wr_s = w0, buffer = buf, log_communication = False, exits = ex\<rparr>"
  obtain st where st: "forward_loop TCP_to_USB ?s = Some st" "wr_s st = w" using lands_loop [OF assms(1)] by blast
  obtain ws failed where "prefix ws (frames (avail r0))" "hand_over ws w0 = (w, failed)"
    "ws = frames (avail r0) \<or> failed \<or> True \<in> set ex"
    using forward_TCP_hand_over [of ?s] assms(2) st by auto
  with hand_over_reliable [OF assms(3), of ws] show ?thesis by auto
qed

lemma lands_bytes:
  assumes "lands USB_to_TCP \<lparr>f_at = At_head, f_rd = r0, f_wr = w0, f_buf = buf\<rparr> ex r w"
    "length buf = BUFFER_LEN" "wscript w0 = []"
  shows "\<exists>ws. wlog w = wlog w0 @ ws \<and> prefix (concat ws) (avail r0)
    \<and> (True \<notin> set ex \<longrightarrow> concat ws = avail r0)"
proof -
  let ?s = "\<lparr>rd_s = r0, wr_s = w0, buffer = buf, log_communication = False, exits = ex\<rparr>"
  obtain st where st: "forward_loop USB_to_TCP ?s = Some st" "wr_s st = w" using lands_loop [OF assms(1)] by blast
  obtain ws where ws: "wlog w = wlog w0 @ ws" "prefix (concat ws) (avail r0)"
    using forward_USB_any [of ?s] assms(2,3) st by auto
  have "True \<notin> set ex \<longrightarrow> concat ws = avail r0"
  proof
    assume "True \<notin> set ex"
    then obtain st2 where "forward_loop USB_to_TCP (?s\<lparr>exits := []\<rparr>) = Some st2" "wr_s st2 = w"
      using forward_loop_quiet [OF _ st(1)] st(2) by auto
    with forward_USB_any [of "?s\<lparr>exits := []\<rparr>"] assms(2,3) ws(1) show "concat ws = avail r0" by auto
  qed
  with ws show ?thesis by blast
qed

lemma session_delivers:
  assumes "length (fst (ce_buffers ce)) = BUFFER_LEN" "length (snd (ce_buffers ce)) = BUFFER_LEN"
    and "wscript (tcp_out (ce_ends ce)) = []" "wscript (usb_out (ce_ends ce)) = []"
    and "thread_lands ce s exU exT" "True \<notin> set exU \<or> True \<notin> set exT"
  shows "\<exists>ws us. wlog (usb_out (ends_of s)) = wlog (usb_out (ce_ends ce)) @ ws
    \<and> prefix ws (frames (avail (tcp_in (ce_ends ce))))
    \<and> wlog (tcp_out (ends_of s)) = wlog (tcp_out (ce_ends ce)) @ us
    \<and> prefix (concat us) (avail (usb_in (ce_ends ce)))
    \<and> (ws = frames (avail (tcp_in (ce_ends ce))) \<or> concat us = avail (usb_in (ce_ends ce)))"
proof -
  note l = assms(5) [unfolded thread_lands_def]
  from lands_frames [OF conjunct2 [OF l] assms(2,4)] lands_bytes [OF conjunct1 [OF l] assms(1,3)] assms(6)
  show ?thesis unfolding ends_of_def by (simp only: endpoints.simps) blast
qed

text \<open>
  C4. What a session delivers under every scheduling of its two threads, when both peers take
  the writes whole: the car has received the first frames of the phone's stream, the phone the
  first bytes of the car's, nothing reordered or invented, and at least one of the two
  directions is complete up to the point where its source ended, failed or stopped making sense.
\<close>

theorem interleaving_delivers:
  assumes "length (fst (ce_buffers ce)) = BUFFER_LEN" "length (snd (ce_buffers ce)) = BUFFER_LEN"
    and "wscript (tcp_out (ce_ends ce)) = []" "wscript (usb_out (ce_ends ce)) = []"
    and "trace (step_of forward_step) (start_session ce) ts s" "joined s"
  shows "\<exists>ws us. wlog (usb_out (ends_of s)) = wlog (usb_out (ce_ends ce)) @ ws
    \<and> prefix ws (frames (avail (tcp_in (ce_ends ce))))
    \<and> wlog (tcp_out (ends_of s)) = wlog (tcp_out (ce_ends ce)) @ us
    \<and> prefix (concat us) (avail (usb_in (ce_ends ce)))
    \<and> (ws = frames (avail (tcp_in (ce_ends ce))) \<or> concat us = avail (usb_in (ce_ends ce)))"
  using interleaving_explained [OF assms(5,6)] session_delivers [OF assms(1-4)] by blast

text \<open>
  C7. A phone's session, from accept to the end of forwarding, when the phone is served first
  (dongle and phone-first mode), the car asks for accessory mode in time and the descriptors
  work.  Whatever order the two forwarding threads move in until both have stopped, handleClient,
  with the values of the exit flag that order gives them, ends with their connection: the retry
  thread has been told to stop; the car sees the accessory gadget, bound to the controller found
  at start-up; it got the first frames of the phone's stream, the phone the first bytes of the
  car's, and at least one of the two got everything; and the descriptors and uevent handlers are
  as they were before the session.
\<close>

theorem session_forwards:
  assumes "ce_accept ce" "ce_open ce" "ce_timeout_set ce" "strategy (d_bt d) \<noteq> USB_FIRST"
    and "connectWithRetryPromise (d_bt d) \<noteq> Some True" "d_fds d = Listen_fd # fds"
    and "gadgets_exist (d_usb d)" "udc_name_ok (d_usb d)" "handlers (d_usb d) = []"
    and "ce_events ce = noise @ env # rest" "\<forall>env \<in> set noise. \<not> is_start env" "is_start env"
    and "length (fst (ce_buffers ce)) = BUFFER_LEN" "length (snd (ce_buffers ce)) = BUFFER_LEN"
    and "wscript (tcp_out (ce_ends ce)) = []" "wscript (usb_out (ce_ends ce)) = []"
    and "trace (step_of forward_step) (start_session ce) ts s" "joined s"
  shows "\<exists>exits ws us d'. handleClient Ring (ce\<lparr>ce_exits := exits\<rparr>) d = (Inr (Some (ends_of s)), d')
    \<and> wlog (usb_out (ends_of s)) = wlog (usb_out (ce_ends ce)) @ ws
    \<and> prefix ws (frames (avail (tcp_in (ce_ends ce))))
    \<and> wlog (tcp_out (ends_of s)) = wlog (tcp_out (ce_ends ce)) @ us
    \<and> prefix (concat us) (avail (usb_in (ce_ends ce)))
    \<and> (ws = frames (avail (tcp_in (ce_ends ce))) \<or> concat us = avail (usb_in (ce_ends ce)))
    \<and> bound_udc (d_usb d') accessoryGadgetName = s_udcName (d_usb d)
    \<and> bound_udc (d_usb d') defaultGadgetName = [] \<and> handlers (d_usb d') = []
    \<and> d_bt d' = stopped (d_bt d) \<and> d_fds d' = fds"
proof -
  obtain exU exT where ex: "forward_both (ce\<lparr>ce_exits := (exU, exT)\<rparr>) = Some (ends_of s)"
    "thread_lands ce s exU exT" "True \<notin> set exU \<or> True \<notin> set exT"
    using interleaving_explained [OF assms(17,18)] by blast
  let ?ce = "ce\<lparr>ce_exits := (exU, exT)\<rparr>"
  have sel: "ce_accept ?ce" "ce_open ?ce" "ce_timeout_set ?ce" "ce_events ?ce = noise @ env # rest"
    using assms(1-3,10) by simp_all
  obtain d' where d': "handleClient Ring ?ce d = (Inr (Some (ends_of s)), d')"
    "bound_udc (d_usb d') accessoryGadgetName = s_udcName (d_usb d)"
    "bound_udc (d_usb d') defaultGadgetName = []" "handlers (d_usb d') = []"
    "d_bt d' = stopped (d_bt d)" "d_fds d' = fds"
    using session_runs [OF sel(1-3) assms(4-9) sel(4) assms(11,12) ex(1)] by blast
  from d' session_delivers [OF assms(13-16) ex(2,3)] show ?thesis by blast
qed

section \<open>The exit flag\<close>

fun told_left :: "forward_pc \<Rightarrow> nat" where
  "told_left At_head = 2"
| "told_left At_read = 3"
| "told_left (Got len) = 2"
| "told_left (At_write len) = 3"
| "told_left Wrote = 2"
| "told_left Leaving = 1"
| "told_left Stopped = 0"
| "told_left Overrun = 0"

definition writing :: "forward_pc \<Rightarrow> bool" where
  "writing pc \<longleftrightarrow> (case pc of At_write _ \<Rightarrow> True | _ \<Rightarrow> False)"

lemma told_step:
  assumes "thread_step d True t = Some (t1, se, sl)"
  shows "told_left (f_at t1) < told_left (f_at t) \<and> f_at t1 \<noteq> At_read \<and> \<not> writing (f_at t1)
    \<and> (f_at t \<noteq> At_read \<longrightarrow> f_rd t1 = f_rd t) \<and> (\<not> writing (f_at t) \<longrightarrow> f_wr t1 = f_wr t)"
  using assms
  by (auto simp: thread_step_def writing_def split: forward_pc.splits option.splits prod.splits if_splits)

lemma told_trace:
  assumes "trace (step_of forward_step) s ts s'" "s_exit s"
  shows "s_exit s' \<and> count_list ts d + told_left (f_at (threads_of s' d)) \<le> told_left (f_at (threads_of s d))
    \<and> (f_at (threads_of s d) \<noteq> At_read \<longrightarrow> f_rd (threads_of s' d) = f_rd (threads_of s d))
    \<and> (\<not> writing (f_at (threads_of s d)) \<longrightarrow> f_wr (threads_of s' d) = f_wr (threads_of s d))"
  using assms
proof (induction rule: trace.induct)
  case (trace_nil s)
  then show ?case by simp
next
  case (trace_cons t s s1 ts s2)
  then obtain t1 se sl where t: "thread_step t True (threads_of s t) = Some (t1, se, sl)"
    "threads_of s1 = (threads_of s)(t := t1)" "s_exit s1"
    by (auto simp: step_of_def forward_step_def)
  from trace_cons.IH [OF t(3)] told_step [OF t(1)] t(2) show ?case
    by (cases "t = d") auto
qed

text \<open>
  C8. Once the exit flag is up, the session is nearly over: under every scheduling a thread takes
  at most three more steps of its own; only a thread that is at its read may still take bytes
  off its source, and only one that is at its write may still write, once.
\<close>

theorem exit_flag_stops:
  assumes "trace (step_of forward_step) s ts s'" "s_exit s"
  shows "s_exit s' \<and> count_list ts d \<le> 3
    \<and> (f_at (threads_of s d) \<noteq> At_read \<longrightarrow> f_rd (threads_of s' d) = f_rd (threads_of s d))
    \<and> (\<not> writing (f_at (threads_of s d)) \<longrightarrow> f_wr (threads_of s' d) = f_wr (threads_of s d))"
proof -
  have "told_left pc \<le> 3" for pc by (cases pc) auto
  with told_trace [OF assms, of d] show ?thesis by (meson add_leE le_trans)
qed

section \<open>A concrete session\<close>

lemma demo_session_ok:
  "length (fst (ce_buffers demo_client_env)) = BUFFER_LEN" "length (snd (ce_buffers demo_client_env)) = BUFFER_LEN"
  "wscript (tcp_out (ce_ends demo_client_env)) = []" "wscript (usb_out (ce_ends demo_client_env)) = []"
  by (simp_all add: demo_client_env_def demo_ends_def)

lemma demo_session_runs: "\<exists>ts s. trace (step_of forward_step) (start_session demo_client_env) ts s \<and> joined s"
proof -
  have "buffers_ok (start_session demo_client_env)" using demo_session_ok(1,2) forwarding.inv_init by blast
  from forwarding.runs_on [OF this] stuck_joined show ?thesis by blast
qed

theorem interleaving_refines_forward_witness:
  "\<exists>s exU exT. joined s \<and> forward_both (demo_client_env\<lparr>ce_exits := (exU, exT)\<rparr>) = Some (ends_of s)"
  using demo_session_runs interleaving_refines_forward [of demo_client_env] by blast

theorem interleaving_terminates_witness:
  "\<exists>us s'. trace (step_of forward_step) (start_session demo_client_env) us s' \<and> joined s'"
  using interleaving_terminates [OF demo_session_ok(1,2) trace_nil] by blast

theorem interleaving_delivers_witness:
  "\<exists>s ws us. joined s \<and> wlog (usb_out (ends_of s)) = ws \<and> wlog (tcp_out (ends_of s)) = us
    \<and> (ws = [[0, 3, 0, 1, 7], [0, 3, 0, 2, 8, 9]] \<or> concat us = [1, 2, 3])"
proof -
  obtain ts s where s: "trace (step_of forward_step) (start_session demo_client_env) ts s" "joined s"
    using demo_session_runs by blast
  have "wlog (usb_out demo_ends) = []" "wlog (tcp_out demo_ends) = []" "avail (usb_in demo_ends) = [1, 2, 3]"
    "ce_ends demo_client_env = demo_ends" "frames (avail (tcp_in demo_ends)) = [[0, 3, 0, 1, 7], [0, 3, 0, 2, 8, 9]]"
    using demo_frames by (simp_all add: demo_ends_def demo_client_env_def)
  with interleaving_delivers [OF demo_session_ok s] s(2) show ?thesis by auto
qed

theorem session_forwards_witness:
  "\<exists>exits s ws us d'. joined s
    \<and> handleClient Ring (demo_client_env\<lparr>ce_exits := exits\<rparr>) demo_daemon = (Inr (Some (ends_of s)), d')
    \<and> wlog (usb_out (ends_of s)) = ws \<and> wlog (tcp_out (ends_of s)) = us
    \<and> (ws = [[0, 3, 0, 1, 7], [0, 3, 0, 2, 8, 9]] \<or> concat us = [1, 2, 3]) \<and> d_fds d' = []"
proof -
  obtain ts s where s: "trace (step_of forward_step) (start_session demo_client_env) ts s" "joined s"
    using demo_session_runs by blast
  have e: "ce_accept demo_client_env" "ce_open demo_client_env" "ce_timeout_set demo_client_env"
    "ce_events demo_client_env = [Map.empty] @ start_env # []" "ce_ends demo_client_env = demo_ends"
    by (simp_all add: demo_client_env_def)
  have n: "strategy (d_bt demo_daemon) \<noteq> USB_FIRST" "connectWithRetryPromise (d_bt demo_daemon) \<noteq> Some True"
    "d_fds demo_daemon = Listen_fd # []" "gadgets_exist (d_usb demo_daemon)" "udc_name_ok (d_usb demo_daemon)"
    "handlers (d_usb demo_daemon) = []" "\<forall>env \<in> set [Map.empty]. \<not> is_start env"
    using demo_usb_ok start_env_is_start by simp_all
  have d: "wlog (usb_out demo_ends) = []" "wlog (tcp_out demo_ends) = []" "avail (usb_in demo_ends) = [1, 2, 3]"
    "frames (avail (tcp_in demo_ends)) = [[0, 3, 0, 1, 7], [0, 3, 0, 2, 8, 9]]"
    using demo_frames by (simp_all add: demo_ends_def)
  from session_forwards [OF e(1-3) n(1-6) e(4) n(7) start_env_is_start(1) demo_session_ok s] s(2)
  show ?thesis unfolding e(5) d by auto
qed

text \<open>A flag that goes up while the thread from the car is about to write: it writes and stops.\<close>

definition demo_told :: session where
  "demo_told = \<lparr>threads_of = (\<lambda>d. \<lparr>f_at = (if d = USB_to_TCP then At_write 1 else Stopped),
     f_rd = [Data [9]], f_wr = fresh_sink, f_buf = [7]\<rparr>), s_exit = True, s_log = False\<rparr>"

theorem exit_flag_stops_witness:
  "\<exists>s'. trace (step_of forward_step) demo_told [USB_to_TCP, USB_to_TCP, USB_to_TCP] s' \<and> joined s'
    \<and> f_rd (threads_of s' USB_to_TCP) = [Data [9]] \<and> wlog (f_wr (threads_of s' USB_to_TCP)) = [[7]]"
proof -
  obtain s' where r: "run_schedule forward_step [USB_to_TCP, USB_to_TCP, USB_to_TCP] demo_told = Some s'"
    "joined s'" "wlog (f_wr (threads_of s' USB_to_TCP)) = [[7]]"
    by (auto simp: demo_told_def forward_step_def thread_step_def joined_def fresh_sink_def io_simps)
  then have t: "trace (step_of forward_step) demo_told [USB_to_TCP, USB_to_TCP, USB_to_TCP] s'"
    by (simp only: run_schedule_iff)
  with exit_flag_stops [OF t, of USB_to_TCP] r show ?thesis by (auto simp: demo_told_def)
qed

end
