(* ===== verification/StopProtocol.thy ===== *)
theory StopProtocol
  imports Proxy Transition
begin

text \<open>
  How the forwarding threads of a session end each other (forward and stopForwarding in
  proxyHandler.cpp) and how handleClient joins them.  A thread that leaves its loop raises the
  exit flag and sends SIGUSR1 to both threads; the empty handler, installed without SA_RESTART,
  does nothing but end a read or write the thread is blocked in.  The data is the subject of
  Interleaving; here a step is the entry to a system call, its return, an access to the flag, the
  test of a thread object, the pthread_kill behind it, or a step of handleClient.
\<close>

section \<open>States and steps\<close>

text \<open>
  The forwarding thread: not started; at the head of the loop; before and inside its read; with
  the bytes; before and inside its write; behind it; in stopForwarding before the store of the
  flag and, for each of the two thread objects, before its test and before the pthread_kill
  behind the test; returned.
\<close>

datatype stop_pc =
    T_Unborn
  | T_Head
  | T_Enter
  | T_Reading
  | T_Got
  | T_Put
  | T_Writing
  | T_After
  | T_Store
  | T_Test_usb
  | T_Send_usb
  | T_Test_tcp
  | T_Send_tcp
  | T_Ended

text \<open>handleClient: a thread is created, then its object assigned; joined, then the object reset.\<close>

datatype session_pc =
    H_Spawn_usb
  | H_Assign_usb
  | H_Spawn_tcp
  | H_Assign_tcp
  | H_Join_usb
  | H_Reset_usb
  | H_Join_tcp
  | H_Reset_tcp
  | H_Closed

text \<open>std::optional of std::thread: nullopt, a thread, and one that join has made empty.\<close>

datatype thread_handle = No_thread | Joinable | Joined

text \<open>
  bad_kill is pthread_kill through a thread object that join has emptied, or that is no longer
  there: its native handle is 0, which the C library answers with a segmentation fault.  missed is
  a ghost: a signal to that thread came while it was not in a system call, or was not sent because
  its object was not assigned.
\<close>

record stopping =
  session_at :: session_pc
  thread_at :: "ProxyDirection \<Rightarrow> stop_pc"
  handle_of :: "ProxyDirection \<Rightarrow> thread_handle"
  flag_up :: bool
  missed :: "ProxyDirection \<Rightarrow> bool"
  bad_kill :: bool

definition stop_start :: stopping where
  "stop_start = \<lparr>session_at = H_Spawn_usb, thread_at = (\<lambda>_. T_Unborn), handle_of = (\<lambda>_. No_thread),
     flag_up = False, missed = (\<lambda>_. False), bad_kill = False\<rparr>"

definition goto :: "ProxyDirection \<Rightarrow> stop_pc \<Rightarrow> stopping \<Rightarrow> stopping" where
  "goto d pc s = s\<lparr>thread_at := (thread_at s)(d := pc)\<rparr>"

text \<open>
  The test of the optional object of thread d, and the signal sent through it when the test found
  it.  A read that is interrupted fails; a write fails or returns the bytes taken so far, and as
  the flag is up both lead to stopForwarding.
\<close>

definition miss :: "ProxyDirection \<Rightarrow> stopping \<Rightarrow> stopping" where
  "miss d s = s\<lparr>missed := (missed s)(d := True)\<rparr>"

definition kill :: "ProxyDirection \<Rightarrow> stopping \<Rightarrow> stopping" where
  "kill d s = (if handle_of s d \<noteq> Joinable then s\<lparr>bad_kill := True\<rparr>
     else if thread_at s d = T_Reading then goto d T_Store s
     else if thread_at s d = T_Writing then goto d T_After s
     else miss d s)"

text \<open>
  What the outside world answers to a system call: it is done, it fails, or (in readMessage)
  more bytes of the frame are needed, for which read is called again without a look at the flag.
\<close>

datatype outcome = Returns | Call_fails | More_bytes

definition thread_stop_step :: "ProxyDirection \<Rightarrow> outcome \<Rightarrow> stopping \<Rightarrow> stopping option" where
  "thread_stop_step d out s = (case thread_at s d of
      T_Unborn \<Rightarrow> None
    | T_Head \<Rightarrow> Some (goto d (if flag_up s then T_Store else T_Enter) s)
    | T_Enter \<Rightarrow> Some (goto d T_Reading s)
    | T_Reading \<Rightarrow> (case out of
          Returns \<Rightarrow> Some (goto d T_Got s)
        | Call_fails \<Rightarrow> Some (goto d T_Store s)
        | More_bytes \<Rightarrow> if d = TCP_to_USB then Some (goto d T_Enter s) else None)
    | T_Got \<Rightarrow> Some (goto d (if flag_up s then T_Store else T_Put) s)
    | T_Put \<Rightarrow> Some (goto d T_Writing s)
    | T_Writing \<Rightarrow> (case out of
          Returns \<Rightarrow> Some (goto d T_After s)
        | Call_fails \<Rightarrow> Some (goto d T_Store s)
        | More_bytes \<Rightarrow> None)
    | T_After \<Rightarrow> Some (goto d (if flag_up s then T_Store else T_Head) s)
    | T_Store \<Rightarrow> Some (goto d T_Test_usb (s\<lparr>flag_up := True\<rparr>))
    | T_Test_usb \<Rightarrow> Some (if handle_of s USB_to_TCP = No_thread
        then goto d T_Test_tcp (miss USB_to_TCP s) else goto d T_Send_usb s)
    | T_Send_usb \<Rightarrow> Some (goto d T_Test_tcp (kill USB_to_TCP s))
    | T_Test_tcp \<Rightarrow> Some (if handle_of s TCP_to_USB = No_thread
        then goto d T_Ended (miss TCP_to_USB s) else goto d T_Send_tcp s)
    | T_Send_tcp \<Rightarrow> Some (goto d T_Ended (kill TCP_to_USB s))
    | T_Ended \<Rightarrow> None)"

definition set_handle :: "ProxyDirection \<Rightarrow> thread_handle \<Rightarrow> stopping \<Rightarrow> stopping" where
  "set_handle d h s = s\<lparr>handle_of := (handle_of s)(d := h)\<rparr>"

definition session_stop_step :: "stopping \<Rightarrow> stopping option" where
  "session_stop_step s = (case session_at s of
      H_Spawn_usb \<Rightarrow> Some (goto USB_to_TCP T_Head (s\<lparr>session_at := H_Assign_usb\<rparr>))
    | H_Assign_usb \<Rightarrow> Some (set_handle USB_to_TCP Joinable (s\<lparr>session_at := H_Spawn_tcp\<rparr>))
    | H_Spawn_tcp \<Rightarrow> Some (goto TCP_to_USB T_Head (s\<lparr>session_at := H_Assign_tcp\<rparr>))
    | H_Assign_tcp \<Rightarrow> Some (set_handle TCP_to_USB Joinable (s\<lparr>session_at := H_Join_usb\<rparr>))
    | H_Join_usb \<Rightarrow> if thread_at s USB_to_TCP = T_Ended
        then Some (set_handle USB_to_TCP Joined (s\<lparr>session_at := H_Reset_usb\<rparr>)) else None
    | H_Reset_usb \<Rightarrow> Some (set_handle USB_to_TCP No_thread (s\<lparr>session_at := H_Join_tcp\<rparr>))
    | H_Join_tcp \<Rightarrow> if thread_at s TCP_to_USB = T_Ended
        then Some (set_handle TCP_to_USB Joined (s\<lparr>session_at := H_Reset_tcp\<rparr>)) else None
    | H_Reset_tcp \<Rightarrow> Some (set_handle TCP_to_USB No_thread (s\<lparr>session_at := H_Closed\<rparr>))
    | H_Closed \<Rightarrow> None)"

text \<open>The actor that moves: handleClient, or a forwarding thread with the answer it gets.\<close>

datatype actor = Session_thread | Forwarder ProxyDirection outcome

definition stop_step :: "actor \<Rightarrow> stopping \<Rightarrow> stopping option" where
  "stop_step a s = (if bad_kill s then None
     else (case a of Session_thread \<Rightarrow> session_stop_step s
                   | Forwarder d out \<Rightarrow> thread_stop_step d out s))"

section \<open>The invariant\<close>

definition on_way_out :: "stop_pc \<Rightarrow> bool" where
  "on_way_out pc \<longleftrightarrow> pc \<in> {T_After, T_Store, T_Test_usb, T_Send_usb, T_Test_tcp, T_Send_tcp, T_Ended}"

text \<open>The flag has been raised by this thread.\<close>

definition has_raised :: "stop_pc \<Rightarrow> bool" where
  "has_raised pc \<longleftrightarrow> pc \<in> {T_Test_usb, T_Send_usb, T_Test_tcp, T_Send_tcp, T_Ended}"

text \<open>Thread d has sent its signal to thread d', or found no object to send it to.\<close>

definition has_signalled :: "stop_pc \<Rightarrow> ProxyDirection \<Rightarrow> bool" where
  "has_signalled pc d' \<longleftrightarrow> pc = T_Ended \<or> pc \<in> {T_Test_tcp, T_Send_tcp} \<and> d' = USB_to_TCP"

text \<open>A thread that has found an object finds it assigned.\<close>

fun found_object :: "stop_pc \<Rightarrow> session_pc \<Rightarrow> bool" where
  "found_object T_Send_usb h = (h \<notin> {H_Spawn_usb, H_Assign_usb})"
| "found_object T_Send_tcp h = (h \<notin> {H_Spawn_usb, H_Assign_usb, H_Spawn_tcp, H_Assign_tcp})"
| "found_object _ h = True"

text \<open>What the place of handleClient says of a thread object and its thread.\<close>

fun handle_at :: "session_pc \<Rightarrow> ProxyDirection \<Rightarrow> thread_handle" where
  "handle_at pc USB_to_TCP = (if pc \<in> {H_Spawn_tcp, H_Assign_tcp, H_Join_usb} then Joinable
     else if pc = H_Reset_usb then Joined else No_thread)"
| "handle_at pc TCP_to_USB = (if pc \<in> {H_Join_usb, H_Reset_usb, H_Join_tcp} then Joinable
     else if pc = H_Reset_tcp then Joined else No_thread)"

definition ended_at :: "session_pc \<Rightarrow> ProxyDirection \<Rightarrow> bool" where
  "ended_at pc d \<longleftrightarrow> pc \<in> {H_Reset_tcp, H_Closed}
     \<or> d = USB_to_TCP \<and> pc \<in> {H_Reset_usb, H_Join_tcp}"

definition unborn_at :: "session_pc \<Rightarrow> ProxyDirection \<Rightarrow> bool" where
  "unborn_at pc d \<longleftrightarrow> pc = H_Spawn_usb \<or> d = TCP_to_USB \<and> pc \<in> {H_Assign_usb, H_Spawn_tcp}"

definition stop_inv :: "stopping \<Rightarrow> bool" where
  "stop_inv s \<longleftrightarrow>
     (\<forall>d. handle_of s d = handle_at (session_at s) d)
   \<and> (\<forall>d. unborn_at (session_at s) d \<longrightarrow> thread_at s d = T_Unborn)
   \<and> (\<forall>d. ended_at (session_at s) d \<longrightarrow> thread_at s d = T_Ended)
   \<and> (\<forall>d. has_raised (thread_at s d) \<longrightarrow> flag_up s)
   \<and> (\<forall>d. found_object (thread_at s d) (session_at s))
   \<and> (bad_kill s \<longrightarrow> session_at s \<in> {H_Reset_usb, H_Join_tcp} \<and> thread_at s TCP_to_USB = T_Test_tcp)
   \<and> (\<forall>d d'. has_signalled (thread_at s d) d' \<longrightarrow> \<not> bad_kill s \<longrightarrow> missed s d' \<or> on_way_out (thread_at s d'))"

lemma stop_invI:
  assumes "\<And>d. handle_of s d = handle_at (session_at s) d"
    and "\<And>d. unborn_at (session_at s) d \<Longrightarrow> thread_at s d = T_Unborn"
    and "\<And>d. ended_at (session_at s) d \<Longrightarrow> thread_at s d = T_Ended"
    and "\<And>d. has_raised (thread_at s d) \<Longrightarrow> flag_up s"
    and "\<And>d. found_object (thread_at s d) (session_at s)"
    and "bad_kill s \<Longrightarrow> session_at s \<in> {H_Reset_usb, H_Join_tcp} \<and> thread_at s TCP_to_USB = T_Test_tcp"
    and "\<And>d d'. has_signalled (thread_at s d) d' \<Longrightarrow> \<not> bad_kill s \<Longrightarrow> missed s d' \<or> on_way_out (thread_at s d')"
  shows "stop_inv s"
  using assms unfolding stop_inv_def by blast

lemma stop_invD:
  assumes "stop_inv s"
  shows "handle_of s d = handle_at (session_at s) d"
    and "unborn_at (session_at s) d \<Longrightarrow> thread_at s d = T_Unborn"
    and "ended_at (session_at s) d \<Longrightarrow> thread_at s d = T_Ended"
    and "has_raised (thread_at s d) \<Longrightarrow> flag_up s"
    and "found_object (thread_at s d) (session_at s)"
    and "bad_kill s \<Longrightarrow> session_at s \<in> {H_Reset_usb, H_Join_tcp} \<and> thread_at s TCP_to_USB = T_Test_tcp"
    and "has_signalled (thread_at s d) d' \<Longrightarrow> \<not> bad_kill s \<Longrightarrow> missed s d' \<or> on_way_out (thread_at s d')"
  using assms unfolding stop_inv_def by blast+

lemma stop_inv_init: "stop_inv stop_start"
proof (rule stop_invI)
  fix d
  show "handle_of stop_start d = handle_at (session_at stop_start) d"
    by (cases d) (simp_all add: stop_start_def)
qed (auto simp: stop_start_def ended_at_def has_signalled_def has_raised_def)

section \<open>What a step leaves alone\<close>

lemma goto_simps [simp]:
  "thread_at (goto d pc s) d' = (if d' = d then pc else thread_at s d')"
  "session_at (goto d pc s) = session_at s" "handle_of (goto d pc s) = handle_of s"
  "flag_up (goto d pc s) = flag_up s" "missed (goto d pc s) = missed s" "bad_kill (goto d pc s) = bad_kill s"
  by (simp_all add: goto_def)

lemma set_handle_simps [simp]:
  "handle_of (set_handle d h s) d' = (if d' = d then h else handle_of s d')"
  "session_at (set_handle d h s) = session_at s" "thread_at (set_handle d h s) = thread_at s"
  "flag_up (set_handle d h s) = flag_up s" "missed (set_handle d h s) = missed s"
  "bad_kill (set_handle d h s) = bad_kill s"
  by (simp_all add: set_handle_def)

lemma miss_simps [simp]:
  "thread_at (miss d s) = thread_at s" "session_at (miss d s) = session_at s" "handle_of (miss d s) = handle_of s"
  "flag_up (miss d s) = flag_up s" "missed (miss d s) d' = (d' = d \<or> missed s d')" "bad_kill (miss d s) = bad_kill s"
  by (simp_all add: miss_def)

lemma kill_frame [simp]:
  "session_at (kill d s) = session_at s" "handle_of (kill d s) = handle_of s" "flag_up (kill d s) = flag_up s"
  by (simp_all add: kill_def)

lemma kill_bad: "bad_kill (kill d s) \<longleftrightarrow> bad_kill s \<or> handle_of s d \<noteq> Joinable"
  by (simp add: kill_def)

lemma kill_missed: "missed s d' \<Longrightarrow> missed (kill d s) d'"
  by (simp add: kill_def)

lemma kill_others: "thread_at s d' \<notin> {T_Reading, T_Writing} \<or> d' \<noteq> d \<Longrightarrow> thread_at (kill d s) d' = thread_at s d'"
  by (auto simp: kill_def)

lemma kill_signals: "\<not> bad_kill (kill d s) \<Longrightarrow> missed (kill d s) d \<or> thread_at (kill d s) d \<in> {T_Store, T_After}"
  by (auto simp: kill_def split: if_splits)

lemma kill_target: "thread_at (kill d s) d' = thread_at s d' \<or> thread_at (kill d s) d' \<in> {T_Store, T_After}"
  by (auto simp: kill_def)

lemma thread_frame:
  assumes "thread_stop_step d out s = Some s'"
  shows "session_at s' = session_at s" "handle_of s' = handle_of s" "flag_up s \<Longrightarrow> flag_up s'"
    and "missed s d' \<Longrightarrow> missed s' d'"
    and "thread_at s d' = T_Ended \<Longrightarrow> thread_at s' d' = T_Ended"
    and "thread_at s d' = T_Unborn \<Longrightarrow> thread_at s' d' = T_Unborn"
    and "on_way_out (thread_at s d') \<Longrightarrow> flag_up s \<Longrightarrow> on_way_out (thread_at s' d')"
    and "d' \<noteq> d \<Longrightarrow> thread_at s' d' = thread_at s d' \<or> thread_at s' d' \<in> {T_Store, T_After}"
proof -
  have "session_at s' = session_at s \<and> handle_of s' = handle_of s \<and> (flag_up s \<longrightarrow> flag_up s')
    \<and> (missed s d' \<longrightarrow> missed s' d') \<and> (thread_at s d' = T_Ended \<longrightarrow> thread_at s' d' = T_Ended)
    \<and> (thread_at s d' = T_Unborn \<longrightarrow> thread_at s' d' = T_Unborn)"
    using assms
    by (cases "thread_at s d")
       (auto simp: thread_stop_step_def kill_missed kill_others split: outcome.splits if_splits)
  then show "session_at s' = session_at s" "handle_of s' = handle_of s" "flag_up s \<Longrightarrow> flag_up s'"
    "missed s d' \<Longrightarrow> missed s' d'" "thread_at s d' = T_Ended \<Longrightarrow> thread_at s' d' = T_Ended"
    "thread_at s d' = T_Unborn \<Longrightarrow> thread_at s' d' = T_Unborn" by blast+
  show "on_way_out (thread_at s' d')" if w: "on_way_out (thread_at s d')" "flag_up s"
    using assms w
    by (cases "thread_at s d")
       (auto simp: thread_stop_step_def on_way_out_def kill_others split: outcome.splits if_splits)
  show "thread_at s' d' = thread_at s d' \<or> thread_at s' d' \<in> {T_Store, T_After}" if "d' \<noteq> d"
    using assms that kill_target [of USB_to_TCP s d'] kill_target [of TCP_to_USB s d']
    by (cases "thread_at s d") (auto simp: thread_stop_step_def split: outcome.splits if_splits)
qed

lemma thread_flag:
  assumes "thread_stop_step d out s = Some s'" "has_raised (thread_at s' d')"
    and "\<And>d. has_raised (thread_at s d) \<Longrightarrow> flag_up s"
  shows "flag_up s'"
proof (cases "d' = d")
  case True
  with assms(1,2) assms(3) [of d] show ?thesis
    by (cases "thread_at s d") (auto simp: thread_stop_step_def has_raised_def split: outcome.splits if_splits)
next
  case False
  from thread_frame(8) [OF assms(1) False] assms(2) have "has_raised (thread_at s d')"
    by (auto simp: has_raised_def)
  from thread_frame(3) [OF assms(1) assms(3) [OF this]] show ?thesis .
qed

lemma thread_found:
  assumes "thread_stop_step d out s = Some s'" "\<And>d. handle_of s d = handle_at (session_at s) d"
    and "\<And>d. found_object (thread_at s d) (session_at s)"
  shows "found_object (thread_at s' d') (session_at s')"
proof (cases "d' = d")
  case True
  with assms(1) assms(2) [of USB_to_TCP] assms(2) [of TCP_to_USB] show ?thesis
    by (cases "thread_at s d")
       (auto simp: thread_stop_step_def thread_frame(1) [OF assms(1)] split: outcome.splits if_splits)
next
  case False
  from thread_frame(8) [OF assms(1) False] assms(3) [of d'] show ?thesis
    by (auto simp: thread_frame(1) [OF assms(1)])
qed

lemma thread_bad:
  assumes "thread_stop_step d out s = Some s'" "bad_kill s'" "\<not> bad_kill s"
  shows "thread_at s d = T_Send_usb \<and> handle_of s USB_to_TCP \<noteq> Joinable \<and> thread_at s' d = T_Test_tcp
    \<or> thread_at s d = T_Send_tcp \<and> handle_of s TCP_to_USB \<noteq> Joinable"
  using assms
  by (cases "thread_at s d") (auto simp: thread_stop_step_def kill_bad split: outcome.splits if_splits)

lemma thread_signals:
  assumes "thread_stop_step d out s = Some s'" "has_signalled (thread_at s' d1) d'" "\<not> bad_kill s'"
    and "has_signalled (thread_at s d1) d' \<Longrightarrow> missed s d' \<or> on_way_out (thread_at s d')"
    and "\<And>d. has_raised (thread_at s d) \<Longrightarrow> flag_up s"
  shows "missed s' d' \<or> on_way_out (thread_at s' d')"
proof (cases "has_signalled (thread_at s d1) d'")
  case True
  then have "has_raised (thread_at s d1)" by (auto simp: has_signalled_def has_raised_def)
  with True assms(4,5) thread_frame(4,7) [OF assms(1)] show ?thesis by blast
next
  case new: False
  have d1: "d1 = d"
  proof (rule ccontr)
    assume "d1 \<noteq> d"
    from thread_frame(8) [OF assms(1) this] new assms(2) show False by (auto simp: has_signalled_def)
  qed
  show ?thesis
  proof (cases "thread_at s d")
    case T_Send_usb
    with assms(1) have s': "s' = goto d T_Test_tcp (kill USB_to_TCP s)" by (simp add: thread_stop_step_def)
    with new assms(2) d1 have "d' = USB_to_TCP" by (simp add: has_signalled_def)
    with s' assms(3) kill_signals [of USB_to_TCP s] show ?thesis by (auto simp: on_way_out_def)
  next
    case T_Send_tcp
    with assms(1) have s': "s' = goto d T_Ended (kill TCP_to_USB s)" by (simp add: thread_stop_step_def)
    with new T_Send_tcp d1 have "d' = TCP_to_USB" by (cases d') (auto simp: has_signalled_def)
    with s' assms(3) kill_signals [of TCP_to_USB s] show ?thesis by (auto simp: on_way_out_def)
  next
    case T_Test_usb
    with assms(1,2) new d1 show ?thesis
      by (auto simp: thread_stop_step_def has_signalled_def split: if_splits)
  next
    case T_Test_tcp
    with assms(1,2) new d1 show ?thesis
      by (cases d') (auto simp: thread_stop_step_def has_signalled_def split: if_splits)
  qed (use assms(1,2) new d1 in \<open>auto simp: thread_stop_step_def has_signalled_def split: outcome.splits if_splits\<close>)
qed

section \<open>Preservation\<close>

lemma thread_keeps:
  assumes "stop_inv s" "thread_stop_step d out s = Some s'" "\<not> bad_kill s"
  shows "stop_inv s'"
proof (rule stop_invI)
  note inv = stop_invD [OF assms(1)] and frame = thread_frame [OF assms(2)]
  show "handle_of s' d' = handle_at (session_at s') d'" for d' using inv(1) frame(1,2) by simp
  show "unborn_at (session_at s') d' \<Longrightarrow> thread_at s' d' = T_Unborn" for d'
    using inv(2) frame(1,6) by simp
  show "ended_at (session_at s') d' \<Longrightarrow> thread_at s' d' = T_Ended" for d'
    using inv(3) frame(1,5) by simp
  show "has_raised (thread_at s' d') \<Longrightarrow> flag_up s'" for d'
    using thread_flag [OF assms(2)] inv(4) by blast
  show "found_object (thread_at s' d') (session_at s')" for d'
    using thread_found [OF assms(2)] inv(1,5) by blast
  show "session_at s' \<in> {H_Reset_usb, H_Join_tcp} \<and> thread_at s' TCP_to_USB = T_Test_tcp" if bad: "bad_kill s'"
  proof -
    have ne: "thread_at s d \<noteq> T_Ended" using assms(2) by (auto simp: thread_stop_step_def)
    then have at: "session_at s \<notin> {H_Reset_tcp, H_Closed}"
      and atU: "d = USB_to_TCP \<longrightarrow> session_at s \<notin> {H_Reset_usb, H_Join_tcp}"
      using inv(3) [of d] by (auto simp: ended_at_def)
    from thread_bad [OF assms(2) bad assms(3)] show ?thesis
    proof (elim disjE conjE)
      assume h: "thread_at s d = T_Send_usb" "handle_of s USB_to_TCP \<noteq> Joinable" "thread_at s' d = T_Test_tcp"
      with inv(5) [of d] inv(1) [of USB_to_TCP] at have "session_at s \<in> {H_Reset_usb, H_Join_tcp}"
        by (cases "session_at s") simp_all
      with atU have "d = TCP_to_USB" by (cases d) simp_all
      with h(3) \<open>session_at s \<in> {H_Reset_usb, H_Join_tcp}\<close> frame(1) show ?thesis by simp
    next
      assume "thread_at s d = T_Send_tcp" "handle_of s TCP_to_USB \<noteq> Joinable"
      with inv(5) [of d] inv(1) [of TCP_to_USB] at show ?thesis by (cases "session_at s") simp_all
    qed
  qed
  show "missed s' d' \<or> on_way_out (thread_at s' d')"
    if "has_signalled (thread_at s' d1) d'" "\<not> bad_kill s'" for d1 d'
    using thread_signals [OF assms(2) that] inv(4,7) assms(3) by blast
qed

lemma session_keeps:
  assumes "stop_inv s" "session_stop_step s = Some s'" "\<not> bad_kill s"
  shows "stop_inv s'"
proof (rule stop_invI)
  note inv = stop_invD [OF assms(1)]
  show "handle_of s' d' = handle_at (session_at s') d'" for d'
    using assms(2) inv(1) [of d']
    by (cases d'; cases "session_at s") (auto simp: session_stop_step_def split: if_splits)
  show "unborn_at (session_at s') d' \<Longrightarrow> thread_at s' d' = T_Unborn" for d'
    using assms(2) inv(2) [of d']
    by (cases "session_at s") (auto simp: session_stop_step_def unborn_at_def split: if_splits)
  show "ended_at (session_at s') d' \<Longrightarrow> thread_at s' d' = T_Ended" for d'
    using assms(2) inv(3) [of d']
    by (cases d'; cases "session_at s") (auto simp: session_stop_step_def ended_at_def split: if_splits)
  show "has_raised (thread_at s' d') \<Longrightarrow> flag_up s'" for d'
    using assms(2) inv(4) [of d']
    by (cases "session_at s") (auto simp: session_stop_step_def has_raised_def split: if_splits)
  show "found_object (thread_at s' d') (session_at s')" for d'
    using assms(2) inv(5) [of d'] inv(2) [of d']
    by (cases "session_at s"; cases "thread_at s d'")
       (auto simp: session_stop_step_def unborn_at_def split: if_splits)
  show "bad_kill s' \<Longrightarrow> session_at s' \<in> {H_Reset_usb, H_Join_tcp} \<and> thread_at s' TCP_to_USB = T_Test_tcp"
    using assms(2,3) by (cases "session_at s") (auto simp: session_stop_step_def split: if_splits)
  show "missed s' d' \<or> on_way_out (thread_at s' d')"
    if "has_signalled (thread_at s' d1) d'" for d1 d'
    using assms(2,3) that inv(2) [of d'] inv(7) [of d1 d']
    by (cases "session_at s")
       (auto simp: session_stop_step_def has_signalled_def on_way_out_def unborn_at_def split: if_splits)
qed

interpretation stopping: invariant_system "\<lambda>s. s = stop_start" "step_of stop_step" stop_inv
proof
  fix s s' :: stopping and a
  assume "stop_inv s" "step_of stop_step a s s'"
  then show "stop_inv s'"
    by (cases a) (auto simp: step_of_def stop_step_def intro: session_keeps thread_keeps split: if_splits)
qed (simp add: stop_inv_init)

text \<open>
  C9. Who is not told.  Under every scheduling: when one forwarding thread has returned and the
  process has not died of a signal to an empty thread object, the other has returned too or is on
  its way to stopForwarding, unless its signal came while it was between its test of the exit
  flag and the system call behind it (or inside readMessage between two reads), or before its
  object was assigned.
\<close>

theorem stop_reaches_the_other:
  assumes "trace (step_of stop_step) stop_start as s" "thread_at s d = T_Ended"
    and "\<not> bad_kill s" "\<not> missed s d'"
  shows "on_way_out (thread_at s d')"
proof -
  have "stop_inv s" using stopping.inv_reached [OF refl assms(1)] .
  from stop_invD(7) [OF this, of d d'] assms(2-4) show ?thesis by (auto simp: has_signalled_def)
qed

text \<open>
  C10. The window of the fatal signal.  Only one pthread_kill can go through an emptied or removed
  thread object: that of the thread to the car to the thread from the car, when the latter has
  returned and handleClient has joined it between the test of the object and the call (and has
  not got past the join of the thread to the car).  No thread signals itself wrongly, and the
  thread from the car never does.
\<close>

theorem bad_kill_window:
  assumes "trace (step_of stop_step) stop_start as s" "bad_kill s"
  shows "session_at s \<in> {H_Reset_usb, H_Join_tcp} \<and> thread_at s USB_to_TCP = T_Ended
    \<and> thread_at s TCP_to_USB = T_Test_tcp"
proof -
  have inv: "stop_inv s" using stopping.inv_reached [OF refl assms(1)] .
  with assms(2) stop_invD(6) have "session_at s \<in> {H_Reset_usb, H_Join_tcp}" "thread_at s TCP_to_USB = T_Test_tcp"
    by blast+
  with stop_invD(3) [OF inv, of USB_to_TCP] show ?thesis by (auto simp: ended_at_def)
qed

section \<open>The lost signal\<close>

text \<open>While the outside world does not answer thread d, only handleClient can move, up to its join.\<close>

lemma blocked_step:
  assumes "stop_inv s" "thread_at s d' = T_Ended" "d \<noteq> d'" "thread_at s d \<in> {T_Reading, T_Writing}"
    and "stop_step a s = Some s'" "\<forall>out. a \<noteq> Forwarder d out"
  shows "thread_at s' = thread_at s"
proof (cases a)
  case Session_thread
  have "\<not> unborn_at (session_at s) d" "\<not> unborn_at (session_at s) d'"
    using stop_invD(2) [OF assms(1)] assms(2,4) by force+
  with assms(3) have "session_at s \<notin> {H_Spawn_usb, H_Spawn_tcp}"
    by (cases d; cases d') (auto simp: unborn_at_def)
  with assms(5) Session_thread show ?thesis
    by (cases "session_at s") (auto simp: stop_step_def session_stop_step_def split: if_splits)
next
  case (Forwarder e out)
  with assms(6) have "e \<noteq> d" by auto
  with assms(3) have "e = d'" by (cases d; cases d'; cases e) auto
  with Forwarder assms(2,5) show ?thesis by (simp add: stop_step_def thread_stop_step_def split: if_splits)
qed

lemma blocked_trace:
  "trace (step_of stop_step) s as s' \<Longrightarrow> stop_inv s \<Longrightarrow> thread_at s d' = T_Ended \<Longrightarrow> d \<noteq> d' \<Longrightarrow>
   thread_at s d \<in> {T_Reading, T_Writing} \<Longrightarrow> \<forall>out. Forwarder d out \<notin> set as \<Longrightarrow> thread_at s' = thread_at s"
proof (induction rule: trace.induct)
  case (trace_cons a s s1 as s2)
  from trace_cons.hyps(1) have st: "stop_step a s = Some s1" by (simp add: step_of_def)
  have "thread_at s1 = thread_at s"
    by (rule blocked_step [OF trace_cons.prems(1,2,3,4) st]) (use trace_cons.prems(5) in auto)
  moreover have "stop_inv s1" using stopping.inv_step [OF trace_cons.prems(1) trace_cons.hyps(1)] .
  ultimately show ?case using trace_cons.IH trace_cons.prems by simp
qed simp

text \<open>
  C11. The lost signal.  When, in any schedule, one forwarding thread has returned while the other
  is inside a read or write, the other's signal came before that call and is lost: however the
  threads go on, as long as the outside world does not answer the call the thread stays in it,
  and handleClient does not get past the joins, with the exit flag raised all the time.
\<close>

theorem lost_signal:
  assumes "trace (step_of stop_step) stop_start as s" "thread_at s d' = T_Ended" "d \<noteq> d'"
    and "thread_at s d \<in> {T_Reading, T_Writing}"
    and "trace (step_of stop_step) s us s'" "\<forall>out. Forwarder d out \<notin> set us"
  shows "missed s d \<and> flag_up s' \<and> thread_at s' = thread_at s \<and> session_at s' \<notin> {H_Reset_tcp, H_Closed}"
proof -
  have inv: "stop_inv s" using stopping.inv_reached [OF refl assms(1)] .
  have inv': "stop_inv s'" using stopping.inv_trace [OF assms(5) inv] .
  have at: "thread_at s' = thread_at s" by (rule blocked_trace [OF assms(5) inv assms(2,3,4,6)])
  have "\<not> bad_kill s"
  proof
    assume "bad_kill s"
    from stop_invD(6) [OF inv this] have "thread_at s TCP_to_USB = T_Test_tcp" by blast
    with assms(2,3,4) show False by (cases d; cases d') auto
  qed
  with stop_invD(7) [OF inv, of d' d] assms(2,4) have "missed s d"
    by (auto simp: has_signalled_def on_way_out_def)
  moreover have "flag_up s'" using stop_invD(4) [OF inv', of d'] assms(2) at by (simp add: has_raised_def)
  moreover have "session_at s' \<notin> {H_Reset_tcp, H_Closed}"
    using stop_invD(3) [OF inv', of d] assms(4) at by (auto simp: ended_at_def)
  ultimately show ?thesis using at by blast
qed

section \<open>Concrete schedules\<close>

lemmas stop_run_simps = stop_step_def session_stop_step_def thread_stop_step_def stop_start_def goto_def
  kill_def miss_def set_handle_def

text \<open>The session is set up and the thread to the car is in its read, which fails.\<close>

definition set_up :: "actor list" where
  "set_up = [Session_thread, Session_thread, Session_thread, Session_thread]"

definition tcp_fails :: "actor list" where
  "tcp_fails = [Forwarder TCP_to_USB Returns, Forwarder TCP_to_USB Returns, Forwarder TCP_to_USB Call_fails]"

definition tcp_stops :: "actor list" where
  "tcp_stops = replicate 5 (Forwarder TCP_to_USB Returns)"

text \<open>
  The thread from the car has found the exit flag down and is about to read when the phone's side
  ends: the flag is raised and the signal sent before the read, the read is entered after it.
\<close>

lemma signal_lost:
  "\<exists>s. run_schedule stop_step
      (set_up @ [Forwarder USB_to_TCP Returns] @ tcp_fails @ tcp_stops @ [Forwarder USB_to_TCP Returns]) stop_start = Some s
    \<and> thread_at s TCP_to_USB = T_Ended \<and> thread_at s USB_to_TCP = T_Reading"
  by (simp add: stop_run_simps set_up_def tcp_fails_def tcp_stops_def eval_nat_numeral)

theorem lost_signal_witness:
  "\<exists>s. run_schedule stop_step
      (set_up @ [Forwarder USB_to_TCP Returns] @ tcp_fails @ tcp_stops @ [Forwarder USB_to_TCP Returns]) stop_start = Some s
    \<and> missed s USB_to_TCP \<and> flag_up s \<and> session_at s \<noteq> H_Closed"
proof -
  obtain s where s: "run_schedule stop_step
      (set_up @ [Forwarder USB_to_TCP Returns] @ tcp_fails @ tcp_stops @ [Forwarder USB_to_TCP Returns]) stop_start = Some s"
    "thread_at s TCP_to_USB = T_Ended" "thread_at s USB_to_TCP = T_Reading" using signal_lost by blast
  have t: "USB_to_TCP \<noteq> TCP_to_USB" "thread_at s USB_to_TCP \<in> {T_Reading, T_Writing}" using s(3) by simp_all
  from lost_signal [OF s(1) [unfolded run_schedule_iff] s(2) t trace_nil] s(1) show ?thesis by auto
qed

text \<open>The same end of the phone's side with the thread from the car already in its read.\<close>

lemma signal_arrives:
  "\<exists>s. run_schedule stop_step
      (set_up @ [Forwarder USB_to_TCP Returns, Forwarder USB_to_TCP Returns] @ tcp_fails @ tcp_stops) stop_start = Some s
    \<and> thread_at s TCP_to_USB = T_Ended \<and> \<not> missed s USB_to_TCP \<and> \<not> bad_kill s"
  by (simp add: stop_run_simps set_up_def tcp_fails_def tcp_stops_def eval_nat_numeral)

theorem stop_reaches_the_other_witness:
  "\<exists>s. run_schedule stop_step
      (set_up @ [Forwarder USB_to_TCP Returns, Forwarder USB_to_TCP Returns] @ tcp_fails @ tcp_stops) stop_start = Some s
    \<and> on_way_out (thread_at s USB_to_TCP)"
  using signal_arrives unfolding run_schedule_iff by (blast intro: stop_reaches_the_other)

text \<open>
  The thread to the car has raised the flag and found the other's object but not yet sent its
  signal when the other one sees the flag, returns and is joined, and its object is reset: the
  call then goes through an object that is no longer there.
\<close>

definition usb_sees_flag :: "actor list" where
  "usb_sees_flag = replicate 6 (Forwarder USB_to_TCP Returns)"

definition flag_seen_first :: "actor list" where
  "flag_seen_first = set_up @ tcp_fails @ [Forwarder TCP_to_USB Returns, Forwarder TCP_to_USB Returns]
     @ usb_sees_flag @ [Session_thread, Session_thread, Forwarder TCP_to_USB Returns]"

lemma flag_seen_first_crashes: "\<exists>s. run_schedule stop_step flag_seen_first stop_start = Some s \<and> bad_kill s"
  by (simp add: stop_run_simps flag_seen_first_def set_up_def tcp_fails_def usb_sees_flag_def eval_nat_numeral)

theorem bad_kill_window_witness:
  "\<exists>s. run_schedule stop_step flag_seen_first stop_start = Some s \<and> bad_kill s
    \<and> session_at s \<in> {H_Reset_usb, H_Join_tcp} \<and> thread_at s USB_to_TCP = T_Ended"
  using flag_seen_first_crashes unfolding run_schedule_iff by (blast dest: bad_kill_window)

end
