(* ===== verification/Daemon.thy ===== *)
theory Daemon
  imports Server Transition
begin

text \<open>
  The daemon as a whole (aawgd.cpp): the set-up, the main loop, and the threads beside it as
  actors that move in any order: the thread of the proxy (handleClient), the Bluetooth retry
  thread (retryConnectLoop), the thread of the control socket, and the uevent monitor.  A step
  is one operation of one actor on the state they share, the daemon of Server, so the operations
  of different threads interleave freely but each of them runs as a whole.  The finer orders are
  the subject of the protocols: RetryProtocol splits stopConnectWithRetry, AccessoryWait the wait
  and the clean-up, Interleaving and StopProtocol the two forwarding threads.
\<close>

section \<open>Set-up\<close>

text \<open>UeventMonitor::start: whether the monitor thread runs, by the results of its system calls.\<close>

definition UeventMonitor_start :: "bool \<Rightarrow> bool \<Rightarrow> bool \<Rightarrow> unit option" where
  "UeventMonitor_start socket_ok bind_ok setsockopt_ok =
     (if \<not> socket_ok then None
      else if \<not> bind_ok then None
      else if \<not> setsockopt_ok then None
      else Some ())"

text \<open>entries are the names in /sys/class/udc/, None when the directory cannot be opened.\<close>

definition daemon_setup :: "'w bus \<Rightarrow> host \<Rightarrow> string list option \<Rightarrow> ('w, unit) d_eff" where
  "daemon_setup bus h entries =
     andthen (on_usb (UsbManager_init entries)) (\<lambda>_.
     andthen (on_bt (bt_init bus h)) (\<lambda>_ d.
       if strategy (d_bt d) = DONGLE_MODE then on_bt (powerOn bus) d else ret () d))"

section \<open>The threads\<close>

text \<open>
  The main loop before the wait for the car (line 31), startServer (35), powerOn (42),
  connectWithRetry (45), the join of the proxy's thread (47), stopConnectWithRetry (50), the join
  of the retry thread (51), the clean-up (54), and behind it (the sleep, and the way back to the
  head of the loop); or main has returned.
\<close>

datatype daemon_pc = N_Wait | N_Server | N_Power | N_Connect | N_Join_proxy | N_Stop
  | N_Join_retry | N_Clean | N_Sleep | N_Exit

text \<open>
  handleClient: not started, before accept, before the wait for the car, with the answer of that
  wait, returned.
\<close>

datatype handler_pc = X_None | X_Accept | X_Wait | X_Ready "bool option" | X_Done

text \<open>retryConnectLoop: not started, before an attempt, in the wait, before the power-off, returned.\<close>

datatype loop_pc = B_None | B_Connect | B_Wait | B_Off | B_Done

text \<open>The requests of the control socket that reach the Bluetooth handler.\<close>

datatype request = List_devices | Disconnect_all | Switch_to string

text \<open>
  pr_request is a request that has stopped the retrying and has the rest before it.  pr_late says
  that the handler of a wait that has timed out holds the promise and has not switched the gadgets
  yet; pr_switched is a ghost: such a switch has come since the last clean-up.  pr_fault is the
  exception that left a thread, which ends the process.
\<close>

record 'w process =
  pr_daemon :: "'w daemon"
  pr_main :: daemon_pc
  pr_proxy :: handler_pc
  pr_retry :: loop_pc
  pr_request :: "request option"
  pr_late :: bool
  pr_switched :: bool
  pr_fault :: "fault option"

definition start_process :: "'w daemon \<Rightarrow> 'w process" where
  "start_process d = \<lparr>pr_daemon = d, pr_main = N_Wait, pr_proxy = X_None, pr_retry = B_None,
     pr_request = None, pr_late = False, pr_switched = False, pr_fault = None\<rparr>"

text \<open>An operation and what follows it; an exception ends the process.\<close>

definition act :: "('w, 'a) d_eff \<Rightarrow> ('a \<Rightarrow> 'w process \<Rightarrow> 'w process option) \<Rightarrow> 'w process \<Rightarrow> 'w process option" where
  "act f k s = (case f (pr_daemon s) of
      (Inl e, d) \<Rightarrow> Some (s\<lparr>pr_daemon := d, pr_fault := Some e\<rparr>)
    | (Inr x, d) \<Rightarrow> k x (s\<lparr>pr_daemon := d\<rparr>))"

section \<open>The main thread\<close>

definition wait_for_car :: "list_impl \<Rightarrow> UeventEnv list \<Rightarrow> ('w, bool option) d_eff" where
  "wait_for_car impl evs = (\<lambda>d.
     if strategy (d_bt d) = USB_FIRST then on_usb (enableDefaultAndWaitForAccessory impl 0 evs) d
     else ret (Some True) d)"

definition power_up :: "'w bus \<Rightarrow> ('w, unit) d_eff" where
  "power_up bus = (\<lambda>d. if strategy (d_bt d) \<noteq> DONGLE_MODE then on_bt (powerOn bus) d else ret () d)"

text \<open>
  A wait without a timeout that has not been answered (None) is a step the thread does not take.
  evs are the messages of the wait, se what the system calls of startServer answer.
\<close>

definition main_step ::
    "'w bus \<Rightarrow> list_impl \<Rightarrow> host \<Rightarrow> UeventEnv list \<Rightarrow> server_env \<Rightarrow> 'w process \<Rightarrow> 'w process option" where
  "main_step bus impl h evs se s = (case pr_main s of
      N_Wait \<Rightarrow> act (wait_for_car impl evs) (\<lambda>w s.
        if w = None then None else Some (s\<lparr>pr_main := N_Server\<rparr>)) s
    | N_Server \<Rightarrow> act (startServer se (port (getWifiInfo h))) (\<lambda>proxyThread s.
        if proxyThread = None then Some (s\<lparr>pr_main := N_Exit\<rparr>)
        else Some (s\<lparr>pr_main := N_Power, pr_proxy := X_Accept\<rparr>)) s
    | N_Power \<Rightarrow> act (power_up bus) (\<lambda>_ s. Some (s\<lparr>pr_main := N_Connect\<rparr>)) s
    | N_Connect \<Rightarrow> act (on_bt connectWithRetry) (\<lambda>btConnectionThread s. Some (s\<lparr>pr_main := N_Join_proxy,
        pr_retry := (if btConnectionThread = None then B_None else B_Connect)\<rparr>)) s
    | N_Join_proxy \<Rightarrow> if pr_proxy s = X_Done
        then Some (s\<lparr>pr_main := (if pr_retry s = B_None then N_Clean else N_Stop)\<rparr>) else None
    | N_Stop \<Rightarrow> act (on_bt stopConnectWithRetry) (\<lambda>_ s. Some (s\<lparr>pr_main := N_Join_retry\<rparr>)) s
    | N_Join_retry \<Rightarrow> if pr_retry s = B_Done then Some (s\<lparr>pr_main := N_Clean\<rparr>) else None
    | N_Clean \<Rightarrow> act (on_usb disableGadgets) (\<lambda>_ s. Some (s\<lparr>pr_main := N_Sleep, pr_switched := False\<rparr>)) s
    | N_Sleep \<Rightarrow> Some (s\<lparr>pr_main := N_Wait\<rparr>)
    | N_Exit \<Rightarrow> None)"

section \<open>The other threads\<close>

text \<open>
  handleClient.  held says that, when the wait times out, its handler has just taken hold of the
  promise.  While the monitor is still inside a handler no message reaches a new wait.
\<close>

definition proxy_step :: "list_impl \<Rightarrow> client_env \<Rightarrow> bool \<Rightarrow> 'w process \<Rightarrow> 'w process option" where
  "proxy_step impl ce held s = (case pr_proxy s of
      X_None \<Rightarrow> None
    | X_Accept \<Rightarrow> if ce_accept ce then act accept_phone (\<lambda>_ s. Some (s\<lparr>pr_proxy := X_Wait\<rparr>)) s
        else act (close_fd Listen_fd) (\<lambda>_ s. Some (s\<lparr>pr_proxy := X_Done\<rparr>)) s
    | X_Wait \<Rightarrow> if pr_late s \<and> ce_events ce \<noteq> [] then None
        else act (accessory_ready impl ce) (\<lambda>accessory s. Some (s\<lparr>pr_proxy := X_Ready accessory,
          pr_late := pr_late s \<or> accessory = Some False \<and> held\<rparr>)) s
    | X_Ready accessory \<Rightarrow> act (serve_rest ce accessory) (\<lambda>_ s. Some (s\<lparr>pr_proxy := X_Done\<rparr>)) s
    | X_Done \<Rightarrow> None)"

definition retry_step :: "'w bus \<Rightarrow> 'w process \<Rightarrow> 'w process option" where
  "retry_step bus s = (case pr_retry s of
      B_None \<Rightarrow> None
    | B_Connect \<Rightarrow> act (on_bt (connectDevice bus)) (\<lambda>_ s. Some (s\<lparr>pr_retry := B_Wait\<rparr>)) s
    | B_Wait \<Rightarrow> if connectWithRetryPromise (d_bt (pr_daemon s)) = Some True
        then act (on_bt (\<lambda>b. ret () (b\<lparr>connectWithRetryPromise := None\<rparr>))) (\<lambda>_ s. Some (s\<lparr>pr_retry := B_Off\<rparr>)) s
        else Some (s\<lparr>pr_retry := B_Connect\<rparr>)
    | B_Off \<Rightarrow> act (on_bt (\<lambda>b. if strategy b \<noteq> DONGLE_MODE then powerOff bus b else ret () b))
        (\<lambda>_ s. Some (s\<lparr>pr_retry := B_Done\<rparr>)) s
    | B_Done \<Rightarrow> None)"

text \<open>
  The control socket: a listing is one operation, the other two requests first stop the retrying
  (unless there is no connection to BlueZ) and then go on.
\<close>

definition request_step :: "'w bus \<Rightarrow> request \<Rightarrow> 'w process \<Rightarrow> 'w process option" where
  "request_step bus q s = (if pr_request s \<noteq> None then None
     else if q = List_devices then act (on_bt (listDevices bus)) (\<lambda>_ s. Some s) s
     else if \<not> m_connection (d_bt (pr_daemon s)) then Some s
     else act (on_bt stopConnectWithRetry) (\<lambda>_ s. Some (s\<lparr>pr_request := Some q\<rparr>)) s)"

definition request_rest :: "'w bus \<Rightarrow> 'w process \<Rightarrow> 'w process option" where
  "request_rest bus s = (case pr_request s of
      Some (Switch_to selector) \<Rightarrow>
        act (on_bt (switch_rest bus selector)) (\<lambda>_ s. Some (s\<lparr>pr_request := None\<rparr>)) s
    | Some Disconnect_all \<Rightarrow>
        act (on_bt (\<lambda>b. disconnectAllConnectedDevices bus (b\<lparr>m_preferredDeviceObjectPath := None\<rparr>)))
          (\<lambda>_ s. Some (s\<lparr>pr_request := None\<rparr>)) s
    | _ \<Rightarrow> None)"

text \<open>
  The monitor outside the waits: a message, which finds no handler whose promise is alive; and the
  rest of a handler that was overtaken by its timeout.
\<close>

definition message_step :: "list_impl \<Rightarrow> UeventEnv \<Rightarrow> 'w process \<Rightarrow> 'w process option" where
  "message_step impl env s = (if pr_late s then None else act (on_usb (usb_uevent impl env)) (\<lambda>_ s. Some s) s)"

definition late_step :: "'w process \<Rightarrow> 'w process option" where
  "late_step s = (if pr_late s
     then act (on_usb switchToAccessoryGadget) (\<lambda>_ s. Some (s\<lparr>pr_late := False, pr_switched := True\<rparr>)) s
     else None)"

text \<open>Who moves, and what the thread meets in its step.\<close>

datatype daemon_actor =
    Main_turn "UeventEnv list" server_env
  | Proxy_turn client_env bool
  | Retry_turn
  | Request_turn request
  | Request_rest_turn
  | Message_turn UeventEnv
  | Late_switch

definition daemon_step :: "'w bus \<Rightarrow> list_impl \<Rightarrow> host \<Rightarrow> daemon_actor \<Rightarrow> 'w process \<Rightarrow> 'w process option" where
  "daemon_step bus impl h a s = (if pr_fault s \<noteq> None \<or> pr_main s = N_Exit then None
     else (case a of
        Main_turn evs se \<Rightarrow> main_step bus impl h evs se s
      | Proxy_turn ce held \<Rightarrow> proxy_step impl ce held s
      | Retry_turn \<Rightarrow> retry_step bus s
      | Request_turn q \<Rightarrow> request_step bus q s
      | Request_rest_turn \<Rightarrow> request_rest bus s
      | Message_turn env \<Rightarrow> message_step impl env s
      | Late_switch \<Rightarrow> late_step s))"

section \<open>What the operations on BlueZ leave alone\<close>

text \<open>
  An operation all of whose calls satisfy P and that leaves the strategy, the connection, the
  adapter and the promise as they are.
\<close>

definition bt_keeps :: "'w bt \<Rightarrow> 'w bt \<Rightarrow> bool" where
  "bt_keeps b b' \<longleftrightarrow> strategy b' = strategy b \<and> m_connection b' = m_connection b
     \<and> m_adapter b' = m_adapter b \<and> connectWithRetryPromise b' = connectWithRetryPromise b"

definition makes :: "(dbus_call \<Rightarrow> bool) \<Rightarrow> ('w, 'a) bt_eff \<Rightarrow> bool" where
  "makes P f \<longleftrightarrow> (\<forall>b. \<exists>cs. calls (snd (f b)) = calls b @ cs \<and> (\<forall>c \<in> set cs. P (fst c))
     \<and> bt_keeps b (snd (f b)))"

named_theorems makes_intros \<open>what operations are made of\<close>

lemma makesI:
  assumes "\<And>b. \<exists>cs. calls (snd (f b)) = calls b @ cs \<and> (\<forall>c \<in> set cs. P (fst c)) \<and> bt_keeps b (snd (f b))"
  shows "makes P f"
  using assms by (simp add: makes_def)

lemma makesD:
  assumes "makes P f" "f b = (r, b')"
  obtains cs where "calls b' = calls b @ cs" "\<forall>c \<in> set cs. P (fst c)" "bt_keeps b b'"
  using assms unfolding makes_def by (metis snd_conv)

lemma makes_ret [makes_intros]: "makes P (ret x)" "makes P (Pair r)" "makes P (throw e)"
  by (rule makesI, simp add: bt_keeps_def)+

lemma makes_andthen [makes_intros]:
  assumes "makes P f" "\<And>x. makes P (g x)"
  shows "makes P (andthen f g)"
proof (rule makesI)
  fix b
  obtain r b1 where f: "f b = (r, b1)" by fastforce
  obtain cs where cs: "calls b1 = calls b @ cs" "\<forall>c \<in> set cs. P (fst c)" "bt_keeps b b1"
    using assms(1) f by (rule makesD)
  show "\<exists>cs. calls (snd (andthen f g b)) = calls b @ cs \<and> (\<forall>c \<in> set cs. P (fst c))
      \<and> bt_keeps b (snd (andthen f g b))"
  proof (cases r)
    case (Inl e)
    with f cs show ?thesis by auto
  next
    case (Inr x)
    obtain r2 b2 where g: "g x b1 = (r2, b2)" by fastforce
    obtain ds where "calls b2 = calls b1 @ ds" "\<forall>c \<in> set ds. P (fst c)" "bt_keeps b1 b2"
      using assms(2) g by (rule makesD)
    with f g Inr cs show ?thesis by (intro exI [of _ "cs @ ds"]) (auto simp: bt_keeps_def)
  qed
qed

lemma makes_catch [makes_intros]:
  assumes "makes P f" "makes P g"
  shows "makes P (catch f g)"
proof -
  have "catch f g = (\<lambda>b. andthen (\<lambda>b. case f b of (r, b') \<Rightarrow> (Inr r, b'))
      (\<lambda>r. case r of Inl e \<Rightarrow> g | Inr x \<Rightarrow> ret x) b)"
    by (auto simp: catch_def andthen_def fun_eq_iff split: prod.split sum.split)
  moreover have "makes P (\<lambda>b. case f b of (r, b') \<Rightarrow> (Inr r :: _ + _, b'))"
    using assms(1) by (simp add: makes_def case_prod_beta)
  moreover have "makes P (case r of Inl e \<Rightarrow> g | Inr x \<Rightarrow> ret x)" for r :: "fault + 'b"
    using assms(2) makes_ret(1) by (cases r) simp_all
  ultimately show ?thesis by (metis makes_andthen)
qed

lemma makes_of:
  "(\<And>x. makes P (f x)) \<Longrightarrow> makes P (\<lambda>b. f (strategy b) b)"
  "(\<And>x. makes P (g x)) \<Longrightarrow> makes P (\<lambda>b. g (m_preferredDeviceObjectPath b) b)"
  "(\<And>x. makes P (k x)) \<Longrightarrow> makes P (\<lambda>b. k (m_adapterAlias b) b)"
  by (simp_all add: makes_def)

lemma makes_if [makes_intros]: "makes P f \<Longrightarrow> makes P g \<Longrightarrow> makes P (if q then f else g)"
  "makes P f \<Longrightarrow> makes P g \<Longrightarrow> makes P (\<lambda>b. if Q b then f b else g b)"
  by (simp_all add: makes_def)

lemma makes_option [makes_intros]:
  "makes P f \<Longrightarrow> (\<And>a. makes P (g a)) \<Longrightarrow> makes P (case x of None \<Rightarrow> f | Some a \<Rightarrow> g a)"
  "makes P f \<Longrightarrow> (\<And>a. makes P (g a)) \<Longrightarrow> makes P (\<lambda>b. case X b of None \<Rightarrow> f b | Some a \<Rightarrow> g a b)"
  by (simp_all add: makes_def split: option.split)

lemma makes_preferred [makes_intros]:
  "makes P f \<Longrightarrow> makes P (\<lambda>b. f (b\<lparr>m_preferredDeviceObjectPath := x\<rparr>))"
  unfolding makes_def
proof
  fix b assume "\<forall>b. \<exists>cs. calls (snd (f b)) = calls b @ cs \<and> (\<forall>c \<in> set cs. P (fst c)) \<and> bt_keeps b (snd (f b))"
  from this [rule_format, of "b\<lparr>m_preferredDeviceObjectPath := x\<rparr>"]
  show "\<exists>cs. calls (snd (f (b\<lparr>m_preferredDeviceObjectPath := x\<rparr>))) = calls b @ cs
      \<and> (\<forall>c \<in> set cs. P (fst c)) \<and> bt_keeps b (snd (f (b\<lparr>m_preferredDeviceObjectPath := x\<rparr>)))"
    by (simp add: bt_keeps_def)
qed

lemma makes_typed [makes_intros]: "P c \<Longrightarrow> makes P (dbus_typed bus c as)"
proof (rule makesI)
  fix b assume "P c"
  then show "\<exists>cs. calls (snd (dbus_typed bus c as b)) = calls b @ cs
      \<and> (\<forall>c \<in> set cs. P (fst c)) \<and> bt_keeps b (snd (dbus_typed bus c as b))"
    by (cases rule: dbus_typed_cases [of bus c as b]) (simp_all add: bt_frame_def bt_keeps_def)
qed

lemma makes_calls [makes_intros]:
  "P c \<Longrightarrow> makes P (dbus_void bus c)" "P (Get p q) \<Longrightarrow> makes P (dbus_bool bus p q)"
  "P (Get p q) \<Longrightarrow> makes P (dbus_string bus p q)" "P GetManagedObjects \<Longrightarrow> makes P (getBluezObjects bus)"
  "P (RegisterObject p obj) \<Longrightarrow> makes P (register_object bus p obj)"
  by (simp_all add: dbus_void_def dbus_bool_def dbus_string_def dbus_objects_def getBluezObjects_def
      register_object_def makes_typed makes_catch makes_ret)

lemma makes_read_into [makes_intros]:
  assumes "makes P rd" "\<And>info. makes P (go info)"
  shows "makes P (read_into rd upd go info)"
proof -
  have "read_into rd upd go info = andthen (\<lambda>b. case rd b of (r, b') \<Rightarrow> (Inr r :: fault + _, b'))
      (\<lambda>r. case r of Inl e \<Rightarrow> ret info | Inr v \<Rightarrow> go (upd v info))"
    by (auto simp: read_into_def andthen_def fun_eq_iff split: prod.split sum.split)
  moreover have "makes P (\<lambda>b. case rd b of (r, b') \<Rightarrow> (Inr r :: fault + _, b'))"
    using assms(1) by (simp add: makes_def case_prod_beta)
  moreover have "makes P (case r of Inl e \<Rightarrow> ret info | Inr v \<Rightarrow> go (upd v info))" for r :: "fault + 'b"
    using assms(2) makes_ret(1) by (cases r) simp_all
  ultimately show ?thesis by (metis makes_andthen)
qed

text \<open>The calls that set the power of an adapter.\<close>

fun is_power :: "dbus_call \<Rightarrow> bool" where
  "is_power (SetBool p q v) \<longleftrightarrow> q = ''Powered''"
| "is_power _ \<longleftrightarrow> False"

abbreviation no_power :: "('w, 'a) bt_eff \<Rightarrow> bool" where
  "no_power \<equiv> makes (\<lambda>c. \<not> is_power c)"

lemma no_power_connectDeviceByObjectPath [makes_intros]: "no_power (connectDeviceByObjectPath bus p)"
  unfolding connectDeviceByObjectPath_def Let_def
  by (rule makes_of(1)) (intro makes_intros; simp)

lemma no_power_connect_loop [makes_intros]: "no_power (connect_loop bus ps)"
  by (induction ps) (simp_all add: makes_intros)

lemma no_power_disconnect_loop [makes_intros]: "no_power (disconnect_loop bus os)"
  by (induction os) (simp_all add: makes_intros)

lemma no_power_list_loop [makes_intros]: "no_power (list_loop bus os)"
  by (induction os) (simp_all add: makes_intros read_device_info_def)

lemma no_power_connectDevice: "no_power (connectDevice bus)"
proof -
  have "no_power (\<lambda>b. connect_loop bus (connect_order (m_preferredDeviceObjectPath b) ps) b)" for ps
    by (rule makes_of(2)) (intro makes_intros)
  then show ?thesis unfolding connectDevice_def by (intro makes_intros) simp_all
qed

lemma no_power_requests:
  "no_power (listDevices bus)" "no_power (switch_rest bus sel)"
  "no_power (\<lambda>b. disconnectAllConnectedDevices bus (b\<lparr>m_preferredDeviceObjectPath := x\<rparr>))"
proof -
  show list: "no_power (listDevices bus)"
    unfolding listDevices_def by (intro makes_intros) simp_all
  show "no_power (\<lambda>b. disconnectAllConnectedDevices bus (b\<lparr>m_preferredDeviceObjectPath := x\<rparr>))"
    unfolding disconnectAllConnectedDevices_def by (intro makes_intros) simp_all
  show "no_power (switch_rest bus sel)"
    unfolding switch_rest_def disconnectAllConnectedDevices_def by (intro makes_intros list) simp_all
qed

lemma powerOn_keeps: "makes (\<lambda>_. True) (powerOn bus)"
proof -
  have "makes (\<lambda>_. True) (\<lambda>b. andthen (register_object bus p (Advertisement (advertisement (m_adapterAlias b))))
      (\<lambda>_. dbus_void bus c) b)" for p c
    by (rule makes_of(3)) (intro makes_intros TrueI)
  then have "makes (\<lambda>_. True) (startAdvertising bus)"
    unfolding startAdvertising_def by (intro makes_intros)
  then show ?thesis unfolding powerOn_def setPower_def setPairable_def by (intro makes_intros TrueI)
qed

lemma exportProfiles_keeps: "makes (\<lambda>_. True) (exportProfiles bus)"
  unfolding exportProfiles_def by (intro makes_intros TrueI)

text \<open>The last thing said about power was to switch the adapter off, and BlueZ did not object.\<close>

definition powered_off :: "'w bt \<Rightarrow> bool" where
  "powered_off b \<longleftrightarrow> (\<forall>a. m_adapter b = Some a \<and> strategy b \<noteq> DONGLE_MODE \<longrightarrow>
     (let cs = filter (\<lambda>c. is_power (fst c)) (calls b)
      in cs \<noteq> [] \<and> last cs = (SetBool a ''Powered'' False, True)))"

lemma powered_off_stays:
  assumes "no_power f" "f b = (r, b')" "powered_off b"
  shows "powered_off b'"
proof -
  obtain cs where "calls b' = calls b @ cs" "\<forall>c \<in> set cs. \<not> is_power (fst c)" "bt_keeps b b'"
    using assms(1,2) by (rule makesD)
  with assms(3) show ?thesis by (simp add: powered_off_def bt_keeps_def Let_def)
qed

lemma powerOff_powers_off:
  assumes "(if strategy b \<noteq> DONGLE_MODE then powerOff bus b else ret () b) = (Inr (), b')"
  shows "powered_off b' \<and> bt_keeps b b'"
proof (cases "strategy b = DONGLE_MODE \<or> m_adapter b = None")
  case True
  with assms show ?thesis
    by (auto simp: powered_off_def bt_keeps_def powerOff_def split: if_splits)
next
  case False
  then obtain a where a: "m_adapter b = Some a" by auto
  have v: "dbus_void bus (SetBool a ''Powered'' False) b = (Inr (), b')"
    using assms False a by (simp add: powerOff_def setPower_def)
  then have "bt_frame b [(SetBool a ''Powered'' False, True)] b'"
    by (cases rule: dbus_void_cases [of bus "SetBool a ''Powered'' False" b]) auto
  from bt_frameD [OF this] a show ?thesis by (simp add: powered_off_def bt_keeps_def)
qed

section \<open>What the operations on the gadgets leave alone\<close>

text \<open>Outside the waits no promise is alive, and no message changes a gadget.\<close>

definition no_wait :: "usb \<Rightarrow> bool" where
  "no_wait u \<longleftrightarrow> (\<forall>p. \<not> promise_alive u p)"

lemma call_handlers_invariant:
  assumes "\<And>h s. I s \<Longrightarrow> I (snd (call h s))" "I s"
  shows "I (snd (call_handlers impl call kept hs s))"
  using assms
proof (induction impl call kept hs s rule: call_handlers.induct)
  case (2 impl call kept h rest s)
  obtain r s1 where c: "call h s = (r, s1)" by fastforce
  have I: "I s1" using 2(4) [OF 2(5), of h] c by simp
  show ?case
  proof (cases r)
    case (Inl e)
    with c I show ?thesis by simp
  next
    case (Inr b)
    show ?thesis
      using 2(1) [OF c [symmetric] Inr _ _ _ 2(4) I] 2(2) [OF c [symmetric] Inr _ _ 2(4) I]
        2(3) [OF c [symmetric] Inr _ 2(4) I] c Inr I
      by (auto split: bool.split list.split list_impl.split)
  qed
qed simp

lemma switch_keeps_promises:
  "promise_alive (snd (switchToAccessoryGadget u)) = promise_alive u"
  "promise_alive (snd (disableGadgets u)) = promise_alive u"
  by (auto simp: switchToAccessoryGadget_def disableGadgets_def disableGadget_def enableGadget_def
      writeGadgetFile_def andthen_def split: option.split)

lemma handler_keeps_promises: "promise_alive (snd (accessory_handler p env u)) = promise_alive u"
  using switch_keeps_promises(1) [of u]
  by (cases "switchToAccessoryGadget u" rule: prod.exhaust)
     (auto simp: accessory_handler_def andthen_def split: sum.split)

lemma usb_uevent_promises: "promise_alive (snd (usb_uevent impl env u)) = promise_alive u"
  using call_handlers_invariant [of "\<lambda>v. promise_alive v = promise_alive u" "\<lambda>h. accessory_handler h env" u]
  by (auto simp: usb_uevent_def handler_keeps_promises split: prod.split sum.split) (metis snd_conv)+

lemma usb_uevent_no_wait:
  assumes "no_wait u"
  shows "bound_udc (snd (usb_uevent impl env u)) g = bound_udc u g"
proof -
  have "snd (call_handlers impl (\<lambda>h. accessory_handler h env) kept hs u) = u" for kept hs
    by (rule call_handlers_invariant [of "\<lambda>v. v = u"])
       (use assms in \<open>simp_all add: accessory_handler_def no_wait_def\<close>)
  then show ?thesis by (auto simp: usb_uevent_def split: prod.split sum.split) (metis snd_conv)+
qed

lemma wait_for_promises: "promise_alive (snd (wait_for impl p evs u)) = promise_alive u"
proof (induction evs arbitrary: u)
  case (Cons env evs)
  obtain r u1 where "usb_uevent impl env u = (r, u1)" by fastforce
  with usb_uevent_promises [of impl env u] Cons.IH [of u1] show ?case
    by (cases r) (simp_all split: sum.split)
qed simp

lemma wait_over:
  assumes "enableDefaultAndWaitForAccessory impl timeout evs u = (Inr (Some ok), u')" "no_wait u"
  shows "no_wait u'"
proof -
  let ?p = "next_promise u"
  let ?v = "u\<lparr>next_promise := Suc ?p, promise_alive := (promise_alive u)(?p := True),
               promise_set := (promise_set u)(?p := False), handlers := addHandler ?p (handlers u)\<rparr>"
  obtain u1 where e: "enableGadget defaultGadgetName ?v = (Inr (), u1)" "promise_alive u1 = promise_alive ?v"
    using assms(1) by (cases "enableGadget defaultGadgetName ?v")
      (auto simp: enableDefaultAndWaitForAccessory_def Let_def andthen_def enableGadget_def writeGadgetFile_def
         split: option.splits)
  obtain r u2 where w: "wait_for impl ?p evs u1 = (r, u2)" by fastforce
  with wait_for_promises [of impl ?p evs u1] e(2) have a: "promise_alive u2 = (promise_alive u)(?p := True)" by simp
  from assms(1) e(1) w have "promise_alive u' = (promise_alive u2)(?p := False)"
    by (cases r) (auto simp: enableDefaultAndWaitForAccessory_def Let_def andthen_def ret_def split: if_splits)
  with a assms(2) show ?thesis by (simp add: no_wait_def)
qed

text \<open>A write of a UDC file that succeeds is what the kernel then sees.\<close>

lemma disableGadget_bound:
  assumes "disableGadget g u = (Inr (), u')"
  shows "bound_udc u' g = []" "\<And>g'. bound_udc u g' = [] \<Longrightarrow> bound_udc u' g' = []"
  using assms by (auto simp: disableGadget_def writeGadgetFile_def bound_udc_def getline_def
      split: option.splits if_splits)

lemma andthen_InrE:
  assumes "andthen f g s = (Inr y, s')"
  obtains x s1 where "f s = (Inr x, s1)" "g x s1 = (Inr y, s')"
  using assms by (auto simp: andthen_def split: prod.splits sum.splits)

lemma disableGadgets_bound:
  assumes "disableGadgets u = (Inr (), u')"
  shows "bound_udc u' defaultGadgetName = []" "bound_udc u' accessoryGadgetName = []"
proof -
  obtain u1 where "disableGadget defaultGadgetName u = (Inr (), u1)" "disableGadget accessoryGadgetName u1 = (Inr (), u')"
    using assms unfolding disableGadgets_def by (auto elim: andthen_InrE)
  with disableGadget_bound show "bound_udc u' defaultGadgetName = []" "bound_udc u' accessoryGadgetName = []"
    by blast+
qed

lemma switch_bound:
  assumes "switchToAccessoryGadget u = (Inr (), u')"
  shows "bound_udc u' defaultGadgetName = []"
proof -
  obtain u1 where 1: "disableGadget defaultGadgetName u = (Inr (), u1)" and 2: "enableGadget accessoryGadgetName u1 = (Inr (), u')"
    using assms unfolding switchToAccessoryGadget_def by (auto elim: andthen_InrE)
  from 2 have "bound_udc u' defaultGadgetName = bound_udc u1 defaultGadgetName"
    by (auto simp: enableGadget_def writeGadgetFile_def bound_udc_def split: option.splits)
  with disableGadget_bound(1) [OF 1] show ?thesis by simp
qed

section \<open>The invariant\<close>

text \<open>
  The retry thread and the promise; the proxy's thread, which lives only between startServer and
  its join; the gadgets.
\<close>

definition connected_pcs :: "daemon_pc set" where
  "connected_pcs = {N_Join_proxy, N_Stop, N_Join_retry, N_Clean, N_Sleep}"

definition retry_inv :: "daemon_pc \<Rightarrow> loop_pc \<Rightarrow> 'w bt \<Rightarrow> bool" where
  "retry_inv pc t b \<longleftrightarrow>
     (connectWithRetryPromise b \<noteq> None \<longleftrightarrow> t = B_Connect \<or> t = B_Wait)
   \<and> (pc \<notin> {N_Join_proxy, N_Stop, N_Join_retry} \<longrightarrow> t = B_None \<or> t = B_Done)
   \<and> (pc \<in> connected_pcs \<and> t = B_None \<longrightarrow> m_adapter b = None)
   \<and> (pc \<in> connected_pcs \<and> t = B_Done \<longrightarrow> powered_off b)"

definition proxy_inv :: "daemon_pc \<Rightarrow> handler_pc \<Rightarrow> bool" where
  "proxy_inv pc x \<longleftrightarrow> (pc \<notin> {N_Power, N_Connect, N_Join_proxy} \<longrightarrow> x = X_None \<or> x = X_Done)"

definition gadget_inv :: "'w process \<Rightarrow> bool" where
  "gadget_inv s \<longleftrightarrow> no_wait (d_usb (pr_daemon s))
   \<and> (pr_late s \<or> pr_switched s \<longrightarrow> strategy (d_bt (pr_daemon s)) \<noteq> USB_FIRST)
   \<and> (pr_main s = N_Sleep \<longrightarrow> bound_udc (d_usb (pr_daemon s)) defaultGadgetName = []
        \<and> (pr_switched s \<or> bound_udc (d_usb (pr_daemon s)) accessoryGadgetName = []))"

definition process_inv :: "'w process \<Rightarrow> bool" where
  "process_inv s \<longleftrightarrow> (pr_fault s = None \<longrightarrow>
     retry_inv (pr_main s) (pr_retry s) (d_bt (pr_daemon s)) \<and> proxy_inv (pr_main s) (pr_proxy s) \<and> gadget_inv s)"

lemmas process_inv_defs = process_inv_def retry_inv_def proxy_inv_def gadget_inv_def connected_pcs_def

lemma actE:
  assumes "act f k s = Some s'"
  obtains (fault) e where "pr_fault s' = Some e"
  | (ok) x d where "f (pr_daemon s) = (Inr x, d)" "k x (s\<lparr>pr_daemon := d\<rparr>) = Some s'"
  using assms by (auto simp: act_def split: prod.splits sum.splits)

lemma faulty_inv [intro]: "pr_fault s = Some e \<Longrightarrow> process_inv s"
  by (simp add: process_inv_def)

lemma on_btE:
  assumes "on_bt f d = (Inr x, d')"
  obtains b where "f (d_bt d) = (Inr x, b)" "d' = d\<lparr>d_bt := b\<rparr>"
  using assms by (auto simp: on_bt_def split: prod.splits)

lemma on_usbE:
  assumes "on_usb f d = (Inr x, d')"
  obtains u where "f (d_usb d) = (Inr x, u)" "d' = d\<lparr>d_usb := u\<rparr>"
  using assms by (auto simp: on_usb_def split: prod.splits)

text \<open>
  What every step of another actor may do to the handler: everything stays, but for calls that
  say nothing of power, and the promise may become satisfied.
\<close>

definition bt_same :: "'w bt \<Rightarrow> 'w bt \<Rightarrow> bool" where
  "bt_same b b' \<longleftrightarrow> strategy b' = strategy b \<and> m_adapter b' = m_adapter b
     \<and> (connectWithRetryPromise b' = None \<longleftrightarrow> connectWithRetryPromise b = None)
     \<and> (powered_off b \<longrightarrow> powered_off b')"

lemma bt_same_refl [simp, intro]: "bt_same b b"
  by (simp add: bt_same_def)

lemma bt_same_no_power: "no_power f \<Longrightarrow> f b = (r, b') \<Longrightarrow> bt_same b b'"
  using powered_off_stays [of f b r b'] by (auto simp: bt_same_def bt_keeps_def elim!: makesD)

lemma bt_same_stop: "stopConnectWithRetry b = (Inr u, b') \<Longrightarrow> bt_same b b'"
  by (auto simp: bt_same_def stopConnectWithRetry_result powered_off_def Let_def split: if_splits)

lemma retry_inv_same: "retry_inv pc t b \<Longrightarrow> bt_same b b' \<Longrightarrow> retry_inv pc t b'"
  by (simp add: retry_inv_def bt_same_def)

text \<open>Such a step of a thread that is neither the main, the proxy's nor the retry thread.\<close>

definition same_threads :: "'w process \<Rightarrow> 'w process \<Rightarrow> bool" where
  "same_threads s s' \<longleftrightarrow> pr_main s' = pr_main s \<and> pr_proxy s' = pr_proxy s \<and> pr_retry s' = pr_retry s
     \<and> pr_late s' = pr_late s \<and> pr_switched s' = pr_switched s"

lemma process_inv_bt:
  assumes "process_inv s" "pr_fault s = None" "act (on_bt f) k s = Some s'"
    and "\<And>b r b'. f b = (Inr r, b') \<Longrightarrow> bt_same b b'"
    and "\<And>x s1. k x s1 = Some s' \<Longrightarrow> pr_daemon s' = pr_daemon s1 \<and> same_threads s1 s'"
  shows "process_inv s'"
  using assms(3)
proof (rule actE)
  fix x d assume "on_bt f (pr_daemon s) = (Inr x, d)" and k: "k x (s\<lparr>pr_daemon := d\<rparr>) = Some s'"
  then obtain b where f: "f (d_bt (pr_daemon s)) = (Inr x, b)" "d = (pr_daemon s)\<lparr>d_bt := b\<rparr>"
    by (elim on_btE)
  note same = assms(4) [OF f(1)]
  from assms(1,2) retry_inv_same [OF _ same, of "pr_main s" "pr_retry s"] same assms(5) [OF k] f(2)
  show ?thesis by (simp add: process_inv_def gadget_inv_def bt_same_def same_threads_def)
qed blast

lemma request_keeps:
  assumes "process_inv s" "pr_fault s = None" "request_step bus q s = Some s'"
  shows "process_inv s'"
proof -
  consider "act (on_bt (listDevices bus)) (\<lambda>_ s. Some s) s = Some s'"
    | "s' = s" | "act (on_bt stopConnectWithRetry) (\<lambda>_ s. Some (s\<lparr>pr_request := Some q\<rparr>)) s = Some s'"
    using assms(3) unfolding request_step_def by (metis option.distinct(1) option.inject)
  then show ?thesis
  proof cases
    case 1
    show ?thesis
      by (rule process_inv_bt [OF assms(1,2) 1 bt_same_no_power [OF no_power_requests(1)]])
         (auto simp: same_threads_def)
  next
    case 3
    show ?thesis by (rule process_inv_bt [OF assms(1,2) 3 bt_same_stop]) (auto simp: same_threads_def)
  qed (use assms(1) in simp)
qed

lemma request_rest_keeps:
  assumes "process_inv s" "pr_fault s = None" "request_rest bus s = Some s'"
  shows "process_inv s'"
proof -
  let ?k = "\<lambda>_ s. Some (s\<lparr>pr_request := None\<rparr>)"
  consider sel where "act (on_bt (switch_rest bus sel)) ?k s = Some s'"
    | "act (on_bt (\<lambda>b. disconnectAllConnectedDevices bus (b\<lparr>m_preferredDeviceObjectPath := None\<rparr>))) ?k s = Some s'"
    using assms(3) by (auto simp: request_rest_def split: option.splits request.splits)
  then show ?thesis
  proof cases
    case (1 sel)
    show ?thesis
      by (rule process_inv_bt [OF assms(1,2) 1 bt_same_no_power [OF no_power_requests(2)]])
         (auto simp: same_threads_def)
  next
    case 2
    show ?thesis
      by (rule process_inv_bt [OF assms(1,2) 2 bt_same_no_power [OF no_power_requests(3)]])
         (auto simp: same_threads_def)
  qed
qed

lemma retry_keeps:
  assumes "process_inv s" "pr_fault s = None" "retry_step bus s = Some s'"
  shows "process_inv s'"
proof -
  let ?b = "d_bt (pr_daemon s)"
  have inv: "retry_inv (pr_main s) (pr_retry s) ?b" "proxy_inv (pr_main s) (pr_proxy s)" "gadget_inv s"
    using assms(1,2) by (simp_all add: process_inv_def)
  show ?thesis
  proof (cases "pr_retry s")
    case B_Connect
    with assms(3) have "act (on_bt (connectDevice bus)) (\<lambda>_ s. Some (s\<lparr>pr_retry := B_Wait\<rparr>)) s = Some s'"
      by (simp add: retry_step_def)
    then show ?thesis
    proof (rule actE)
      fix x d assume "on_bt (connectDevice bus) (pr_daemon s) = (Inr x, d)"
        and k: "Some (s\<lparr>pr_daemon := d, pr_retry := B_Wait\<rparr>) = Some s'"
      then obtain b where c: "connectDevice bus ?b = (Inr x, b)" "d = (pr_daemon s)\<lparr>d_bt := b\<rparr>"
        by (elim on_btE)
      note same = bt_same_no_power [OF no_power_connectDevice c(1)]
      have "retry_inv (pr_main s) B_Wait ?b" using inv(1) B_Connect by (auto simp: retry_inv_def)
      note r = retry_inv_same [OF this same]
      have s': "s' = s\<lparr>pr_daemon := (pr_daemon s)\<lparr>d_bt := b\<rparr>, pr_retry := B_Wait\<rparr>" using k c(2) by simp
      show ?thesis using r inv(2,3) same unfolding s' by (simp add: process_inv_def gadget_inv_def bt_same_def)
    qed blast
  next
    case B_Wait
    let ?b1 = "?b\<lparr>connectWithRetryPromise := None\<rparr>"
    consider "s' = s\<lparr>pr_retry := B_Connect\<rparr>"
      | "s' = s\<lparr>pr_daemon := (pr_daemon s)\<lparr>d_bt := ?b1\<rparr>, pr_retry := B_Off\<rparr>"
      using assms(3) B_Wait unfolding retry_step_def act_def on_bt_def by (simp split: if_splits)
    moreover have "retry_inv (pr_main s) B_Connect ?b" "retry_inv (pr_main s) B_Off ?b1"
      using inv(1) B_Wait by (auto simp: retry_inv_def)
    ultimately show ?thesis
      using inv(2,3) by cases (simp_all add: process_inv_def gadget_inv_def)
  next
    case B_Off
    let ?f = "\<lambda>b. if strategy b \<noteq> DONGLE_MODE then powerOff bus b else ret () b"
    from assms(3) B_Off have "act (on_bt ?f) (\<lambda>_ s. Some (s\<lparr>pr_retry := B_Done\<rparr>)) s = Some s'"
      by (simp add: retry_step_def)
    then show ?thesis
    proof (rule actE)
      fix x d assume "on_bt ?f (pr_daemon s) = (Inr x, d)"
        and k: "Some (s\<lparr>pr_daemon := d, pr_retry := B_Done\<rparr>) = Some s'"
      then obtain b where c: "?f ?b = (Inr (), b)" "d = (pr_daemon s)\<lparr>d_bt := b\<rparr>" by (auto elim!: on_btE)
      have s': "s' = s\<lparr>pr_daemon := (pr_daemon s)\<lparr>d_bt := b\<rparr>, pr_retry := B_Done\<rparr>" using k c(2) by simp
      from powerOff_powers_off [OF c(1)] inv(1) B_Off have "retry_inv (pr_main s) B_Done b"
        by (auto simp: retry_inv_def bt_keeps_def)
      with powerOff_powers_off [OF c(1)] inv(2,3) show ?thesis
        unfolding s' by (simp add: process_inv_def gadget_inv_def bt_keeps_def)
    qed blast
  qed (use assms(3) in \<open>simp_all add: retry_step_def\<close>)
qed

lemma message_keeps:
  assumes "process_inv s" "pr_fault s = None" "message_step impl env s = Some s'"
  shows "process_inv s'"
proof -
  have "act (on_usb (usb_uevent impl env)) (\<lambda>_ s. Some s) s = Some s'"
    using assms(3) unfolding message_step_def by (metis option.distinct(1))
  then show ?thesis
  proof (rule actE)
    fix x d assume "on_usb (usb_uevent impl env) (pr_daemon s) = (Inr x, d)" and k: "Some (s\<lparr>pr_daemon := d\<rparr>) = Some s'"
    then obtain u where u: "usb_uevent impl env (d_usb (pr_daemon s)) = (Inr x, u)" "d = (pr_daemon s)\<lparr>d_usb := u\<rparr>"
      by (elim on_usbE)
    have s': "s' = s\<lparr>pr_daemon := (pr_daemon s)\<lparr>d_usb := u\<rparr>\<rparr>" using k u(2) by simp
    have n: "no_wait (d_usb (pr_daemon s))" using assms(1,2) by (simp add: process_inv_def gadget_inv_def)
    have "promise_alive u = promise_alive (d_usb (pr_daemon s))"
      "bound_udc u g = bound_udc (d_usb (pr_daemon s)) g" for g
      using usb_uevent_promises [of impl env "d_usb (pr_daemon s)"] usb_uevent_no_wait [OF n, of impl env g] u(1)
      by simp_all
    with assms(1,2) show ?thesis unfolding s' by (simp add: process_inv_def gadget_inv_def no_wait_def)
  qed blast
qed

lemma late_keeps:
  assumes "process_inv s" "pr_fault s = None" "late_step s = Some s'"
  shows "process_inv s'"
proof -
  let ?k = "\<lambda>_ s. Some (s\<lparr>pr_late := False, pr_switched := True\<rparr>)"
  have l: "pr_late s" and "act (on_usb switchToAccessoryGadget) ?k s = Some s'"
    using assms(3) unfolding late_step_def by (metis option.distinct(1))+
  from this(2) show ?thesis
  proof (rule actE)
    fix x d assume "on_usb switchToAccessoryGadget (pr_daemon s) = (Inr x, d)" and k: "?k x (s\<lparr>pr_daemon := d\<rparr>) = Some s'"
    then obtain u where u: "switchToAccessoryGadget (d_usb (pr_daemon s)) = (Inr (), u)" "d = (pr_daemon s)\<lparr>d_usb := u\<rparr>"
      by (auto elim!: on_usbE)
    have s': "s' = s\<lparr>pr_daemon := (pr_daemon s)\<lparr>d_usb := u\<rparr>, pr_late := False, pr_switched := True\<rparr>"
      using k u(2) by simp
    have "promise_alive u = promise_alive (d_usb (pr_daemon s))"
      using switch_keeps_promises(1) [of "d_usb (pr_daemon s)"] u(1) by simp
    with assms(1,2) l switch_bound [OF u(1)] show ?thesis
      unfolding s' by (simp add: process_inv_def gadget_inv_def no_wait_def)
  qed blast
qed

lemma accept_phone_frame:
  assumes "accept_phone d = (Inr u, d')"
  shows "bt_same (d_bt d) (d_bt d') \<and> d_usb d' = d_usb d"
  using assms bt_same_stop [of "d_bt d" u "snd (stopConnectWithRetry (d_bt d))"]
  by (auto simp: accept_phone_def server_simps prod_eq_iff)

lemma serve_rest_frame:
  assumes "serve_rest ce accessory d = (Inr r, d')"
  shows "d_bt d' = d_bt d \<and> d_usb d' = d_usb d"
  using assms by (auto simp: serve_rest_def server_simps split: if_splits option.splits)

lemma accessory_ready_frame:
  assumes "accessory_ready impl ce d = (Inr r, d')" "no_wait (d_usb d)"
  shows "d_bt d' = d_bt d \<and> no_wait (d_usb d') \<and> (strategy (d_bt d) = USB_FIRST \<longrightarrow> r = Some True)"
proof (cases "strategy (d_bt d) = USB_FIRST")
  case True
  with assms show ?thesis by (auto simp: accessory_ready_def)
next
  case False
  with assms(1) have "on_usb (enableDefaultAndWaitForAccessory impl 30000 (ce_events ce)) d = (Inr r, d')"
    by (simp add: accessory_ready_def)
  then obtain u where u: "enableDefaultAndWaitForAccessory impl 30000 (ce_events ce) (d_usb d) = (Inr r, u)"
    "d' = d\<lparr>d_usb := u\<rparr>" by (elim on_usbE)
  moreover have "r \<noteq> None"
    using u(1) by (auto simp: enableDefaultAndWaitForAccessory_def Let_def andthen_def ret_def split: prod.splits sum.splits)
  ultimately show ?thesis using wait_over [OF _ assms(2)] False by auto
qed

lemma process_inv_proxy:
  assumes "process_inv s" "pr_fault s = None" "pr_proxy s \<noteq> X_None" "pr_proxy s \<noteq> X_Done"
    and "bt_same (d_bt (pr_daemon s)) (d_bt (pr_daemon s'))" "no_wait (d_usb (pr_daemon s'))"
    and "pr_main s' = pr_main s" "pr_retry s' = pr_retry s"
    and "pr_late s' \<or> pr_switched s' \<Longrightarrow> strategy (d_bt (pr_daemon s)) \<noteq> USB_FIRST"
  shows "process_inv s'"
proof -
  have pc: "pr_main s \<in> {N_Power, N_Connect, N_Join_proxy}" "retry_inv (pr_main s) (pr_retry s) (d_bt (pr_daemon s))"
    using assms(1-4) by (auto simp: process_inv_def proxy_inv_def)
  with retry_inv_same [OF pc(2) assms(5)] assms(5-9) show ?thesis
    by (auto simp: process_inv_def proxy_inv_def gadget_inv_def bt_same_def)
qed

lemma proxy_accept_keeps:
  assumes "process_inv s" "pr_fault s = None" "proxy_step impl ce held s = Some s'" and X_Accept: "pr_proxy s = X_Accept"
  shows "process_inv s'"
proof -
  let ?d = "pr_daemon s"
  have inv: "no_wait (d_usb ?d)" "pr_late s \<or> pr_switched s \<Longrightarrow> strategy (d_bt ?d) \<noteq> USB_FIRST"
    using assms(1,2) by (auto simp: process_inv_def gadget_inv_def)
  note keep = process_inv_proxy [OF assms(1,2)]
  from X_Accept have x: "pr_proxy s \<noteq> X_None" "pr_proxy s \<noteq> X_Done" by simp_all
  show ?thesis
  proof (cases "ce_accept ce")
    case True
    with assms(3) X_Accept have "act accept_phone (\<lambda>_ s. Some (s\<lparr>pr_proxy := X_Wait\<rparr>)) s = Some s'"
      by (simp add: proxy_step_def)
    then show ?thesis
    proof (rule actE)
      fix u d assume a: "accept_phone ?d = (Inr u, d)" and "Some (s\<lparr>pr_daemon := d, pr_proxy := X_Wait\<rparr>) = Some s'"
      then have s': "s' = s\<lparr>pr_daemon := d, pr_proxy := X_Wait\<rparr>" by simp
      show ?thesis by (rule keep [OF x]) (use accept_phone_frame [OF a] inv in \<open>simp_all add: s'\<close>)
    qed blast
  next
    case False
    then have s': "s' = s\<lparr>pr_daemon := ?d\<lparr>d_fds := remove1 Listen_fd (d_fds ?d)\<rparr>, pr_proxy := X_Done\<rparr>"
      using assms(3) X_Accept by (simp add: proxy_step_def act_def server_simps)
    show ?thesis by (rule keep [OF x]) (use inv in \<open>simp_all add: s'\<close>)
  qed
qed

lemma proxy_keeps:
  assumes "process_inv s" "pr_fault s = None" "proxy_step impl ce held s = Some s'"
  shows "process_inv s'"
proof -
  let ?d = "pr_daemon s"
  have inv: "no_wait (d_usb ?d)" "pr_late s \<or> pr_switched s \<Longrightarrow> strategy (d_bt ?d) \<noteq> USB_FIRST"
    using assms(1,2) by (auto simp: process_inv_def gadget_inv_def)
  note keep = process_inv_proxy [OF assms(1,2)]
  show ?thesis
  proof (cases "pr_proxy s")
    case X_Wait
    then have x: "pr_proxy s \<noteq> X_None" "pr_proxy s \<noteq> X_Done" by simp_all
    let ?k = "\<lambda>accessory s. Some (s\<lparr>pr_proxy := X_Ready accessory, pr_late := pr_late s \<or> accessory = Some False \<and> held\<rparr>)"
    from assms(3) X_Wait have "act (accessory_ready impl ce) ?k s = Some s'"
      by (simp add: proxy_step_def split: if_splits)
    then show ?thesis
    proof (rule actE)
      fix r d assume a: "accessory_ready impl ce ?d = (Inr r, d)" and k: "?k r (s\<lparr>pr_daemon := d\<rparr>) = Some s'"
      have s': "s' = s\<lparr>pr_daemon := d, pr_proxy := X_Ready r, pr_late := pr_late s \<or> r = Some False \<and> held\<rparr>"
        using k by simp
      show ?thesis
        by (rule keep [OF x]) (use accessory_ready_frame [OF a inv(1)] inv in \<open>auto simp add: s'\<close>)
    qed blast
  next
    case (X_Ready accessory)
    then have x: "pr_proxy s \<noteq> X_None" "pr_proxy s \<noteq> X_Done" by simp_all
    from assms(3) X_Ready have "act (serve_rest ce accessory) (\<lambda>_ s. Some (s\<lparr>pr_proxy := X_Done\<rparr>)) s = Some s'"
      by (simp add: proxy_step_def)
    then show ?thesis
    proof (rule actE)
      fix r d assume a: "serve_rest ce accessory ?d = (Inr r, d)" and "Some (s\<lparr>pr_daemon := d, pr_proxy := X_Done\<rparr>) = Some s'"
      then have s': "s' = s\<lparr>pr_daemon := d, pr_proxy := X_Done\<rparr>" by simp
      show ?thesis by (rule keep [OF x]) (use serve_rest_frame [OF a] inv in \<open>simp_all add: s'\<close>)
    qed blast
  next
    case X_Accept
    show ?thesis by (rule proxy_accept_keeps [OF assms X_Accept])
  qed (use assms(3) in \<open>simp_all add: proxy_step_def\<close>)
qed

text \<open>The steps of the main thread, by what they need of the invariant and keep of it.\<close>

lemma process_inv_main:
  assumes "process_inv s" "pr_fault s = None" "pr_retry s' = pr_retry s"
    and "pr_late s' = pr_late s" "pr_switched s' = pr_switched s"
    and "retry_inv (pr_main s') (pr_retry s) (d_bt (pr_daemon s'))" "proxy_inv (pr_main s') (pr_proxy s')"
    and "strategy (d_bt (pr_daemon s')) = strategy (d_bt (pr_daemon s))"
    and "no_wait (d_usb (pr_daemon s'))" "pr_main s' \<noteq> N_Sleep"
  shows "process_inv s'"
  using assms by (simp add: process_inv_def gadget_inv_def)

lemma wait_for_car_frame:
  assumes "wait_for_car impl evs d = (Inr r, d')" "no_wait (d_usb d)" "r \<noteq> None"
  shows "d_bt d' = d_bt d \<and> no_wait (d_usb d')"
  using assms wait_over [of impl 0 evs "d_usb d" _ "d_usb d'"]
  by (auto simp: wait_for_car_def elim!: on_usbE split: if_splits)

lemma startServer_frame:
  assumes "startServer se p d = (Inr r, d')"
  shows "d_bt d' = d_bt d \<and> d_usb d' = d_usb d"
  using assms by (auto simp: startServer_def server_simps split: if_splits)

lemma power_up_frame:
  assumes "power_up bus d = (Inr r, d')"
  shows "bt_keeps (d_bt d) (d_bt d') \<and> d_usb d' = d_usb d"
  using assms makesD [OF powerOn_keeps, of bus "d_bt d"]
  by (auto simp: power_up_def bt_keeps_def elim!: on_btE split: if_splits) metis+

lemma main_wait_keeps:
  assumes "process_inv s" "pr_fault s = None" and N_Wait: "pr_main s = N_Wait"
    and step: "main_step bus impl h evs se s = Some s'"
  shows "process_inv s'"
proof -
  let ?d = "pr_daemon s"
  have inv: "retry_inv (pr_main s) (pr_retry s) (d_bt ?d)" "proxy_inv (pr_main s) (pr_proxy s)"
    "no_wait (d_usb ?d)" "pr_late s \<or> pr_switched s \<Longrightarrow> strategy (d_bt ?d) \<noteq> USB_FIRST"
    using assms(1,2) by (auto simp: process_inv_def gadget_inv_def)
  note keep = process_inv_main [OF assms(1,2)]
  from N_Wait step have "act (wait_for_car impl evs) (\<lambda>w s. if w = None then None else Some (s\<lparr>pr_main := N_Server\<rparr>)) s = Some s'"
    by (simp add: main_step_def)
  then show ?thesis
  proof (rule actE)
    fix w d assume a: "wait_for_car impl evs ?d = (Inr w, d)"
      and k: "(if w = None then None else Some (s\<lparr>pr_daemon := d, pr_main := N_Server\<rparr>)) = Some s'"
    then have s': "w \<noteq> None" "s' = s\<lparr>pr_daemon := d, pr_main := N_Server\<rparr>" by (simp_all split: if_splits)
    show ?thesis by (rule keep) (use wait_for_car_frame [OF a inv(3) s'(1)] inv N_Wait in
          \<open>simp_all add: s' retry_inv_def proxy_inv_def connected_pcs_def\<close>)
  qed blast
qed

lemma main_server_keeps:
  assumes "process_inv s" "pr_fault s = None" and N_Server: "pr_main s = N_Server"
    and step: "main_step bus impl h evs se s = Some s'"
  shows "process_inv s'"
proof -
  let ?d = "pr_daemon s"
  have inv: "retry_inv (pr_main s) (pr_retry s) (d_bt ?d)" "proxy_inv (pr_main s) (pr_proxy s)"
    "no_wait (d_usb ?d)" "pr_late s \<or> pr_switched s \<Longrightarrow> strategy (d_bt ?d) \<noteq> USB_FIRST"
    using assms(1,2) by (auto simp: process_inv_def gadget_inv_def)
  note keep = process_inv_main [OF assms(1,2)]
  let ?k = "\<lambda>proxyThread s. if proxyThread = None then Some (s\<lparr>pr_main := N_Exit\<rparr>)
      else Some (s\<lparr>pr_main := N_Power, pr_proxy := X_Accept\<rparr>)"
  from N_Server step have "act (startServer se (port (getWifiInfo h))) ?k s = Some s'"
    by (simp add: main_step_def)
  then show ?thesis
  proof (rule actE)
    fix t d assume a: "startServer se (port (getWifiInfo h)) ?d = (Inr t, d)" and k: "?k t (s\<lparr>pr_daemon := d\<rparr>) = Some s'"
    note f = startServer_frame [OF a]
    consider "s' = s\<lparr>pr_daemon := d, pr_main := N_Exit\<rparr>"
      | "s' = s\<lparr>pr_daemon := d, pr_main := N_Power, pr_proxy := X_Accept\<rparr>"
      using k by (simp split: if_splits)
    then show ?thesis
      by cases (rule keep; use f inv N_Server in \<open>simp add: retry_inv_def proxy_inv_def connected_pcs_def\<close>)+
  qed blast
qed

lemma main_connect_keeps:
  assumes "process_inv s" "pr_fault s = None" and N_Connect: "pr_main s = N_Connect"
    and step: "main_step bus impl h evs se s = Some s'"
  shows "process_inv s'"
proof -
  let ?d = "pr_daemon s"
  have inv: "retry_inv (pr_main s) (pr_retry s) (d_bt ?d)" "proxy_inv (pr_main s) (pr_proxy s)"
    "no_wait (d_usb ?d)" "pr_late s \<or> pr_switched s \<Longrightarrow> strategy (d_bt ?d) \<noteq> USB_FIRST"
    using assms(1,2) by (auto simp: process_inv_def gadget_inv_def)
  let ?b = "d_bt ?d"
  have r: "pr_retry s = B_None \<or> pr_retry s = B_Done" "connectWithRetryPromise ?b = None"
    using inv(1) N_Connect by (auto simp: retry_inv_def)
  show ?thesis
  proof (cases "m_adapter ?b")
    case None
    with step N_Connect have s': "s' = s\<lparr>pr_main := N_Join_proxy, pr_retry := B_None\<rparr>"
      by (simp add: main_step_def act_def on_bt_def connectWithRetry_def)
    have "retry_inv N_Join_proxy B_None ?b" using None r by (simp add: retry_inv_def)
    with assms(1,2) show ?thesis by (simp add: s' process_inv_def proxy_inv_def gadget_inv_def)
  next
    case (Some a)
    let ?b1 = "?b\<lparr>connectWithRetryPromise := Some False\<rparr>"
    from Some step N_Connect have s':
      "s' = s\<lparr>pr_daemon := ?d\<lparr>d_bt := ?b1\<rparr>, pr_main := N_Join_proxy, pr_retry := B_Connect\<rparr>"
      by (simp add: main_step_def act_def on_bt_def connectWithRetry_def)
    have "retry_inv N_Join_proxy B_Connect ?b1" by (simp add: retry_inv_def)
    with assms(1,2) show ?thesis by (simp add: s' process_inv_def proxy_inv_def gadget_inv_def)
  qed
qed

lemma main_stop_keeps:
  assumes "process_inv s" "pr_fault s = None" and N_Stop: "pr_main s = N_Stop"
    and step: "main_step bus impl h evs se s = Some s'"
  shows "process_inv s'"
proof -
  let ?d = "pr_daemon s"
  have inv: "retry_inv (pr_main s) (pr_retry s) (d_bt ?d)" "proxy_inv (pr_main s) (pr_proxy s)"
    "no_wait (d_usb ?d)" "pr_late s \<or> pr_switched s \<Longrightarrow> strategy (d_bt ?d) \<noteq> USB_FIRST"
    using assms(1,2) by (auto simp: process_inv_def gadget_inv_def)
  note keep = process_inv_main [OF assms(1,2)]
  from N_Stop step have "act (on_bt stopConnectWithRetry) (\<lambda>_ s. Some (s\<lparr>pr_main := N_Join_retry\<rparr>)) s = Some s'"
    by (simp add: main_step_def)
  then show ?thesis
  proof (rule actE)
    fix u d assume "on_bt stopConnectWithRetry ?d = (Inr u, d)" and k: "Some (s\<lparr>pr_daemon := d, pr_main := N_Join_retry\<rparr>) = Some s'"
    then obtain b where b: "stopConnectWithRetry (d_bt ?d) = (Inr u, b)" "d = ?d\<lparr>d_bt := b\<rparr>" by (elim on_btE)
    have s': "s' = s\<lparr>pr_daemon := ?d\<lparr>d_bt := b\<rparr>, pr_main := N_Join_retry\<rparr>" using k b(2) by simp
    note same = bt_same_stop [OF b(1)]
    have "retry_inv N_Join_retry (pr_retry s) (d_bt ?d)"
      using inv(1) N_Stop by (simp add: retry_inv_def connected_pcs_def)
    from retry_inv_same [OF this same] show ?thesis
      by (rule_tac keep) (use same inv(2,3) N_Stop in \<open>simp_all add: s' proxy_inv_def bt_same_def\<close>)
  qed blast
qed

lemma main_clean_keeps:
  assumes "process_inv s" "pr_fault s = None" and N_Clean: "pr_main s = N_Clean"
    and step: "main_step bus impl h evs se s = Some s'"
  shows "process_inv s'"
proof -
  let ?d = "pr_daemon s"
  have inv: "retry_inv (pr_main s) (pr_retry s) (d_bt ?d)" "proxy_inv (pr_main s) (pr_proxy s)"
    "no_wait (d_usb ?d)" "pr_late s \<or> pr_switched s \<Longrightarrow> strategy (d_bt ?d) \<noteq> USB_FIRST"
    using assms(1,2) by (auto simp: process_inv_def gadget_inv_def)
  note keep = process_inv_main [OF assms(1,2)]
  let ?k = "\<lambda>_ s. Some (s\<lparr>pr_main := N_Sleep, pr_switched := False\<rparr>)"
  from N_Clean step have "act (on_usb disableGadgets) ?k s = Some s'" by (simp add: main_step_def)
  then show ?thesis
  proof (rule actE)
    fix x d assume "on_usb disableGadgets ?d = (Inr x, d)" and k: "?k x (s\<lparr>pr_daemon := d\<rparr>) = Some s'"
    then obtain u where u: "disableGadgets (d_usb ?d) = (Inr (), u)" "d = ?d\<lparr>d_usb := u\<rparr>"
      by (auto elim!: on_usbE)
    have s': "s' = s\<lparr>pr_daemon := ?d\<lparr>d_usb := u\<rparr>, pr_main := N_Sleep, pr_switched := False\<rparr>"
      using k u(2) by simp
    have "no_wait u" using switch_keeps_promises(2) [of "d_usb ?d"] u(1) inv(3) by (simp add: no_wait_def)
    moreover have "retry_inv N_Sleep (pr_retry s) (d_bt ?d)" "proxy_inv N_Sleep (pr_proxy s)"
      using inv(1,2) N_Clean by (simp_all add: retry_inv_def proxy_inv_def connected_pcs_def)
    ultimately show ?thesis
      using disableGadgets_bound [OF u(1)] inv(4) by (simp add: s' process_inv_def gadget_inv_def)
  qed blast
qed

lemma main_keeps:
  assumes "process_inv s" "pr_fault s = None" "main_step bus impl h evs se s = Some s'"
  shows "process_inv s'"
proof -
  let ?d = "pr_daemon s"
  have inv: "retry_inv (pr_main s) (pr_retry s) (d_bt ?d)" "proxy_inv (pr_main s) (pr_proxy s)"
    "no_wait (d_usb ?d)" "pr_late s \<or> pr_switched s \<Longrightarrow> strategy (d_bt ?d) \<noteq> USB_FIRST"
    using assms(1,2) by (auto simp: process_inv_def gadget_inv_def)
  note keep = process_inv_main [OF assms(1,2)]
  show ?thesis
  proof (cases "pr_main s")
    case N_Power
    with assms(3) have "act (power_up bus) (\<lambda>_ s. Some (s\<lparr>pr_main := N_Connect\<rparr>)) s = Some s'"
      by (simp add: main_step_def)
    then show ?thesis
    proof (rule actE)
      fix u d assume a: "power_up bus ?d = (Inr u, d)" and "Some (s\<lparr>pr_daemon := d, pr_main := N_Connect\<rparr>) = Some s'"
      then have s': "s' = s\<lparr>pr_daemon := d, pr_main := N_Connect\<rparr>" by simp
      show ?thesis by (rule keep) (use power_up_frame [OF a] inv N_Power in
            \<open>simp_all add: s' retry_inv_def proxy_inv_def connected_pcs_def bt_keeps_def\<close>)
    qed blast
  next
    case N_Join_proxy
    with assms(3) have s': "s' = s\<lparr>pr_main := (if pr_retry s = B_None then N_Clean else N_Stop)\<rparr>" "pr_proxy s = X_Done"
      by (simp_all add: main_step_def split: if_splits)
    show ?thesis by (rule keep) (use inv N_Join_proxy s'(2) in
          \<open>auto simp add: s'(1) retry_inv_def proxy_inv_def connected_pcs_def\<close>)
  next
    case N_Join_retry
    with assms(3) have s': "s' = s\<lparr>pr_main := N_Clean\<rparr>" "pr_retry s = B_Done"
      by (simp_all add: main_step_def split: if_splits)
    show ?thesis by (rule keep) (use inv N_Join_retry s'(2) in
          \<open>simp_all add: s'(1) retry_inv_def proxy_inv_def connected_pcs_def\<close>)
  next
    case N_Sleep
    with assms(3) have s': "s' = s\<lparr>pr_main := N_Wait\<rparr>" by (simp add: main_step_def)
    show ?thesis by (rule keep) (use inv N_Sleep in
          \<open>simp_all add: s' retry_inv_def proxy_inv_def connected_pcs_def\<close>)
  next
    case N_Wait
    show ?thesis by (rule main_wait_keeps [OF assms(1,2) N_Wait assms(3)])
  next
    case N_Server
    show ?thesis by (rule main_server_keeps [OF assms(1,2) N_Server assms(3)])
  next
    case N_Connect
    show ?thesis by (rule main_connect_keeps [OF assms(1,2) N_Connect assms(3)])
  next
    case N_Stop
    show ?thesis by (rule main_stop_keeps [OF assms(1,2) N_Stop assms(3)])
  next
    case N_Clean
    show ?thesis by (rule main_clean_keeps [OF assms(1,2) N_Clean assms(3)])
  qed (use assms(3) in \<open>simp add: main_step_def\<close>)
qed

text \<open>A process that has been set up and not done anything yet.\<close>

definition process_begins :: "'w process \<Rightarrow> bool" where
  "process_begins s \<longleftrightarrow> (\<exists>d. s = start_process d \<and> connectWithRetryPromise (d_bt d) = None \<and> no_wait (d_usb d))"

interpretation process: invariant_system process_begins "step_of (daemon_step bus impl h)" process_inv
  for bus :: "'w bus" and impl h
proof
  fix s :: "'w process" assume "process_begins s"
  then show "process_inv s"
    by (auto simp: process_begins_def start_process_def process_inv_defs)
next
  fix a and s s' :: "'w process" assume inv: "process_inv s" and "step_of (daemon_step bus impl h) a s s'"
  then have f: "pr_fault s = None" and st: "daemon_step bus impl h a s = Some s'"
    by (auto simp: step_of_def daemon_step_def split: if_splits)
  show "process_inv s'"
    using st f main_keeps [OF inv f] proxy_keeps [OF inv f] retry_keeps [OF inv f] request_keeps [OF inv f]
      request_rest_keeps [OF inv f] message_keeps [OF inv f] late_keeps [OF inv f]
    by (cases a) (auto simp: daemon_step_def split: if_splits)
qed

section \<open>The whole program\<close>

lemma initAdapter_promise:
  assumes "initAdapter bus b = (r, b')"
  shows "connectWithRetryPromise b' = connectWithRetryPromise b"
  using assms
  by (auto simp: initAdapter_def getBluezObjects_def dbus_objects_def dbus_void_def dbus_typed_def dbus_def andthen_def
      split: prod.splits sum.splits option.splits if_splits)

lemma bt_init_promise:
  assumes "bt_init bus h b = (Inr (), b')"
  shows "connectWithRetryPromise b' = connectWithRetryPromise b"
proof -
  obtain u b1 where i: "initAdapter bus (b\<lparr>m_connection := True, m_adapterAlias := adapter_alias h (strategy b)\<rparr>) = (Inr u, b1)"
    and e: "exportProfiles bus b1 = (Inr (), b')"
    using assms unfolding bt_init_def by (auto elim: andthen_InrE)
  have "bt_keeps b1 b'" using exportProfiles_keeps e by (rule makesD)
  with initAdapter_promise [OF i] show ?thesis by (simp add: bt_keeps_def)
qed

lemma daemon_setup_frame:
  assumes "daemon_setup bus h entries d = (Inr (), d')" "no_wait (d_usb d)"
  shows "connectWithRetryPromise (d_bt d') = connectWithRetryPromise (d_bt d) \<and> no_wait (d_usb d')"
proof -
  from assms(1) obtain d1 d2 where 1: "on_usb (UsbManager_init entries) d = (Inr (), d1)"
    and 2: "on_bt (bt_init bus h) d1 = (Inr (), d2)"
    and 3: "(if strategy (d_bt d2) = DONGLE_MODE then on_bt (powerOn bus) d2 else ret () d2) = (Inr (), d')"
    unfolding daemon_setup_def by (auto elim!: andthen_InrE)
  from 1 obtain u where u: "UsbManager_init entries (d_usb d) = (Inr (), u)" "d1 = d\<lparr>d_usb := u\<rparr>" by (elim on_usbE)
  have "promise_alive u = promise_alive (d_usb d)"
    using u(1) switch_keeps_promises(2) [of "d_usb d"]
    by (auto simp: UsbManager_init_def fold_last_visible Let_def elim!: andthen_InrE split: option.splits if_splits)
  moreover from 2 have "connectWithRetryPromise (d_bt d2) = connectWithRetryPromise (d_bt d1)" "d_usb d2 = d_usb d1"
    by (auto elim!: on_btE dest: bt_init_promise)
  moreover have "bt_keeps (d_bt d2) (d_bt d') \<and> d_usb d' = d_usb d2"
    using 3 makesD [OF powerOn_keeps, of bus "d_bt d2"]
    by (auto simp: bt_keeps_def elim!: on_btE split: if_splits) metis+
  ultimately show ?thesis using u(2) assms(2) by (simp add: no_wait_def bt_keeps_def)
qed

text \<open>Only a handler overtaken by its timeout switches the gadgets outside a wait.\<close>

lemma switched_step:
  assumes "daemon_step bus impl h a s = Some s'" "pr_switched s'"
  shows "pr_switched s \<or> a = Late_switch"
proof (cases a)
  case (Main_turn evs se)
  with assms show ?thesis
    by (auto simp: daemon_step_def main_step_def act_def split: if_splits daemon_pc.splits prod.splits sum.splits)
next
  case (Proxy_turn ce held)
  with assms show ?thesis
    by (auto simp: daemon_step_def proxy_step_def act_def split: if_splits handler_pc.splits prod.splits sum.splits)
next
  case Retry_turn
  with assms show ?thesis
    by (auto simp: daemon_step_def retry_step_def act_def split: if_splits loop_pc.splits prod.splits sum.splits)
next
  case (Request_turn q)
  with assms show ?thesis
    by (auto simp: daemon_step_def request_step_def act_def split: if_splits prod.splits sum.splits)
next
  case Request_rest_turn
  with assms show ?thesis
    by (auto simp: daemon_step_def request_rest_def act_def split: if_splits option.splits request.splits prod.splits sum.splits)
next
  case (Message_turn env)
  with assms show ?thesis
    by (auto simp: daemon_step_def message_step_def act_def split: if_splits prod.splits sum.splits)
qed simp

lemma switched_run:
  "trace (step_of (daemon_step bus impl h)) s ts s' \<Longrightarrow> pr_switched s' \<Longrightarrow> pr_switched s \<or> Late_switch \<in> set ts"
  by (induction rule: trace.induct) (auto simp: step_of_def dest: switched_step)

text \<open>
  C12. The whole program, whatever order its threads move in.  After the set-up of a process that
  has just started, and after any run of the main loop, of the proxy's, the retry, the control
  socket's and the monitor thread: whenever no exception has ended the process and the main thread
  sleeps between two passes, the threads of the pass are over, the retry thread's promise is gone,
  and outside dongle mode the last thing said to BlueZ about the power of the adapter, if there is
  one, was to switch it off.  The default gadget is not bound, and neither is the accessory gadget,
  unless the car's request was handled too late: a handler that a timed-out wait left behind has
  switched since the clean-up, which cannot be when the car is waited for first.
\<close>

theorem program_resets:
  assumes "daemon_setup bus h entries d = (Inr (), d0)"
    and "connectWithRetryPromise (d_bt d) = None" "no_wait (d_usb d)"
    and "run_schedule (daemon_step bus impl h) acts (start_process d0) = Some s"
    and "pr_fault s = None" "pr_main s = N_Sleep"
  shows "pr_proxy s \<in> {X_None, X_Done} \<and> pr_retry s \<in> {B_None, B_Done}
    \<and> connectWithRetryPromise (d_bt (pr_daemon s)) = None \<and> powered_off (d_bt (pr_daemon s))
    \<and> bound_udc (d_usb (pr_daemon s)) defaultGadgetName = []
    \<and> (bound_udc (d_usb (pr_daemon s)) accessoryGadgetName = []
       \<or> pr_switched s \<and> Late_switch \<in> set acts \<and> strategy (d_bt (pr_daemon s)) \<noteq> USB_FIRST)"
proof -
  have run: "trace (step_of (daemon_step bus impl h)) (start_process d0) acts s"
    using assms(4) by (simp add: run_schedule_iff)
  have "process_begins (start_process d0)"
    using daemon_setup_frame [OF assms(1,3)] assms(2) by (auto simp: process_begins_def)
  from process.inv_reached [OF this run] assms(5,6)
  have "retry_inv N_Sleep (pr_retry s) (d_bt (pr_daemon s))" "proxy_inv N_Sleep (pr_proxy s)" "gadget_inv s"
    by (simp_all add: process_inv_def)
  moreover have "pr_switched s \<Longrightarrow> Late_switch \<in> set acts"
    using switched_run [OF run] by (simp add: start_process_def)
  moreover have "m_adapter (d_bt (pr_daemon s)) = None \<Longrightarrow> powered_off (d_bt (pr_daemon s))"
    by (simp add: powered_off_def)
  ultimately show ?thesis
    using assms(6) by (auto simp: retry_inv_def proxy_inv_def gadget_inv_def connected_pcs_def)
qed

section \<open>A concrete run\<close>

text \<open>
  A pass in which the retry thread connects, the phone arrives while it waits, a client of the
  control socket disconnects everything before the retry thread powers the adapter off, the car
  asks for accessory mode, and the accessory device does not open.
\<close>

definition demo_start :: "nat daemon" where
  "demo_start = \<lparr>d_bt = demo_bt\<lparr>m_adapter := None, connectWithRetryPromise := None\<rparr>, d_usb = demo_usb, d_fds = []\<rparr>"

definition demo_phone :: client_env where
  "demo_phone = demo_client_env\<lparr>ce_events := [start_env], ce_open := False\<rparr>"

definition demo_server :: server_env where
  "demo_server = \<lparr>se_socket = True, se_setsockopt = True, se_bind = True, se_listen = True\<rparr>"

definition demo_run :: "daemon_actor list" where
  "demo_run = replicate 4 (Main_turn [] demo_server) @ [Retry_turn, Proxy_turn demo_phone False, Retry_turn, Request_turn Disconnect_all,
     Request_rest_turn, Retry_turn, Proxy_turn demo_phone False, Proxy_turn demo_phone False] @ replicate 4 (Main_turn [] demo_server)"

lemma keeps_result: "makes P f \<Longrightarrow> fst (f b) = Inr x \<Longrightarrow> \<exists>b'. f b = (Inr x, b') \<and> bt_keeps b b'"
  unfolding makes_def by (metis prod.collapse)

lemma demo_operations:
  fixes b :: "nat bt"
  assumes "strategy b = PHONE_FIRST" "m_adapter b = Some ''a''"
  shows "\<exists>b'. powerOn demo_bus b = (Inr (), b') \<and> bt_keeps b b'"
    "\<exists>b'. connectDevice demo_bus b = (Inr (), b') \<and> bt_keeps b b'"
    "\<exists>b'. disconnectAllConnectedDevices demo_bus (b\<lparr>m_preferredDeviceObjectPath := None\<rparr>) = (Inr (), b') \<and> bt_keeps b b'"
    "\<exists>b'. powerOff demo_bus b = (Inr (), b')"
proof -
  have "fst (powerOn demo_bus b) = Inr ()"
    using assms by (simp add: powerOn_def setPower_def setPairable_def demo_eval)
  then show "\<exists>b'. powerOn demo_bus b = (Inr (), b') \<and> bt_keeps b b'" by (rule keeps_result [OF powerOn_keeps])
  obtain b1 where o: "dbus_objects demo_bus b = (Inr demo_objects, b1)"
    by (simp add: dbus_objects_def dbus_typed_def dbus_def andthen_def)
  have "fst (connectDevice demo_bus b) = Inr ()"
    using o connect_loop_any [of demo_bus _ b1]
    by (auto simp: connectDevice_def getBluezObjects_def) (metis fst_conv)
  then show "\<exists>b'. connectDevice demo_bus b = (Inr (), b') \<and> bt_keeps b b'"
    by (rule keeps_result [OF no_power_connectDevice])
  have "fst (disconnectAllConnectedDevices demo_bus (b\<lparr>m_preferredDeviceObjectPath := None\<rparr>)) = Inr ()"
    by (simp add: disconnectAllConnectedDevices_def is_device_def demo_eval)
  then show "\<exists>b'. disconnectAllConnectedDevices demo_bus (b\<lparr>m_preferredDeviceObjectPath := None\<rparr>) = (Inr (), b') \<and> bt_keeps b b'"
    by (rule keeps_result [OF no_power_requests(3)])
  show "\<exists>b'. powerOff demo_bus b = (Inr (), b')"
    using assms by (simp add: powerOff_def setPower_def demo_eval)
qed

lemma demo_setup:
  obtains b u where "daemon_setup demo_bus demo_host (Some [''a.usb'']) demo_start = (Inr (), \<lparr>d_bt = b, d_usb = u, d_fds = []\<rparr>)"
    "strategy b = PHONE_FIRST" "m_adapter b = Some ''a''" "m_connection b" "connectWithRetryPromise b = None"
    "gadgets_exist u" "handlers u = []"
proof -
  let ?b = "demo_bt\<lparr>m_adapter := None, connectWithRetryPromise := None\<rparr>"
  obtain u where u: "UsbManager_init (Some [''a.usb'']) demo_usb = (Inr (), u)" "gadgets_exist u" "handlers u = []"
    using usb_start_up [OF demo_usb_ok(1), of "Some [''a.usb'']"] by auto
  obtain b where b: "bt_init demo_bus demo_host ?b = (Inr (), b)" "strategy b = PHONE_FIRST"
    "m_adapter b = Some ''a''" "m_connection b" "connectWithRetryPromise b = None"
    by (simp add: bt_init_def initAdapter_def exportProfiles_def register_object_def demo_bt_def demo_eval)
  show thesis
    by (rule that [OF _ b(2-5) u(2,3)])
       (use u b in \<open>simp add: daemon_setup_def demo_start_def server_simps\<close>)
qed

lemma demo_wait:
  assumes "gadgets_exist u" "handlers u = []"
  obtains u' u'' where "enableDefaultAndWaitForAccessory Ring 30000 [start_env] u = (Inr (Some True), u')"
    "disableGadgets u' = (Inr (), u'')"
proof -
  let ?p = "next_promise u" and ?w = "waiting u"
  let ?v = "(accessory_mode ?p ?w)\<lparr>handlers := [], promise_alive := (promise_alive ?w)(?p := False)\<rparr>"
  have "gadgets_exist (accessory_mode ?p ?w)" using assms(1) by simp
  then have g: "gadgets_exist ?v" by (simp add: gadgets_exist_def)
  have "enableDefaultAndWaitForAccessory Ring 30000 [start_env] u = (Inr (Some True), ?v)"
    using wait_for_request(1) [OF assms, of "[]" start_env "[]"] start_env_is_start
    by (simp add: enableDefaultAndWait_eq [OF assms(1)])
  with disable_existing [OF g] show thesis using that by blast
qed

lemma demo_runs_through:
  fixes b :: "nat bt"
  assumes "strategy b = PHONE_FIRST" "m_adapter b = Some ''a''" "m_connection b" "connectWithRetryPromise b = None"
    and "gadgets_exist u" "handlers u = []"
  shows "\<exists>s. run_schedule (daemon_step demo_bus Ring demo_host) demo_run (start_process \<lparr>d_bt = b, d_usb = u, d_fds = []\<rparr>) = Some s
    \<and> pr_fault s = None \<and> pr_main s = N_Sleep \<and> m_adapter (d_bt (pr_daemon s)) = Some ''a''
    \<and> strategy (d_bt (pr_daemon s)) = PHONE_FIRST"
proof -
  obtain b1 where b1: "powerOn demo_bus b = (Inr (), b1)" "bt_keeps b b1" using demo_operations(1) [OF assms(1,2)] by blast
  let ?b2 = "b1\<lparr>connectWithRetryPromise := Some False\<rparr>"
  have k2: "strategy ?b2 = PHONE_FIRST" "m_adapter ?b2 = Some ''a''" using assms b1(2) by (simp_all add: bt_keeps_def)
  obtain b3 where b3: "connectDevice demo_bus ?b2 = (Inr (), b3)" "bt_keeps ?b2 b3" using demo_operations(2) [OF k2] by blast
  let ?b5 = "b3\<lparr>connectWithRetryPromise := None\<rparr>"
  have k5: "strategy ?b5 = PHONE_FIRST" "m_adapter ?b5 = Some ''a''" using k2 b3(2) by (simp_all add: bt_keeps_def)
  obtain b6 where b6: "disconnectAllConnectedDevices demo_bus (?b5\<lparr>m_preferredDeviceObjectPath := None\<rparr>) = (Inr (), b6)"
    "bt_keeps ?b5 b6" using demo_operations(3) [OF k5] by blast
  have k6: "strategy b6 = PHONE_FIRST" "m_adapter b6 = Some ''a''" "m_connection b6" "connectWithRetryPromise b6 = None"
    using k5 b6(2) b3(2) b1(2) assms(3) by (simp_all add: bt_keeps_def)
  obtain b7 where b7: "powerOff demo_bus b6 = (Inr (), b7)" using demo_operations(4) [OF k6(1,2)] by blast
  then have "bt_keeps b6 b7" using powerOff_powers_off [of b6 demo_bus b7] k6(1) by simp
  with k6 have k7: "strategy b7 = PHONE_FIRST" "m_adapter b7 = Some ''a''" "connectWithRetryPromise b7 = None"
    by (simp_all add: bt_keeps_def)
  have k1: "strategy b1 = PHONE_FIRST" "m_adapter b1 = Some ''a''" using assms b1(2) by (simp_all add: bt_keeps_def)
  have k3: "strategy b3 = PHONE_FIRST" "m_adapter b3 = Some ''a''" "m_connection b3" "connectWithRetryPromise b3 = Some False"
    using k2 b3(2) b1(2) assms(3) by (simp_all add: bt_keeps_def)
  obtain u1 u2 where w: "enableDefaultAndWaitForAccessory Ring 30000 [start_env] u = (Inr (Some True), u1)"
    "disableGadgets u1 = (Inr (), u2)" using demo_wait [OF assms(5,6)] .
  note step = daemon_step_def act_def server_simps
  show ?thesis
    unfolding demo_run_def start_process_def numeral_nat pred_numeral_simps replicate.simps append.simps
    by (simp add: step main_step_def proxy_step_def retry_step_def request_step_def request_rest_def
        wait_for_car_def startServer_def power_up_def accept_phone_def accessory_ready_def serve_rest_def
        connectWithRetry_def stopConnectWithRetry_def demo_server_def demo_phone_def demo_client_env_def
        assms b1(1) b3(1) b6(1) b7 k1 k3 k6 k7 w)
qed

theorem program_resets_witness:
  "\<exists>d0 s. daemon_setup demo_bus demo_host (Some [''a.usb'']) demo_start = (Inr (), d0)
    \<and> run_schedule (daemon_step demo_bus Ring demo_host) demo_run (start_process d0) = Some s
    \<and> pr_main s = N_Sleep \<and> bound_udc (d_usb (pr_daemon s)) accessoryGadgetName = []
    \<and> last (filter (\<lambda>c. is_power (fst c)) (calls (d_bt (pr_daemon s)))) = (SetBool ''a'' ''Powered'' False, True)"
proof -
  obtain b u where d0: "daemon_setup demo_bus demo_host (Some [''a.usb'']) demo_start = (Inr (), \<lparr>d_bt = b, d_usb = u, d_fds = []\<rparr>)"
    (is "_ = (_, ?d0)")
    and bu: "strategy b = PHONE_FIRST" "m_adapter b = Some ''a''" "m_connection b" "connectWithRetryPromise b = None"
    "gadgets_exist u" "handlers u = []" by (rule demo_setup)
  obtain s where s: "run_schedule (daemon_step demo_bus Ring demo_host) demo_run (start_process ?d0) = Some s"
    "pr_fault s = None" "pr_main s = N_Sleep" "m_adapter (d_bt (pr_daemon s)) = Some ''a''"
    "strategy (d_bt (pr_daemon s)) = PHONE_FIRST"
    using demo_runs_through [OF bu] by blast
  have start: "connectWithRetryPromise (d_bt demo_start) = None" "no_wait (d_usb demo_start)" "Late_switch \<notin> set demo_run"
    by (simp_all add: demo_start_def no_wait_def demo_usb_def demo_run_def)
  from program_resets [OF d0 start(1,2) s(1-3)] start(3)
  have "powered_off (d_bt (pr_daemon s))" "bound_udc (d_usb (pr_daemon s)) accessoryGadgetName = []" by blast+
  with d0 s show ?thesis by (auto simp: powered_off_def Let_def)
qed

end
