(* ===== verification/Spec2Isabelle.thy ===== *)
theory Spec2Isabelle
  imports Proxy Config Uevent Usb AccessoryWait Bluetooth Handover RetryProtocol Launcher Profiles ControlSocket Json Mqtt
    Server Interleaving StopProtocol Daemon
begin

text \<open>
  A verification development for the daemons of the Wireless Android Auto dongle, the C++
  programs aawgd and aawg-mqttd of src/aa_wireless_dongle/package/aawg/src/ (file names below
  are relative to it).

  \<^bold>\<open>The program.\<close>  The dongle sits in the car's USB port and makes a phone appear there
  that is really connected over Wi-Fi.  The main function (aawgd.cpp) loops: it powers the
  Bluetooth adapter up and tries to connect the paired phones (bluetoothHandler.cpp); a phone
  that connects opens an RFCOMM channel, on which the launcher hands it the Wi-Fi credentials
  (bluetoothProfiles.cpp); the phone then connects to the TCP server (proxyHandler.cpp), which
  stops the Bluetooth retrying, brings the USB gadget up, waits for the uevent in which the car
  asks for accessory mode (usb.cpp, uevent.cpp), and starts two threads that forward frames in
  both directions until one of them ends.  Beside the loop, a control socket
  (controlSocket.cpp) lists, switches and disconnects devices, and a second process bridges it
  to MQTT (mqttBridge.cpp).  Configuration comes from the environment and from files (common.cpp).

  \<^bold>\<open>The theories\<close>, in the order they build on each other:
  \<^item> Prelude: machine types, the model of read(2) and write(2), bounds-checked buffers, the
    error monad in which an exception, a null dereference or an iterator past the end is a value
    of the datatype fault.
  \<^item> Reader: the contract of the two readFully routines (locale exact\_reader) and what a
    client gets that reads a header and then a body; interpreted on AAWProxy::readFully in Proxy
    (tcp\_reader) and on the readFully of bluetoothProfiles.cpp in Launcher (rfcomm\_reader).
  \<^item> CxxString: the std::string, stream and std::stoi operations the sources use.
  \<^item> StableSort: std::stable\_sort for a strict weak ordering (locale strict\_weak\_order),
    interpreted on both comparators of bluetoothHandler.cpp.
  \<^item> Transition: labelled step relations, their runs (trace) and the locales invariant\_system and
    measured\_system with what an invariant and a decreasing measure give of every run;
    interpreted in Interleaving, StopProtocol, Profiles, RetryProtocol and AccessoryWait.
  \<^item> Config: common.cpp and the enums of proto/WifiInfoResponse.proto.  The record host is the
    environment, the files and the interfaces; config is the cached connection strategy.
  \<^item> Proxy: readFully, readMessage, forward and stopForwarding of AAWProxy.  endpoints holds the
    two connections, proxy\_ctl the exit flag and its schedule of reads.
  \<^item> Uevent: UeventMonitor, from the bytes of a netlink message to the handlers.
  \<^item> Usb: UsbManager; the record usb holds the gadgets' UDC files, the promises of the waits
    and the registered handlers.
  \<^item> AccessoryWait: the wait for the accessory request and its handler as two threads that move
    in any order, with the timeout and the main loop's clean-up.
  \<^item> DBusObjects: the members the D-Bus classes declare (BluezProfile, BLEAdvertisement,
    BluezAdapterProxy) and the values stored in them.
  \<^item> Bluetooth: BluetoothHandler; the record bt holds the adapter, the strategy, the promise of
    the retry thread and the log of the D-Bus calls with their outcomes.
  \<^item> Handover: the specification of switching and disconnecting as a set of connected devices,
    and that the operations of Bluetooth implement it over a bus with BlueZ's laws.
  \<^item> RetryProtocol: the promise shared by the main, proxy, retry and control threads, as an
    inductive step relation on their program counters, with every interleaving.
  \<^item> Launcher: AAWirelessLauncher, the handshake on one channel.
  \<^item> Profiles: the methods BlueZ calls on the exported profiles, and the process's descriptors
    with the detached handshake threads, the library and the rest of the daemon in any order.
  \<^item> ControlSocket: ControlSocketServer, from the bytes of a client to the bytes of the answer.
  \<^item> Json: a strict reader of JSON, and that it reads the control socket's answers back.
  \<^item> Mqtt: the bridge, from a payload to a request, a shell command or a publication.
  \<^item> Server: AAWProxy::startServer and handleClient on the joined state of Bluetooth, USB and
    the open descriptors.
  \<^item> Interleaving: the two forwarding threads of a session step by step, down to single reads,
    writes and accesses of the exit flag, in every order.
  \<^item> StopProtocol: how the forwarding threads and handleClient use the exit flag, SIGUSR1 and the
    thread objects, with system calls that block.
  \<^item> Daemon: the set-up, one pass and the loop of the main function.

  \<^bold>\<open>How state and effects are modelled.\<close>  A descriptor that is read is a script: a list of
  deliveries and failures, whose end is end of file.  A descriptor that is written is a sink
  that records, call by call, what the kernel accepted, next to a script of short writes and
  failures.  A theorem for all scripts is one for every way the kernel may cut up, delay or end
  a transfer.  Stateful operations are functions from a state record to an error or a result
  and the new record; the monad is that of Prelude (ret, throw, andthen, catch).  Machine
  integers keep their width where the code's casts matter: bytes and the frame header's length
  (readMessage), the 16-bit sizes of the RFCOMM messages (SendMessage), htons of the port.

  \<^bold>\<open>What the lemmas show.\<close>
  \<^item> Forwarding: the reading thread cuts any delivery of bytes into exactly the frames the
    stream consists of (an independent length function, frame\_length, says what a frame is),
    writes them in order and loses none; the raw direction passes the bytes through; no store
    leaves the 16384-byte buffer; when a write is short the rest of that frame is dropped.
  \<^item> The threads of a session: every interleaving of the two threads ends within a bound given by
    what the connections still hold, and is, thread by thread, a run of the function forward under
    some schedule of the exit flag, so that what is proved of forward holds of the concurrent
    threads; a raised flag stops the other thread after at most one more frame.
  \<^item> Stopping: an invariant of all interleavings of the signals shows when a stop reaches the
    other thread, and the two gaps in which it does not: a signal between the look at the flag and
    the system call is lost, and a signal may go to a thread object that join has emptied.
  \<^item> Sessions: a phone that is accepted stops the retrying, gets the gadget switched to
    accessory mode and both directions forwarded; which descriptors stay open on the early
    returns.
  \<^item> Handshake: with a phone that sends a request for the credentials and whatever else, the
    launcher returns, having sent the start request first and the credentials as soon as they
    are asked for; messages survive a round trip; the size arithmetic wraps above 65531 bytes.
    Concurrent handshakes keep their descriptors and do not disturb each other.
  \<^item> The main loop: behind the set-up and any number of passes, a pass that is followed by another
    leaves no gadget bound, no retry thread and (outside dongle mode) the adapter powered off.
  \<^item> The retry protocol: an invariant of all interleavings bounds the life of the promise and
    the ways the process can crash; once the promise is satisfied every continuation of the
    retry thread ends in a bounded number of its own steps; concrete schedules reach the crash
    of a second set\_value, the null promise, and the retry thread that is never told to stop.
  \<^item> Bluetooth: connectDevice asks the preferred device first and stops at the first that accepts;
    switchToDevice picks the first listed device that matches; the list is sorted and complete;
    over a bus with BlueZ's laws switching and disconnecting implement their specification;
    every object is exported before BlueZ is told its path, and implements what BlueZ calls.
  \<^item> Uevents and USB: parsing inverts rendering, and the monitor thread is the documented
    dispatcher as long as no handler is erased; the two gadgets are never bound at once; the
    accessory request switches, its absence times out; what the handler loop's double
    increment does in a container with and without a past-the-end node to wrap around.  With the
    handler in a thread of its own, an invariant shows that the clean-up leaves no gadget bound
    except behind a wait that timed out too close to the request, and a schedule shows that case.
  \<^item> Control socket and MQTT: a request is answered by the reply to its first line whatever the
    segmentation; the answer is one line that a strict JSON reader reads back to the data it was
    made from; a JSON switch message travels from the broker to the connected devices (below) and
    the status back; an update url with a quote in it leaves the shell's quotation.

  \<^bold>\<open>Interfaces and parameters.\<close>  Code that is not in the repository is an argument of the
  definitions that use it: BlueZ behind D-Bus is a function from a call and the world's state to
  a reply and the next state (the type bus); the protobuf library is the serialiser ser;
  mosquitto's answers are the record mosquitto\_lib; printing a double is a function in
  sysinfo; the content of uninitialised memory is the function junk.  The hypotheses some
  theorems make about them are named definitions: answers (the bus answers every call),
  sizes\_ok (messages fit the 16-bit length), answering (the control socket accepts and replies),
  gadgets\_exist (the gadget directories are there), bluez (Connected tells the truth, Disconnect
  and ConnectProfile change it, and only for their device), printable\_devices and its kind (no
  control character that jsonEscape does not escape).  Each is met by a concrete instance in a
  witness.

  \<^bold>\<open>Loops and bounds.\<close>  There is no fuel.  A loop that reads ends with the script of its
  descriptor, and its termination is proved with the measure rsize (bytes and events left); the
  parsing loops shorten their string; writeAll shortens what is left to write.  The endless
  loops (the monitor, the accept loop of the control socket, the retry loop, the main loop) are
  functions of the list of events, clients, waits or passes they are given, and the theorems
  hold for every such list.  In RetryProtocol the loops are real, and termination is a theorem
  about the steps left to the retry thread.

  \<^bold>\<open>What is not modelled.\<close>  Logger and every log line; dbus-cxx itself (dispatch, type checks,
  error texts); the data passed in the blocking model of StopProtocol and the blocking in the data
  model of Interleaving, each of which abstracts from the other's subject; SIGPIPE; concurrent
  D-Bus calls of the control socket's thread and the retry thread; weak-memory effects.  The boot
  and update shell scripts, the kernel patches and the build configuration are not C++ and are
  left out.
\<close>

section \<open>From the broker to the phone\<close>

text \<open>
  C16. A switch message crosses both processes.  With a selector the formats can carry, the MQTT
  bridge turns a JSON switch message into one request; whatever pieces that request arrives in,
  the control socket of the daemon answers it; and over a BlueZ that keeps its laws the answer
  and the devices connected afterwards are those of the specification: without a match the answer
  is an error and nothing changes; otherwise every other device that BlueZ knows and can
  disconnect is disconnected, and the first device of the listing that matches is connected, and
  the answer ok, exactly when that device accepts (and an earlier connection of it could be ended).
\<close>

theorem switch_message_hands_over:
  assumes "DQ \<notin> set sel" "NL \<notin> set sel" "sel \<noteq> []" "last sel \<noteq> CR" "length sel < 4000"
    and "\<not> contains ''disconnect'' sel" "answering peer" "wscript out = []"
    and "bluez bus objs bz" "m_connection b" "connectWithRetryPromise b \<noteq> Some True"
  shows "\<exists>resp req ok b' ds b1. onMessage peer (Some (switch_json sel)) =
      Request (resp \<noteq> []) resp ((up_out peer)\<lparr>wlog := wlog (up_out peer) @ [req]\<rparr>)
    \<and> (\<forall>i. avail i = req \<longrightarrow>
        serve_client bus si i out b = (Inr (out\<lparr>wlog := wlog out @ [ok_json ok]\<rparr>), b'))
    \<and> listDevices bus (stopped b) = (Inr ds, b1)
    \<and> (case find (device_matches sel) ds of
        None \<Rightarrow> \<not> ok \<and> connected_now (connected_in bz) b' = connected_now (connected_in bz) b
      | Some d \<Rightarrow> objectPath d \<in> devices_of objs \<and> (ok, connected_now (connected_in bz) b')
          = spec_switch bz (devices_of objs) (objectPath d) (connected_now (connected_in bz) b))"
proof -
  obtain ok b' ds b1 where s: "switchToDevice bus sel b = (Inr ok, b')"
    "listDevices bus (stopped b) = (Inr ds, b1)"
    "case find (device_matches sel) ds of
        None \<Rightarrow> \<not> ok \<and> connected_now (connected_in bz) b' = connected_now (connected_in bz) b
      | Some d \<Rightarrow> objectPath d \<in> devices_of objs \<and> (ok, connected_now (connected_in bz) b')
          = spec_switch bz (devices_of objs) (objectPath d) (connected_now (connected_in bz) b)"
    using switch_now [OF assms(9-11), of sel] by blast
  obtain resp req where "onMessage peer (Some (switch_json sel)) =
      Request (resp \<noteq> []) resp ((up_out peer)\<lparr>wlog := wlog (up_out peer) @ [req]\<rparr>)"
    "\<forall>i. avail i = req \<longrightarrow> serve_client bus si i out b = (Inr (out\<lparr>wlog := wlog out @ [ok_json ok]\<rparr>), b')"
    using switch_end_to_end [OF assms(1-7) s(1) assms(8), of si] by blast
  with s show ?thesis by blast
qed

theorem switch_message_hands_over_witness:
  "\<exists>req b'. (\<forall>i. avail i = req \<longrightarrow>
        serve_client phones_bus demo_sysinfo i fresh_sink phones_bt = (Inr (fresh_sink\<lparr>wlog := [ok_json True]\<rparr>), b'))
    \<and> connected_now (\<lambda>D. D) b' = {''d2''}"
proof -
  have p: "connectWithRetryPromise phones_bt \<noteq> Some True" by simp
  have w: "wscript fresh_sink = ([] :: wev list)" by simp
  from phones_listed obtain ds b1 d where l: "listDevices phones_bus (stopped phones_bt) = (Inr ds, b1)"
    "find (device_matches ''00:d2'') ds = Some d" "objectPath d = ''d2''" by blast
  obtain req ok b' ds' b1' where r: "\<forall>i. avail i = req \<longrightarrow>
        serve_client phones_bus demo_sysinfo i fresh_sink phones_bt
        = (Inr (fresh_sink\<lparr>wlog := wlog fresh_sink @ [ok_json ok]\<rparr>), b')"
    "listDevices phones_bus (stopped phones_bt) = (Inr ds', b1')"
    "case find (device_matches ''00:d2'') ds' of
        None \<Rightarrow> \<not> ok \<and> connected_now (connected_in two_phones) b' = connected_now (connected_in two_phones) phones_bt
      | Some d \<Rightarrow> objectPath d \<in> devices_of demo_objects \<and> (ok, connected_now (connected_in two_phones) b')
          = spec_switch two_phones (devices_of demo_objects) (objectPath d) (connected_now (connected_in two_phones) phones_bt)"
    using switch_message_hands_over [of "''00:d2''", OF _ _ _ _ _ _ demo_peer_answering w phones_bluez
      phones_bt_sel(1) p, of demo_sysinfo] by fastforce
  from r(2) l(1) have "ds' = ds" by simp
  with r(3) l(2,3) have "(ok, connected_now (\<lambda>D. D) b') = (True, {''d2''})"
    by (simp add: phones_devices phones_spec)
  with r(1) show ?thesis by (intro exI [of _ req] exI [of _ b']) simp
qed

end
